theory Spec2Isabelle
  imports Main "HOL-Library.Multiset" "HOL-Library.Monad_Syntax"
begin

section \<open>Data model\<close>

text \<open>
  The shadow tree differentiator of \<^verbatim>\<open>ReactCommon/fabric/mounting/Differentiator.cpp\<close>
  and the registry of \<^verbatim>\<open>ShadowTreeRegistry.cpp\<close>.

  \<^verbatim>\<open>Tag\<close> and \<^verbatim>\<open>SurfaceId\<close> are C++ integers. No arithmetic is done on them (they are
  only compared), so they are modelled as \<open>int\<close>. Layout coordinates are \<^verbatim>\<open>Float\<close>s in the
  source; the only operation the differentiator performs on them is the componentwise
  addition of an offset, which is modelled on \<open>int\<close>.
\<close>

type_synonym Tag = int
type_synonym SurfaceId = int

record Point =
  x_coord :: int
  y_coord :: int

text \<open>\<^verbatim>\<open>Point::operator+=\<close>: componentwise addition.\<close>

definition Point_plus :: "Point \<Rightarrow> Point \<Rightarrow> Point" where
  "Point_plus a b = \<lparr>x_coord = x_coord a + x_coord b, y_coord = y_coord a + y_coord b\<rparr>"

definition Point_zero :: Point where
  "Point_zero = \<lparr>x_coord = 0, y_coord = 0\<rparr>"

record LayoutMetrics =
  frame_origin :: Point
  frame_size :: Point

text \<open>
  Modelled from the spec: \<^verbatim>\<open>ShadowView\<close> (declared in \<^verbatim>\<open>ShadowView.h\<close>, which is not among
  the sources) is the value type \<^verbatim>\<open>{tag, componentName, props, layoutMetrics, state, eventEmitter}\<close>;
  its equality is pointwise over those fields, which is HOL equality of the record.
  Props, state and event emitter are opaque and stand as numbers.
\<close>

record ShadowView =
  tag :: Tag
  componentName :: string
  props :: nat
  eventEmitter :: nat
  layoutMetrics :: LayoutMetrics
  state :: nat

text \<open>The default-constructed \<^verbatim>\<open>ShadowView()\<close>, the parent of the root update.\<close>

definition emptyShadowView :: ShadowView where
  "emptyShadowView = \<lparr>tag = 0, componentName = [], props = 0, eventEmitter = 0,
     layoutMetrics = \<lparr>frame_origin = Point_zero, frame_size = Point_zero\<rparr>, state = 0\<rparr>"

datatype Trait = FormsView | FormsStackingContext

text \<open>\<^verbatim>\<open>ShadowNodeTraits::check\<close>.\<close>

definition check :: "Trait set \<Rightarrow> Trait \<Rightarrow> bool" where
  "check traits t = (t \<in> traits)"

text \<open>
  The shadow node, as far as the differentiator reads it: the fields that the
  \<^verbatim>\<open>ShadowView(node)\<close> constructor copies (kept together as \<open>nodeView\<close>), the surface,
  the order index, the traits and the children. Nodes are immutable and only borrowed, so
  a reference to a node is modelled by the node.
\<close>

datatype ShadowNode = ShadowNode
  (nodeView: ShadowView)
  (getSurfaceId: SurfaceId)
  (getOrderIndex: int)
  (getTraits: "Trait set")
  (getChildren: "ShadowNode list")

text \<open>The constructor \<^verbatim>\<open>ShadowView(ShadowNode const &)\<close>.\<close>

definition ShadowView_of :: "ShadowNode \<Rightarrow> ShadowView" where
  "ShadowView_of n = nodeView n"

text \<open>
  Modelled from the spec: \<^verbatim>\<open>ShadowNode::sameFamily\<close> is not among the sources; two nodes
  are of the same family when they share tag, surface and component type.
\<close>

definition sameFamily :: "ShadowNode \<Rightarrow> ShadowNode \<Rightarrow> bool" where
  "sameFamily a b \<longleftrightarrow>
     tag (nodeView a) = tag (nodeView b) \<and> getSurfaceId a = getSurfaceId b \<and>
     componentName (nodeView a) = componentName (nodeView b)"

text \<open>
  \<^verbatim>\<open>ShadowViewNodePair\<close>: a view snapshot and the borrowed node.
  Modelled from the spec: the pair's \<^verbatim>\<open>operator!=\<close> is not among the sources; pair equality
  is equality of the views, the node is ignored.
\<close>

record ShadowViewNodePair =
  shadowView :: ShadowView
  shadowNode :: ShadowNode

definition pair_ne :: "ShadowViewNodePair \<Rightarrow> ShadowViewNodePair \<Rightarrow> bool" where
  "pair_ne lhs rhs \<longleftrightarrow> shadowView lhs \<noteq> shadowView rhs"

text \<open>The five mutations, by the factory functions of \<^verbatim>\<open>ShadowViewMutation\<close>.\<close>

datatype ShadowViewMutation =
  CreateMutation ShadowView
  | DeleteMutation ShadowView
  | InsertMutation ShadowView ShadowView int
  | RemoveMutation ShadowView ShadowView int
  | UpdateMutation ShadowView ShadowView ShadowView int

section \<open>TinyMap\<close>

text \<open>
  The backing \<^verbatim>\<open>small_vector\<close> of pairs is a list. An \<^verbatim>\<open>Iterator\<close> is a \<^verbatim>\<open>Pair *\<close>:
  \<open>Some i\<close> is the address of slot \<open>i\<close> of the storage, \<open>None\<close> is \<^verbatim>\<open>nullptr\<close>.
\<close>

type_synonym 'v TinyMap = "(Tag \<times> 'v) list"
type_synonym Iterator = "nat option"

text \<open>\<^verbatim>\<open>end()\<close> is \<^verbatim>\<open>nullptr\<close>. (\<^verbatim>\<open>begin()\<close> is called nowhere and is left out.)\<close>

definition end_TinyMap :: Iterator where
  "end_TinyMap = None"

text \<open>The loop of \<^verbatim>\<open>find\<close>, from slot \<open>i\<close> on: the first slot whose key is \<open>key\<close>.\<close>

fun find_loop :: "nat \<Rightarrow> Tag \<Rightarrow> 'v TinyMap \<Rightarrow> Iterator" where
  "find_loop i key [] = end_TinyMap"
| "find_loop i key (item # rest) =
     (if fst item = key then Some i else find_loop (Suc i) key rest)"

definition find_TinyMap :: "Tag \<Rightarrow> 'v TinyMap \<Rightarrow> Iterator" where
  "find_TinyMap key vector = find_loop 0 key vector"

text \<open>\<^verbatim>\<open>insert\<close>: the assertion \<^verbatim>\<open>pair.first != 0\<close>, then \<^verbatim>\<open>push_back\<close>. \<open>None\<close> is the
  failed assertion.\<close>

definition insert_TinyMap :: "Tag \<times> 'v \<Rightarrow> 'v TinyMap \<Rightarrow> 'v TinyMap option" where
  "insert_TinyMap pair vector = (if fst pair \<noteq> 0 then Some (vector @ [pair]) else None)"

text \<open>\<^verbatim>\<open>erase\<close>: \<^verbatim>\<open>iterator->first = 0\<close>. Dereferencing \<^verbatim>\<open>nullptr\<close> or an address
  outside the storage has no defined result: \<open>None\<close>.\<close>

definition erase_TinyMap :: "Iterator \<Rightarrow> 'v TinyMap \<Rightarrow> 'v TinyMap option" where
  "erase_TinyMap iterator vector =
     (case iterator of
        None \<Rightarrow> None
      | Some i \<Rightarrow> if i < length vector then Some (vector[i := (0, snd (vector ! i))]) else None)"

text \<open>Reading \<^verbatim>\<open>*iterator\<close>.\<close>

definition deref_TinyMap :: "Iterator \<Rightarrow> 'v TinyMap \<Rightarrow> (Tag \<times> 'v) option" where
  "deref_TinyMap iterator vector =
     (case iterator of
        None \<Rightarrow> None
      | Some i \<Rightarrow> if i < length vector then Some (vector ! i) else None)"

text \<open>The live entries of a map, as the specification words them: those whose key is not
  the tombstone \<open>0\<close>. The map declares no iteration; the loop of \<^verbatim>\<open>find\<close> is the only code
  that walks the storage.\<close>

definition live_entries :: "'v TinyMap \<Rightarrow> (Tag \<times> 'v) list" where
  "live_entries vector = filter (\<lambda>item. fst item \<noteq> 0) vector"

section \<open>Sibling reorder\<close>

text \<open>The key of \<^verbatim>\<open>shouldFirstPairComesBeforeSecondOne\<close>.\<close>

definition pairOrderIndex :: "ShadowViewNodePair \<Rightarrow> int" where
  "pairOrderIndex pair = getOrderIndex (shadowNode pair)"

definition shouldFirstPairComesBeforeSecondOne ::
  "ShadowViewNodePair \<Rightarrow> ShadowViewNodePair \<Rightarrow> bool" where
  "shouldFirstPairComesBeforeSecondOne lhs rhs \<longleftrightarrow> pairOrderIndex lhs < pairOrderIndex rhs"

text \<open>The loop that sets \<^verbatim>\<open>isReorderNeeded\<close> and breaks at the first non-zero index.\<close>

fun isReorderNeeded :: "ShadowViewNodePair list \<Rightarrow> bool" where
  "isReorderNeeded [] = False"
| "isReorderNeeded (pair # rest) =
     (if pairOrderIndex pair \<noteq> 0 then True else isReorderNeeded rest)"

text \<open>
  \<^verbatim>\<open>std::stable_sort\<close> with a comparator: a stable insertion sort, the head of the
  list going before the first element that does not come before it.
\<close>

fun stable_insert ::
  "('a \<Rightarrow> 'a \<Rightarrow> bool) \<Rightarrow> 'a \<Rightarrow> 'a list \<Rightarrow> 'a list" where
  "stable_insert precedes a [] = [a]"
| "stable_insert precedes a (b # bs) =
     (if precedes b a then b # stable_insert precedes a bs else a # b # bs)"

fun stable_sort :: "('a \<Rightarrow> 'a \<Rightarrow> bool) \<Rightarrow> 'a list \<Rightarrow> 'a list" where
  "stable_sort precedes [] = []"
| "stable_sort precedes (a # as) = stable_insert precedes a (stable_sort precedes as)"

definition reorderInPlaceIfNeeded :: "ShadowViewNodePair list \<Rightarrow> ShadowViewNodePair list" where
  "reorderInPlaceIfNeeded pairs =
     (if length pairs < 2 then pairs
      else if \<not> isReorderNeeded pairs then pairs
      else stable_sort shouldFirstPairComesBeforeSecondOne pairs)"

section \<open>Child-pair slicer\<close>

text \<open>\<^verbatim>\<open>shadowView.layoutMetrics.frame.origin += layoutOffset\<close>.\<close>

definition offsetView :: "Point \<Rightarrow> ShadowView \<Rightarrow> ShadowView" where
  "offsetView layoutOffset v =
     v\<lparr>layoutMetrics := (layoutMetrics v)
         \<lparr>frame_origin := Point_plus (frame_origin (layoutMetrics v)) layoutOffset\<rparr>\<rparr>"

text \<open>
  \<^verbatim>\<open>sliceChildShadowNodeViewPairsRecursively\<close> appends to \<open>pairList\<close>; \<open>slice_loop\<close>
  is its loop over the children.
\<close>

fun sliceChildShadowNodeViewPairsRecursively ::
  "ShadowViewNodePair list \<Rightarrow> Point \<Rightarrow> ShadowNode \<Rightarrow> ShadowViewNodePair list"
and slice_loop ::
  "ShadowViewNodePair list \<Rightarrow> Point \<Rightarrow> ShadowNode list \<Rightarrow> ShadowViewNodePair list" where
  "sliceChildShadowNodeViewPairsRecursively pairList layoutOffset (ShadowNode v s i t children) =
     slice_loop pairList layoutOffset children"
| "slice_loop pairList layoutOffset [] = pairList"
| "slice_loop pairList layoutOffset (childShadowNode # rest) =
     (let view = offsetView layoutOffset (ShadowView_of childShadowNode);
          pair = \<lparr>shadowView = view, shadowNode = childShadowNode\<rparr>
      in if check (getTraits childShadowNode) FormsStackingContext
         then slice_loop (pairList @ [pair]) layoutOffset rest
         else slice_loop
           (sliceChildShadowNodeViewPairsRecursively
              (if check (getTraits childShadowNode) FormsView then pairList @ [pair] else pairList)
              (frame_origin (layoutMetrics view)) childShadowNode)
           layoutOffset rest)"

definition sliceChildShadowNodeViewPairs :: "ShadowNode \<Rightarrow> ShadowViewNodePair list" where
  "sliceChildShadowNodeViewPairs node =
     (if \<not> check (getTraits node) FormsStackingContext \<and> check (getTraits node) FormsView
      then []
      else sliceChildShadowNodeViewPairsRecursively [] Point_zero node)"

section \<open>Tree registry\<close>

text \<open>
  \<^verbatim>\<open>registry_\<close> is a map from surface id to the owned tree; of a tree only its surface id
  is read here. \<^verbatim>\<open>emplace\<close> constructs the entry only if the key is not in the map.
\<close>

record 'a ShadowTree =
  treeSurfaceId :: SurfaceId
  treeContent :: 'a

type_synonym 'a ShadowTreeRegistry = "SurfaceId \<rightharpoonup> 'a ShadowTree"

definition emplace :: "'k \<Rightarrow> 'v \<Rightarrow> ('k \<rightharpoonup> 'v) \<Rightarrow> ('k \<rightharpoonup> 'v)" where
  "emplace k v m = (case m k of None \<Rightarrow> m(k \<mapsto> v) | Some _ \<Rightarrow> m)"

definition add :: "'a ShadowTree \<Rightarrow> 'a ShadowTreeRegistry \<Rightarrow> 'a ShadowTreeRegistry" where
  "add shadowTree registry = emplace (treeSurfaceId shadowTree) shadowTree registry"

definition remove_registry :: "SurfaceId \<Rightarrow> 'a ShadowTreeRegistry \<Rightarrow> 'a ShadowTreeRegistry" where
  "remove_registry surfaceId registry =
     (case registry surfaceId of None \<Rightarrow> registry | Some _ \<Rightarrow> registry(surfaceId := None))"

section \<open>Differentiator\<close>

text \<open>
  The seven local mutation lists of one call of the recursive driver. The map
  \<^verbatim>\<open>insertedPairs\<close> is passed beside them. Its values are pointers into
  \<^verbatim>\<open>newChildPairs\<close>, a list that does not change while the map lives: a pointer is
  modelled by the pair it points to.
\<close>

record Locals =
  createMutations :: "ShadowViewMutation list"
  deleteMutations :: "ShadowViewMutation list"
  insertMutations :: "ShadowViewMutation list"
  removeMutations :: "ShadowViewMutation list"
  updateMutations :: "ShadowViewMutation list"
  downwardMutations :: "ShadowViewMutation list"
  destructiveDownwardMutations :: "ShadowViewMutation list"

definition emptyLocals :: Locals where
  "emptyLocals = \<lparr>createMutations = [], deleteMutations = [], insertMutations = [],
     removeMutations = [], updateMutations = [], downwardMutations = [],
     destructiveDownwardMutations = []\<rparr>"

text \<open>Stage 2, the loop from \<open>index\<close> on: an \<^verbatim>\<open>Insert\<close> for every remaining new child,
  which is recorded in \<^verbatim>\<open>insertedPairs\<close>.\<close>

function stage2 ::
  "ShadowView \<Rightarrow> ShadowViewNodePair list \<Rightarrow> nat \<Rightarrow> ShadowViewNodePair TinyMap \<Rightarrow> Locals
     \<Rightarrow> (ShadowViewNodePair TinyMap \<times> Locals) option" where
  "stage2 parentShadowView newChildPairs index insertedPairs locals =
     (if index < length newChildPairs then
        let newChildPair = newChildPairs ! index;
            locals' = locals\<lparr>insertMutations := insertMutations locals @
              [InsertMutation parentShadowView (shadowView newChildPair) (int index)]\<rparr>
        in case insert_TinyMap (tag (shadowView newChildPair), newChildPair) insertedPairs of
             None \<Rightarrow> None
           | Some insertedPairs' \<Rightarrow>
               stage2 parentShadowView newChildPairs (index + 1) insertedPairs' locals'
      else Some (insertedPairs, locals))"
  by pat_completeness auto
termination
  by (relation "measure (\<lambda>(p, news, i, ip, s). length news - i)") auto

declare stage2.simps [simp del]

text \<open>The seven \<^verbatim>\<open>std::move\<close>s onto the caller's list; the remove list is moved
  from \<^verbatim>\<open>rbegin()\<close> to \<^verbatim>\<open>rend()\<close>.\<close>

definition flush :: "ShadowViewMutation list \<Rightarrow> Locals \<Rightarrow> ShadowViewMutation list" where
  "flush mutations locals =
     mutations @ destructiveDownwardMutations locals @ updateMutations locals @
     rev (removeMutations locals) @ deleteMutations locals @ createMutations locals @
     downwardMutations locals @ insertMutations locals"

subsection \<open>A measure for the recursion\<close>

text \<open>
  A pair that forms a view and no stacking context has no sliced children and weighs 1;
  any other pair weighs the size of its node. The sliced children of a node weigh less
  than the node.
\<close>

definition node_weight :: "ShadowNode \<Rightarrow> nat" where
  "node_weight n =
     (if \<not> check (getTraits n) FormsStackingContext \<and> check (getTraits n) FormsView
      then 1 else size n)"

definition pairs_weight :: "ShadowViewNodePair list \<Rightarrow> nat" where
  "pairs_weight ps = sum_list (map (\<lambda>p. node_weight (shadowNode p)) ps)"

lemma node_weight_pos: "0 < node_weight n"
  by (cases n) (simp add: node_weight_def)

lemma pairs_weight_simps [simp]:
  "pairs_weight [] = 0"
  "pairs_weight (p # ps) = node_weight (shadowNode p) + pairs_weight ps"
  "pairs_weight (ps @ qs) = pairs_weight ps + pairs_weight qs"
  by (simp_all add: pairs_weight_def)

lemma pairs_weight_mset: "mset ps = mset qs \<Longrightarrow> pairs_weight ps = pairs_weight qs"
  unfolding pairs_weight_def
  by (metis mset_map sum_mset_sum_list)

lemma mset_stable_insert: "mset (stable_insert precedes a xs) = add_mset a (mset xs)"
  by (induction xs) auto

lemma mset_stable_sort: "mset (stable_sort precedes xs) = mset xs"
  by (induction xs) (auto simp: mset_stable_insert)

lemma mset_reorderInPlaceIfNeeded: "mset (reorderInPlaceIfNeeded ps) = mset ps"
  by (simp add: reorderInPlaceIfNeeded_def mset_stable_sort)

lemma pairs_weight_reorder: "pairs_weight (reorderInPlaceIfNeeded ps) = pairs_weight ps"
  by (rule pairs_weight_mset) (rule mset_reorderInPlaceIfNeeded)

lemma pairs_weight_slice_loop:
  "pairs_weight (sliceChildShadowNodeViewPairsRecursively acc off n)
     \<le> pairs_weight acc + size_list size (getChildren n)"
  "pairs_weight (slice_loop acc off cs) \<le> pairs_weight acc + size_list size cs"
proof (induction acc off n and acc off cs
    rule: sliceChildShadowNodeViewPairsRecursively_slice_loop.induct)
  case (1 pairList layoutOffset v s i t children)
  then show ?case by simp
next
  case (2 pairList layoutOffset)
  then show ?case by simp
next
  case (3 pairList layoutOffset childShadowNode rest)
  obtain v s i t cs where c: "childShadowNode = ShadowNode v s i t cs"
    by (cases childShadowNode)
  show ?case
  proof (cases "check (getTraits childShadowNode) FormsStackingContext")
    case True
    with 3(1)[OF refl refl True] show ?thesis
      by (simp add: Let_def node_weight_def c)
  next
    case False
    from 3(2)[OF refl refl False] 3(3)[OF refl refl False] False show ?thesis
      by (simp add: Let_def node_weight_def c split: if_splits)
  qed
qed

lemma pairs_weight_slice:
  "pairs_weight (sliceChildShadowNodeViewPairs n) < node_weight n"
proof (cases "\<not> check (getTraits n) FormsStackingContext \<and> check (getTraits n) FormsView")
  case True
  then show ?thesis
    by (simp add: sliceChildShadowNodeViewPairs_def node_weight_def)
next
  case False
  have "pairs_weight (sliceChildShadowNodeViewPairsRecursively [] Point_zero n)
          \<le> size_list size (getChildren n)"
    using pairs_weight_slice_loop(1)[of "[]" Point_zero n] by simp
  moreover have "size_list size (getChildren n) < size n"
    by (cases n) simp
  ultimately show ?thesis
    using False by (simp add: sliceChildShadowNodeViewPairs_def node_weight_def)
qed

lemma pairs_weight_drop:
  "i < length ps \<Longrightarrow>
     pairs_weight (drop i ps) = node_weight (shadowNode (ps ! i)) + pairs_weight (drop (Suc i) ps)"
  by (simp add: Cons_nth_drop_Suc [symmetric])

lemma pairs_weight_drop_le: "pairs_weight (drop i ps) \<le> pairs_weight ps"
  by (metis append_take_drop_id le_add2 pairs_weight_simps(3))

lemma pairs_weight_member: "p \<in> set ps \<Longrightarrow> node_weight (shadowNode p) \<le> pairs_weight ps"
  by (induction ps) auto

lemma stage2_values:
  "stage2 parent news index ip locals = Some (ip', locals') \<Longrightarrow>
     map snd ip' = map snd ip @ drop index news"
proof (induction parent news index ip locals rule: stage2.induct)
  case (1 parent news index ip locals)
  show ?case
  proof (cases "index < length news")
    case True
    with 1 show ?thesis
      by (subst (asm) stage2.simps)
        (auto simp: Let_def insert_TinyMap_def Cons_nth_drop_Suc split: if_splits option.splits)
  next
    case False
    with 1(2) show ?thesis by (subst (asm) stage2.simps) simp
  qed
qed

lemma erase_TinyMap_values:
  "erase_TinyMap it ip = Some ip' \<Longrightarrow> map snd ip' = map snd ip"
  by (auto simp: erase_TinyMap_def map_update list_update_same_conv
      split: option.splits if_splits)

lemma deref_TinyMap_member:
  "deref_TinyMap it ip = Some item \<Longrightarrow> snd item \<in> set (map snd ip)"
  by (auto simp: deref_TinyMap_def split: option.splits if_splits)

subsection \<open>The recursive driver\<close>

text \<open>
  \<^verbatim>\<open>calculateShadowViewMutations(mutations, parentShadowView, oldChildPairs, newChildPairs)\<close>
  returns the caller's list with the mutations appended; \<open>stage1\<close>, \<open>stage3\<close> and \<open>stage4\<close>
  are its loops from \<open>index\<close> on. A recursive call appends to the local list it is given,
  \<^verbatim>\<open>downwardMutations\<close> or \<^verbatim>\<open>destructiveDownwardMutations\<close>. \<open>None\<close> is a failed assertion.
\<close>

function calculateShadowViewMutations ::
  "ShadowViewMutation list \<Rightarrow> ShadowView \<Rightarrow> ShadowViewNodePair list \<Rightarrow> ShadowViewNodePair list
     \<Rightarrow> ShadowViewMutation list option"
and stage1 ::
  "ShadowView \<Rightarrow> ShadowViewNodePair list \<Rightarrow> ShadowViewNodePair list \<Rightarrow> nat \<Rightarrow> Locals
     \<Rightarrow> (nat \<times> Locals) option"
and stage3 ::
  "ShadowView \<Rightarrow> ShadowViewNodePair list \<Rightarrow> nat \<Rightarrow> ShadowViewNodePair TinyMap \<Rightarrow> Locals
     \<Rightarrow> (ShadowViewNodePair TinyMap \<times> Locals) option"
and stage4 ::
  "ShadowView \<Rightarrow> ShadowViewNodePair list \<Rightarrow> nat \<Rightarrow> ShadowViewNodePair TinyMap \<Rightarrow> Locals
     \<Rightarrow> Locals option"
where
  "calculateShadowViewMutations mutations parentShadowView oldChildPairs0 newChildPairs0 =
     (if length oldChildPairs0 = 0 \<and> length newChildPairs0 = 0 then Some mutations
      else
        let oldChildPairs = reorderInPlaceIfNeeded oldChildPairs0;
            newChildPairs = reorderInPlaceIfNeeded newChildPairs0
        in do {
          (lastIndexAfterFirstStage, locals1) \<leftarrow>
            stage1 parentShadowView oldChildPairs newChildPairs 0 emptyLocals;
          (insertedPairs2, locals2) \<leftarrow>
            stage2 parentShadowView newChildPairs lastIndexAfterFirstStage [] locals1;
          (insertedPairs3, locals3) \<leftarrow>
            stage3 parentShadowView oldChildPairs lastIndexAfterFirstStage insertedPairs2 locals2;
          locals4 \<leftarrow>
            stage4 parentShadowView newChildPairs lastIndexAfterFirstStage insertedPairs3 locals3;
          Some (flush mutations locals4)
        })"
| "stage1 parentShadowView oldChildPairs newChildPairs index locals =
     (if index < length oldChildPairs \<and> index < length newChildPairs then
        let oldChildPair = oldChildPairs ! index;
            newChildPair = newChildPairs ! index
        in if tag (shadowView oldChildPair) \<noteq> tag (shadowView newChildPair)
           then Some (index, locals)
           else
             let locals' =
                   (if shadowView oldChildPair \<noteq> shadowView newChildPair
                    then locals\<lparr>updateMutations := updateMutations locals @
                      [UpdateMutation parentShadowView (shadowView oldChildPair)
                         (shadowView newChildPair) (int index)]\<rparr>
                    else locals);
                 oldGrandChildPairs = sliceChildShadowNodeViewPairs (shadowNode oldChildPair);
                 newGrandChildPairs = sliceChildShadowNodeViewPairs (shadowNode newChildPair)
             in if length newGrandChildPairs \<noteq> 0
                then do {
                  downward \<leftarrow> calculateShadowViewMutations (downwardMutations locals')
                    (shadowView oldChildPair) oldGrandChildPairs newGrandChildPairs;
                  stage1 parentShadowView oldChildPairs newChildPairs (index + 1)
                    (locals'\<lparr>downwardMutations := downward\<rparr>)
                }
                else do {
                  destructive \<leftarrow> calculateShadowViewMutations (destructiveDownwardMutations locals')
                    (shadowView oldChildPair) oldGrandChildPairs newGrandChildPairs;
                  stage1 parentShadowView oldChildPairs newChildPairs (index + 1)
                    (locals'\<lparr>destructiveDownwardMutations := destructive\<rparr>)
                }
      else Some (index, locals))"
| "stage3 parentShadowView oldChildPairs index insertedPairs locals =
     (if index < length oldChildPairs then
        let oldChildPair = oldChildPairs ! index;
            locals' = locals\<lparr>removeMutations := removeMutations locals @
              [RemoveMutation parentShadowView (shadowView oldChildPair) (int index)]\<rparr>;
            it = find_TinyMap (tag (shadowView oldChildPair)) insertedPairs
        in if it = end_TinyMap
           then do {
             destructive \<leftarrow> calculateShadowViewMutations (destructiveDownwardMutations locals')
               (shadowView oldChildPair)
               (sliceChildShadowNodeViewPairs (shadowNode oldChildPair)) [];
             stage3 parentShadowView oldChildPairs (index + 1) insertedPairs
               (locals'\<lparr>deleteMutations := deleteMutations locals' @
                            [DeleteMutation (shadowView oldChildPair)],
                         destructiveDownwardMutations := destructive\<rparr>)
           }
           else do {
             item \<leftarrow> deref_TinyMap it insertedPairs;
             let newChildPair = snd item;
             locals'' \<leftarrow>
               (if pair_ne newChildPair oldChildPair then
                  let oldGrandChildPairs = sliceChildShadowNodeViewPairs (shadowNode oldChildPair);
                      newGrandChildPairs = sliceChildShadowNodeViewPairs (shadowNode newChildPair)
                  in if length newGrandChildPairs \<noteq> 0
                     then do {
                       downward \<leftarrow> calculateShadowViewMutations (downwardMutations locals')
                         (shadowView newChildPair) oldGrandChildPairs newGrandChildPairs;
                       Some (locals'\<lparr>downwardMutations := downward\<rparr>)
                     }
                     else do {
                       destructive \<leftarrow>
                         calculateShadowViewMutations (destructiveDownwardMutations locals')
                           (shadowView newChildPair) oldGrandChildPairs newGrandChildPairs;
                       Some (locals'\<lparr>destructiveDownwardMutations := destructive\<rparr>)
                     }
                else Some locals');
             insertedPairs' \<leftarrow> erase_TinyMap it insertedPairs;
             stage3 parentShadowView oldChildPairs (index + 1) insertedPairs' locals''
           }
      else Some (insertedPairs, locals))"
| "stage4 parentShadowView newChildPairs index insertedPairs locals =
     (if index < length newChildPairs then
        let newChildPair = newChildPairs ! index
        in if find_TinyMap (tag (shadowView newChildPair)) insertedPairs = end_TinyMap
           then stage4 parentShadowView newChildPairs (index + 1) insertedPairs locals
           else do {
             downward \<leftarrow> calculateShadowViewMutations (downwardMutations locals)
               (shadowView newChildPair) []
               (sliceChildShadowNodeViewPairs (shadowNode newChildPair));
             stage4 parentShadowView newChildPairs (index + 1) insertedPairs
               (locals\<lparr>createMutations := createMutations locals @
                           [CreateMutation (shadowView newChildPair)],
                        downwardMutations := downward\<rparr>)
           }
      else Some locals)"
  by pat_completeness auto

termination
  apply (relation "inv_image (measure id <*lex*> measure id)
    (\<lambda>x. case x of
       Inl (Inl (ms, p, olds, news)) \<Rightarrow> (pairs_weight olds + pairs_weight news, 1::nat)
     | Inl (Inr (p, olds, news, i, s)) \<Rightarrow>
         (pairs_weight (drop i olds) + pairs_weight (drop i news), 0)
     | Inr (Inl (p, olds, i, ip, s)) \<Rightarrow>
         (pairs_weight (drop i olds) + pairs_weight (map snd ip), 0)
     | Inr (Inr (p, news, i, ip, s)) \<Rightarrow> (pairs_weight (drop i news), 0))")
  subgoal by (intro wf_inv_image wf_lex_prod wf_measure)
  subgoal by (simp add: pairs_weight_reorder)
  subgoal for ms p olds news x xa a L locals1 aa ip locals2
    using pairs_weight_drop_le[of L "reorderInPlaceIfNeeded olds"]
      pairs_weight_drop_le[of L "reorderInPlaceIfNeeded news"]
    by (auto dest!: stage2_values simp: pairs_weight_reorder)
  subgoal for ms p olds news x xa a L
    using pairs_weight_drop_le[of L "reorderInPlaceIfNeeded news"]
    by (auto simp: pairs_weight_reorder)
  subgoal for p olds news i
    using pairs_weight_slice[of "shadowNode (olds ! i)"] pairs_weight_slice[of "shadowNode (news ! i)"]
    by (simp add: pairs_weight_drop)
  subgoal for p olds news i using node_weight_pos[of "shadowNode (olds ! i)"]
    by (simp add: pairs_weight_drop)
  subgoal for p olds news i
    using pairs_weight_slice[of "shadowNode (olds ! i)"] pairs_weight_slice[of "shadowNode (news ! i)"]
    by (simp add: pairs_weight_drop)
  subgoal for p olds news i using node_weight_pos[of "shadowNode (olds ! i)"]
    by (simp add: pairs_weight_drop)
  subgoal for p olds i
    using pairs_weight_slice[of "shadowNode (olds ! i)"]
    by (simp add: pairs_weight_drop)
  subgoal for p olds i using node_weight_pos[of "shadowNode (olds ! i)"]
    by (simp add: pairs_weight_drop)
  subgoal for p olds i ip s x xa xb item
    using pairs_weight_slice[of "shadowNode (olds ! i)"] pairs_weight_slice[of "shadowNode (snd item)"]
      pairs_weight_member[OF deref_TinyMap_member, of xb ip item]
    by (simp add: pairs_weight_drop)
  subgoal for p olds i ip s x xa xb item
    using pairs_weight_slice[of "shadowNode (olds ! i)"] pairs_weight_slice[of "shadowNode (snd item)"]
      pairs_weight_member[OF deref_TinyMap_member, of xb ip item]
    by (simp add: pairs_weight_drop)
  subgoal for p olds i using node_weight_pos[of "shadowNode (olds ! i)"]
    by (auto dest!: erase_TinyMap_values simp: pairs_weight_drop)
  subgoal for p news i using node_weight_pos[of "shadowNode (news ! i)"]
    by (simp add: pairs_weight_drop)
  subgoal for p news i
    using pairs_weight_slice[of "shadowNode (news ! i)"]
    by (simp add: pairs_weight_drop)
  subgoal for p news i using node_weight_pos[of "shadowNode (news ! i)"]
    by (simp add: pairs_weight_drop)
  done


declare calculateShadowViewMutations.simps [simp del] stage1.simps [simp del]
  stage3.simps [simp del] stage4.simps [simp del]

text \<open>
  The entry \<^verbatim>\<open>calculateShadowViewMutations(oldRootShadowNode, newRootShadowNode)\<close>,
  \<^verbatim>\<open>diffRoots\<close> in the specification.
\<close>

definition diffRoots :: "ShadowNode \<Rightarrow> ShadowNode \<Rightarrow> ShadowViewMutation list option" where
  "diffRoots oldRootShadowNode newRootShadowNode =
     (if \<not> sameFamily oldRootShadowNode newRootShadowNode then None
      else
        let oldRootShadowView = ShadowView_of oldRootShadowNode;
            newRootShadowView = ShadowView_of newRootShadowNode;
            mutations =
              (if oldRootShadowView \<noteq> newRootShadowView
               then [UpdateMutation emptyShadowView oldRootShadowView newRootShadowView (- 1)]
               else [])
        in calculateShadowViewMutations mutations (ShadowView_of oldRootShadowNode)
             (sliceChildShadowNodeViewPairs oldRootShadowNode)
             (sliceChildShadowNodeViewPairs newRootShadowNode))"

section \<open>Example trees\<close>

text \<open>Plain views for the concrete instances below: every node forms a view and a stacking
  context, with order index 0, on surface 1.\<close>

definition exampleView :: "Tag \<Rightarrow> nat \<Rightarrow> Point \<Rightarrow> ShadowView" where
  "exampleView t p origin = \<lparr>tag = t, componentName = ''View'', props = p, eventEmitter = 0,
     layoutMetrics = \<lparr>frame_origin = origin, frame_size = \<lparr>x_coord = 100, y_coord = 100\<rparr>\<rparr>,
     state = 0\<rparr>"

definition stackingView :: "Tag \<Rightarrow> nat \<Rightarrow> ShadowNode list \<Rightarrow> ShadowNode" where
  "stackingView t p children =
     ShadowNode (exampleView t p Point_zero) 1 0 {FormsView, FormsStackingContext} children"

text \<open>A node with chosen traits, order index and frame origin.\<close>

definition exampleNode ::
  "Tag \<Rightarrow> Point \<Rightarrow> Trait set \<Rightarrow> int \<Rightarrow> ShadowNode list \<Rightarrow> ShadowNode" where
  "exampleNode t origin traits orderIndex children =
     ShadowNode (exampleView t 0 origin) 1 orderIndex traits children"

text \<open>The pair of a child that sits at offset \<open>(0, 0)\<close>, and two sibling lists that swap
  two childless views under a parent with tag 1.\<close>

definition pairOf :: "ShadowNode \<Rightarrow> ShadowViewNodePair" where
  "pairOf n = \<lparr>shadowView = ShadowView_of n, shadowNode = n\<rparr>"

definition swapOld :: "ShadowViewNodePair list" where
  "swapOld = [pairOf (stackingView 2 0 []), pairOf (stackingView 3 0 [])]"

definition swapNew :: "ShadowViewNodePair list" where
  "swapNew = [pairOf (stackingView 3 0 []), pairOf (stackingView 2 0 [])]"

section \<open>The slicer as the specification words it\<close>

text \<open>
  The walk as the specification words it: for each child \<open>C\<close>, the view with the running
  offset added; a pair and no recursion if \<open>C\<close> forms a stacking context; otherwise a pair
  if \<open>C\<close> forms a view, and the recursion into the children of \<open>C\<close> with the offset
  increased by the frame origin of \<open>C\<close>.
\<close>

fun effective_children :: "Point \<Rightarrow> ShadowNode \<Rightarrow> ShadowViewNodePair list"
and effective_list :: "Point \<Rightarrow> ShadowNode list \<Rightarrow> ShadowViewNodePair list" where
  "effective_children offset (ShadowNode v s i t children) = effective_list offset children"
| "effective_list offset [] = []"
| "effective_list offset (C # rest) =
     (let view = offsetView offset (ShadowView_of C);
          emitted = [\<lparr>shadowView = view, shadowNode = C\<rparr>]
      in (if check (getTraits C) FormsStackingContext then emitted
          else (if check (getTraits C) FormsView then emitted else []) @
               effective_children
                 (Point_plus offset (frame_origin (layoutMetrics (ShadowView_of C)))) C)
         @ effective_list offset rest)"

section \<open>Basic facts\<close>

lemma Point_plus_zero [simp]: "Point_plus p Point_zero = p"
  by (simp add: Point_plus_def Point_zero_def)

lemma offsetView_zero [simp]: "offsetView Point_zero v = v"
  by (simp add: offsetView_def)

lemma Point_plus_commute: "Point_plus a b = Point_plus b a"
  by (simp add: Point_plus_def)

lemma frame_origin_offsetView:
  "frame_origin (layoutMetrics (offsetView off v)) = Point_plus (frame_origin (layoutMetrics v)) off"
  by (simp add: offsetView_def)

lemma slice_loop_effective:
  "sliceChildShadowNodeViewPairsRecursively acc off n = acc @ effective_children off n"
  "slice_loop acc off cs = acc @ effective_list off cs"
proof (induction acc off n and acc off cs
    rule: sliceChildShadowNodeViewPairsRecursively_slice_loop.induct)
  case (1 pairList layoutOffset v s i t children)
  then show ?case by simp
next
  case (2 pairList layoutOffset)
  then show ?case by simp
next
  case (3 pairList layoutOffset childShadowNode rest)
  show ?case
  proof (cases "check (getTraits childShadowNode) FormsStackingContext")
    case True
    with 3(1)[OF refl refl True] show ?thesis by (simp add: Let_def)
  next
    case False
    from 3(2)[OF refl refl False] 3(3)[OF refl refl False] False show ?thesis
      by (simp add: Let_def frame_origin_offsetView Point_plus_commute)
  qed
qed

lemma find_loop_Some:
  "find_loop s key m = Some j \<Longrightarrow> s \<le> j \<and> j - s < length m \<and> fst (m ! (j - s)) = key"
proof (induction m arbitrary: s)
  case Nil
  then show ?case by (simp add: end_TinyMap_def)
next
  case (Cons item rest)
  show ?case
  proof (cases "fst item = key")
    case True
    with Cons.prems show ?thesis by simp
  next
    case False
    with Cons.prems have "find_loop (Suc s) key rest = Some j" by simp
    from Cons.IH[OF this] have "Suc s \<le> j" "j - Suc s < length rest" "fst (rest ! (j - Suc s)) = key"
      by simp_all
    moreover from \<open>Suc s \<le> j\<close> have "j - s = Suc (j - Suc s)" by simp
    ultimately show ?thesis by simp
  qed
qed

lemma find_TinyMap_Some:
  "find_TinyMap key m = Some j \<Longrightarrow> j < length m \<and> fst (m ! j) = key"
  using find_loop_Some[of 0 key m j] by (simp add: find_TinyMap_def)

lemma isReorderNeeded_iff: "isReorderNeeded ps \<longleftrightarrow> (\<exists>p\<in>set ps. pairOrderIndex p \<noteq> 0)"
  by (induction ps) auto

lemma set_stable_insert: "set (stable_insert precedes a xs) = insert a (set xs)"
  by (induction xs) auto

lemma sorted_stable_insert:
  "sorted (map f xs) \<Longrightarrow> sorted (map f (stable_insert (\<lambda>a b. f a < f b) a xs))"
  for f :: "'a \<Rightarrow> int"
  by (induction xs) (auto simp: set_stable_insert)

lemma sorted_stable_sort: "sorted (map f (stable_sort (\<lambda>a b. f a < f b) xs))"
  for f :: "'a \<Rightarrow> int"
  by (induction xs) (auto simp: sorted_stable_insert)

lemma filter_stable_insert:
  "filter (\<lambda>p. f p = k) (stable_insert (\<lambda>a b. f a < f b) a xs)
     = filter (\<lambda>p. f p = k) (a # xs)"
  for f :: "'a \<Rightarrow> int"
  by (induction xs) auto

lemma filter_stable_sort:
  "filter (\<lambda>p. f p = k) (stable_sort (\<lambda>a b. f a < f b) xs) = filter (\<lambda>p. f p = k) xs"
  for f :: "'a \<Rightarrow> int"
  by (induction xs) (auto simp: filter_stable_insert)

lemma stable_sort_sorted:
  "sorted (map f xs) \<Longrightarrow> stable_sort (\<lambda>a b. f a < f b) xs = xs"
  for f :: "'a \<Rightarrow> int"
proof (induction xs)
  case Nil
  then show ?case by simp
next
  case (Cons a xs)
  then have "stable_sort (\<lambda>a b. f a < f b) xs = xs" by simp
  moreover from Cons.prems have "stable_insert (\<lambda>a b. f a < f b) a xs = a # xs"
    by (cases xs) auto
  ultimately show ?case by simp
qed

lemma shouldFirst_eq:
  "shouldFirstPairComesBeforeSecondOne = (\<lambda>a b. pairOrderIndex a < pairOrderIndex b)"
  by (simp add: shouldFirstPairComesBeforeSecondOne_def fun_eq_iff)

lemma sorted_reorderInPlaceIfNeeded:
  "sorted (map pairOrderIndex (reorderInPlaceIfNeeded ps))"
proof (cases "isReorderNeeded ps")
  case True
  have "sorted (map pairOrderIndex (stable_sort shouldFirstPairComesBeforeSecondOne ps))"
    unfolding shouldFirst_eq by (rule sorted_stable_sort)
  moreover have "length ps < 2 \<Longrightarrow> sorted (map pairOrderIndex ps)"
    by (cases ps) (auto simp: less_Suc_eq numeral_2_eq_2)
  ultimately show ?thesis using True by (simp add: reorderInPlaceIfNeeded_def)
next
  case False
  then have "\<forall>p\<in>set ps. pairOrderIndex p = 0" by (simp add: isReorderNeeded_iff)
  then have "sorted (map pairOrderIndex ps)"
    by (induction ps) auto
  with False show ?thesis by (simp add: reorderInPlaceIfNeeded_def)
qed

lemma length_reorderInPlaceIfNeeded [simp]:
  "length (reorderInPlaceIfNeeded ps) = length ps"
  using mset_reorderInPlaceIfNeeded[of ps] by (metis size_mset)

lemma set_reorderInPlaceIfNeeded [simp]:
  "set (reorderInPlaceIfNeeded ps) = set ps"
  using mset_reorderInPlaceIfNeeded[of ps] by (metis set_mset_mset)

lemma reorderInPlaceIfNeeded_Nil_iff [simp]: "reorderInPlaceIfNeeded ps = [] \<longleftrightarrow> ps = []"
  using length_reorderInPlaceIfNeeded[of ps] by (metis length_0_conv)

lemma reorderInPlaceIfNeeded_sorted:
  "sorted (map pairOrderIndex ps) \<Longrightarrow> reorderInPlaceIfNeeded ps = ps"
  unfolding reorderInPlaceIfNeeded_def shouldFirst_eq by (simp add: stable_sort_sorted)

lemma reorderInPlaceIfNeeded_idem [simp]:
  "reorderInPlaceIfNeeded (reorderInPlaceIfNeeded ps) = reorderInPlaceIfNeeded ps"
  by (rule reorderInPlaceIfNeeded_sorted) (rule sorted_reorderInPlaceIfNeeded)

lemma filter_reorderInPlaceIfNeeded:
  "filter (\<lambda>p. pairOrderIndex p = k) (reorderInPlaceIfNeeded ps)
     = filter (\<lambda>p. pairOrderIndex p = k) ps"
  unfolding reorderInPlaceIfNeeded_def shouldFirst_eq by (simp add: filter_stable_sort)

lemma calculateShadowViewMutations_reordered:
  "calculateShadowViewMutations ms parent olds news =
     calculateShadowViewMutations ms parent
       (reorderInPlaceIfNeeded olds) (reorderInPlaceIfNeeded news)"
  by (simp add: calculateShadowViewMutations.simps[of ms parent olds news]
      calculateShadowViewMutations.simps[of ms parent "reorderInPlaceIfNeeded olds"
        "reorderInPlaceIfNeeded news"])

lemma flush_emptyLocals [simp]: "flush ms emptyLocals = ms"
  by (simp add: flush_def emptyLocals_def)

lemma calculateShadowViewMutations_Nil [simp]:
  "calculateShadowViewMutations ms parent [] [] = Some ms"
  by (simp add: calculateShadowViewMutations.simps)

lemma stage1_same:
  assumes IH: "\<And>q ms p. q \<in> set ys \<Longrightarrow>
     calculateShadowViewMutations ms p (sliceChildShadowNodeViewPairs (shadowNode q))
       (sliceChildShadowNodeViewPairs (shadowNode q)) = Some ms"
  shows "i \<le> length ys \<Longrightarrow> stage1 parent ys ys i locals = Some (length ys, locals)"
proof (induction "length ys - i" arbitrary: i)
  case 0
  then show ?case by (simp add: stage1.simps)
next
  case (Suc n)
  then have i: "i < length ys" by simp
  then have m: "ys ! i \<in> set ys" by simp
  from Suc have "stage1 parent ys ys (Suc i) locals = Some (length ys, locals)" by simp
  with i IH[OF m] show ?case
    by (subst stage1.simps) (simp add: Let_def)
qed

lemma calculateShadowViewMutations_same:
  "calculateShadowViewMutations ms parent xs xs = Some ms"
proof (induction "pairs_weight xs" arbitrary: xs ms parent rule: less_induct)
  case less
  show ?case
  proof (cases "xs = []")
    case True
    then show ?thesis by (simp add: calculateShadowViewMutations.simps)
  next
    case False
    define ys where "ys = reorderInPlaceIfNeeded xs"
    have ih: "\<And>q ms p. q \<in> set ys \<Longrightarrow>
       calculateShadowViewMutations ms p (sliceChildShadowNodeViewPairs (shadowNode q))
         (sliceChildShadowNodeViewPairs (shadowNode q)) = Some ms"
    proof -
      fix q ms p assume "q \<in> set ys"
      then have "q \<in> set xs" by (simp add: ys_def)
      then have "node_weight (shadowNode q) \<le> pairs_weight xs" by (rule pairs_weight_member)
      with pairs_weight_slice[of "shadowNode q"]
      have "pairs_weight (sliceChildShadowNodeViewPairs (shadowNode q)) < pairs_weight xs"
        by simp
      then show "calculateShadowViewMutations ms p (sliceChildShadowNodeViewPairs (shadowNode q))
         (sliceChildShadowNodeViewPairs (shadowNode q)) = Some ms"
        by (rule less)
    qed
    have "stage1 parent ys ys 0 emptyLocals = Some (length ys, emptyLocals)"
      using stage1_same[of ys 0 parent emptyLocals] ih by simp
    then show ?thesis using False
      by (simp add: calculateShadowViewMutations.simps[of ms parent xs xs] ys_def [symmetric]
          stage2.simps stage3.simps stage4.simps)
  qed
qed

section \<open>The mutation list in closed form\<close>

text \<open>
  The recursive driver threads seven lists through four loops. For the proofs its result
  is described once and for all by a function \<open>D\<close> without accumulators: the block of
  mutations that one call appends, as the concatenation of ten segments, each a map over
  an index range. \<open>calculateShadowViewMutations_sound\<close> below proves that the driver
  returns the caller's list followed by this block whenever no assertion fails.
\<close>

abbreviation kids :: "ShadowViewNodePair \<Rightarrow> ShadowViewNodePair list" where
  "kids q \<equiv> sliceChildShadowNodeViewPairs (shadowNode q)"

abbreviation vtag :: "ShadowViewNodePair \<Rightarrow> Tag" where
  "vtag q \<equiv> tag (shadowView q)"

text \<open>Where stage 1 stops when it starts at index \<open>i\<close>.\<close>

function stage1_stop :: "ShadowViewNodePair list \<Rightarrow> ShadowViewNodePair list \<Rightarrow> nat \<Rightarrow> nat" where
  "stage1_stop olds news i =
     (if i < length olds \<and> i < length news \<and> vtag (olds ! i) = vtag (news ! i)
      then stage1_stop olds news (Suc i) else i)"
  by pat_completeness auto
termination
  by (relation "measure (\<lambda>(olds, news, i). length olds - i)") auto

declare stage1_stop.simps [simp del]

text \<open>What one step of stage 3 does to \<^verbatim>\<open>insertedPairs\<close>, the map when stage 3 has made \<open>k\<close>
  steps from index \<open>i\<close>, and the new pair that stage 3 finds for the old child at index
  \<open>j\<close>, if any.\<close>

definition tm_step ::
  "ShadowViewNodePair \<Rightarrow> ShadowViewNodePair TinyMap \<Rightarrow> ShadowViewNodePair TinyMap" where
  "tm_step oldChildPair ip =
     (case find_TinyMap (vtag oldChildPair) ip of
        None \<Rightarrow> ip
      | Some k \<Rightarrow> ip[k := (0, snd (ip ! k))])"

fun insertedPairs_at ::
  "ShadowViewNodePair list \<Rightarrow> nat \<Rightarrow> nat \<Rightarrow> ShadowViewNodePair TinyMap
     \<Rightarrow> ShadowViewNodePair TinyMap" where
  "insertedPairs_at olds i 0 ip = ip"
| "insertedPairs_at olds i (Suc k) ip = tm_step (olds ! (i + k)) (insertedPairs_at olds i k ip)"

definition partner ::
  "ShadowViewNodePair list \<Rightarrow> nat \<Rightarrow> ShadowViewNodePair TinyMap \<Rightarrow> nat
     \<Rightarrow> ShadowViewNodePair option" where
  "partner olds i ip j =
     (let ipj = insertedPairs_at olds i (j - i) ip
      in map_option (\<lambda>k. snd (ipj ! k)) (find_TinyMap (vtag (olds ! j)) ipj))"

text \<open>\<^verbatim>\<open>insertedPairs\<close> after stage 2, and the lists of the loops from index \<open>i\<close> on.\<close>

definition inserted_map :: "ShadowViewNodePair list \<Rightarrow> nat \<Rightarrow> ShadowViewNodePair TinyMap" where
  "inserted_map news i = map (\<lambda>q. (vtag q, q)) (drop i news)"

definition updates_from ::
  "ShadowView \<Rightarrow> ShadowViewNodePair list \<Rightarrow> ShadowViewNodePair list \<Rightarrow> nat \<Rightarrow> nat
     \<Rightarrow> ShadowViewMutation list" where
  "updates_from parent olds news i L =
     concat (map (\<lambda>j. if shadowView (olds ! j) \<noteq> shadowView (news ! j)
                        then [UpdateMutation parent (shadowView (olds ! j))
                                (shadowView (news ! j)) (int j)]
                        else []) [i..<L])"

definition removes_from ::
  "ShadowView \<Rightarrow> ShadowViewNodePair list \<Rightarrow> nat \<Rightarrow> ShadowViewMutation list" where
  "removes_from parent olds i =
     map (\<lambda>j. RemoveMutation parent (shadowView (olds ! j)) (int j)) [i..<length olds]"

definition inserts_from ::
  "ShadowView \<Rightarrow> ShadowViewNodePair list \<Rightarrow> nat \<Rightarrow> ShadowViewMutation list" where
  "inserts_from parent news i =
     map (\<lambda>j. InsertMutation parent (shadowView (news ! j)) (int j)) [i..<length news]"

definition deletes_from ::
  "ShadowViewNodePair list \<Rightarrow> nat \<Rightarrow> ShadowViewNodePair TinyMap \<Rightarrow> ShadowViewMutation list" where
  "deletes_from olds i ip =
     concat (map (\<lambda>j. case partner olds i ip j of
                         None \<Rightarrow> [DeleteMutation (shadowView (olds ! j))]
                       | Some _ \<Rightarrow> []) [i..<length olds])"

definition creates_from ::
  "ShadowViewNodePair list \<Rightarrow> nat \<Rightarrow> ShadowViewNodePair TinyMap \<Rightarrow> ShadowViewMutation list" where
  "creates_from news i ip =
     concat (map (\<lambda>j. if find_TinyMap (vtag (news ! j)) ip = None then []
                       else [CreateMutation (shadowView (news ! j))]) [i..<length news])"

lemma stage1_stop_le:
  "i \<le> length olds \<Longrightarrow> i \<le> length news \<Longrightarrow>
     stage1_stop olds news i \<le> length olds \<and> stage1_stop olds news i \<le> length news"
  by (induction olds news i rule: stage1_stop.induct)
    (subst stage1_stop.simps, subst (2) stage1_stop.simps, auto)

lemma stage1_stop_ge: "i \<le> stage1_stop olds news i"
  by (induction olds news i rule: stage1_stop.induct)
    (subst stage1_stop.simps, auto)

lemma tm_step_values [simp]: "map snd (tm_step q ip) = map snd ip"
  by (auto simp: tm_step_def map_update list_update_same_conv dest: find_TinyMap_Some
      split: option.splits)

lemma insertedPairs_at_values [simp]: "map snd (insertedPairs_at olds i k ip) = map snd ip"
  by (induction k) auto

lemma partner_member: "partner olds i ip j = Some n \<Longrightarrow> n \<in> snd ` set ip"
proof -
  assume "partner olds i ip j = Some n"
  then obtain k where "find_TinyMap (vtag (olds ! j)) (insertedPairs_at olds i (j - i) ip) = Some k"
    and n: "n = snd (insertedPairs_at olds i (j - i) ip ! k)"
    by (auto simp: partner_def Let_def)
  from find_TinyMap_Some[OF this(1)] have "k < length (insertedPairs_at olds i (j - i) ip)" by simp
  then have "n \<in> set (map snd (insertedPairs_at olds i (j - i) ip))"
    unfolding n by (metis length_map nth_map nth_mem)
  then show ?thesis by simp
qed

lemma partner_inserted_map:
  "partner olds i (inserted_map news L) j = Some n \<Longrightarrow> n \<in> set (drop L news)"
  by (drule partner_member) (auto simp: inserted_map_def)

lemma kids_weight_lt:
  "q \<in> set ps \<Longrightarrow> pairs_weight (kids q) < pairs_weight ps"
  using pairs_weight_slice[of "shadowNode q"] pairs_weight_member[of q ps] by simp

lemma kids_weight_lt2:
  "q \<in> set ps \<Longrightarrow> r \<in> set rs \<Longrightarrow>
     pairs_weight (kids q) + pairs_weight (kids r) < pairs_weight ps + pairs_weight rs"
  using kids_weight_lt[of q ps] kids_weight_lt[of r rs] by simp

function D ::
  "ShadowView \<Rightarrow> ShadowViewNodePair list \<Rightarrow> ShadowViewNodePair list \<Rightarrow> ShadowViewMutation list" where
  "D parent olds0 news0 =
     (if olds0 = [] \<and> news0 = [] then []
      else
        let olds = reorderInPlaceIfNeeded olds0;
            news = reorderInPlaceIfNeeded news0;
            L = stage1_stop olds news 0;
            ip2 = inserted_map news L;
            ip3 = insertedPairs_at olds L (length olds - L) ip2
        in
          concat (map (\<lambda>j. if kids (news ! j) = []
                            then D (shadowView (olds ! j)) (kids (olds ! j)) (kids (news ! j))
                            else []) [0..<L]) @
          concat (map (\<lambda>j. case partner olds L ip2 j of
                              None \<Rightarrow> D (shadowView (olds ! j)) (kids (olds ! j)) []
                            | Some n \<Rightarrow>
                                if pair_ne n (olds ! j) \<and> kids n = []
                                then D (shadowView n) (kids (olds ! j)) (kids n) else [])
                    [L..<length olds]) @
          updates_from parent olds news 0 L @
          rev (removes_from parent olds L) @
          deletes_from olds L ip2 @
          creates_from news L ip3 @
          concat (map (\<lambda>j. if kids (news ! j) \<noteq> []
                            then D (shadowView (olds ! j)) (kids (olds ! j)) (kids (news ! j))
                            else []) [0..<L]) @
          concat (map (\<lambda>j. case partner olds L ip2 j of
                              None \<Rightarrow> []
                            | Some n \<Rightarrow>
                                if pair_ne n (olds ! j) \<and> kids n \<noteq> []
                                then D (shadowView n) (kids (olds ! j)) (kids n) else [])
                    [L..<length olds]) @
          concat (map (\<lambda>j. if find_TinyMap (vtag (news ! j)) ip3 = None then []
                            else D (shadowView (news ! j)) [] (kids (news ! j)))
                    [L..<length news]) @
          inserts_from parent news L)"
  by pat_completeness auto
termination
proof (relation "measure (\<lambda>(p, olds, news). pairs_weight olds + pairs_weight news)",
    goal_cases)
  case 1
  then show ?case by simp
next
  case (2 parent olds0 news0 olds news L ip2 ip3 j)
  then have "j < length olds" "j < length news"
    using stage1_stop_le[of 0 olds news] by auto
  then have "olds ! j \<in> set olds0" "news ! j \<in> set news0" using 2 by (metis nth_mem set_reorderInPlaceIfNeeded)+
  then show ?case using kids_weight_lt2 by simp
next
  case (3 parent olds0 news0 olds news L ip2 ip3 j)
  then have "olds ! j \<in> set olds0" by (metis atLeastLessThan_iff nth_mem set_reorderInPlaceIfNeeded set_upt)
  then show ?case using kids_weight_lt[of "olds ! j" olds0] by simp
next
  case (4 parent olds0 news0 olds news L ip2 ip3 j n)
  then have "olds ! j \<in> set olds0" by (metis atLeastLessThan_iff nth_mem set_reorderInPlaceIfNeeded set_upt)
  moreover from 4 have "n \<in> set news0"
    using partner_inserted_map[of olds L news L j n] by (auto dest: in_set_dropD)
  ultimately show ?case using kids_weight_lt2 by simp
next
  case (5 parent olds0 news0 olds news L ip2 ip3 j)
  then have "j < length olds" "j < length news"
    using stage1_stop_le[of 0 olds news] by auto
  then have "olds ! j \<in> set olds0" "news ! j \<in> set news0" using 5 by (metis nth_mem set_reorderInPlaceIfNeeded)+
  then show ?case using kids_weight_lt2 by simp
next
  case (6 parent olds0 news0 olds news L ip2 ip3 j n)
  then have "olds ! j \<in> set olds0" by (metis atLeastLessThan_iff nth_mem set_reorderInPlaceIfNeeded set_upt)
  moreover from 6 have "n \<in> set news0"
    using partner_inserted_map[of olds L news L j n] by (auto dest: in_set_dropD)
  ultimately show ?case using kids_weight_lt2 by simp
next
  case (7 parent olds0 news0 olds news L ip2 ip3 j)
  then have "news ! j \<in> set news0" by (metis atLeastLessThan_iff nth_mem set_reorderInPlaceIfNeeded set_upt)
  then show ?case using kids_weight_lt[of "news ! j" news0] by simp
qed

declare D.simps [simp del]

definition dd1_from ::
  "ShadowViewNodePair list \<Rightarrow> ShadowViewNodePair list \<Rightarrow> nat \<Rightarrow> nat \<Rightarrow> ShadowViewMutation list" where
  "dd1_from olds news i L =
     concat (map (\<lambda>j. if kids (news ! j) = []
                       then D (shadowView (olds ! j)) (kids (olds ! j)) (kids (news ! j))
                       else []) [i..<L])"

definition dw1_from ::
  "ShadowViewNodePair list \<Rightarrow> ShadowViewNodePair list \<Rightarrow> nat \<Rightarrow> nat \<Rightarrow> ShadowViewMutation list" where
  "dw1_from olds news i L =
     concat (map (\<lambda>j. if kids (news ! j) \<noteq> []
                       then D (shadowView (olds ! j)) (kids (olds ! j)) (kids (news ! j))
                       else []) [i..<L])"

definition dd3_from ::
  "ShadowViewNodePair list \<Rightarrow> nat \<Rightarrow> ShadowViewNodePair TinyMap \<Rightarrow> ShadowViewMutation list" where
  "dd3_from olds i ip =
     concat (map (\<lambda>j. case partner olds i ip j of
                         None \<Rightarrow> D (shadowView (olds ! j)) (kids (olds ! j)) []
                       | Some n \<Rightarrow>
                           if pair_ne n (olds ! j) \<and> kids n = []
                           then D (shadowView n) (kids (olds ! j)) (kids n) else [])
               [i..<length olds])"

definition dw3_from ::
  "ShadowViewNodePair list \<Rightarrow> nat \<Rightarrow> ShadowViewNodePair TinyMap \<Rightarrow> ShadowViewMutation list" where
  "dw3_from olds i ip =
     concat (map (\<lambda>j. case partner olds i ip j of
                         None \<Rightarrow> []
                       | Some n \<Rightarrow>
                           if pair_ne n (olds ! j) \<and> kids n \<noteq> []
                           then D (shadowView n) (kids (olds ! j)) (kids n) else [])
               [i..<length olds])"

definition dw4_from ::
  "ShadowViewNodePair list \<Rightarrow> nat \<Rightarrow> ShadowViewNodePair TinyMap \<Rightarrow> ShadowViewMutation list" where
  "dw4_from news i ip =
     concat (map (\<lambda>j. if find_TinyMap (vtag (news ! j)) ip = None then []
                       else D (shadowView (news ! j)) [] (kids (news ! j)))
               [i..<length news])"

lemma D_unfold:
  "D parent olds0 news0 =
     (if olds0 = [] \<and> news0 = [] then []
      else
        let olds = reorderInPlaceIfNeeded olds0;
            news = reorderInPlaceIfNeeded news0;
            L = stage1_stop olds news 0;
            ip2 = inserted_map news L;
            ip3 = insertedPairs_at olds L (length olds - L) ip2
        in dd1_from olds news 0 L @ dd3_from olds L ip2 @
           updates_from parent olds news 0 L @
           rev (removes_from parent olds L) @
           deletes_from olds L ip2 @
           creates_from news L ip3 @
           dw1_from olds news 0 L @ dw3_from olds L ip2 @ dw4_from news L ip3 @
           inserts_from parent news L)"
  by (subst D.simps) (simp add: dd1_from_def dd3_from_def dw1_from_def dw3_from_def dw4_from_def)

lemma D_Nil [simp]: "D parent [] [] = []"
  by (simp add: D_unfold)

lemma D_nonempty:
  "\<not> (olds0 = [] \<and> news0 = []) \<Longrightarrow>
   D parent olds0 news0 =
     (let olds = reorderInPlaceIfNeeded olds0;
          news = reorderInPlaceIfNeeded news0;
          L = stage1_stop olds news 0;
          ip2 = inserted_map news L;
          ip3 = insertedPairs_at olds L (length olds - L) ip2
      in dd1_from olds news 0 L @ dd3_from olds L ip2 @
         updates_from parent olds news 0 L @
         rev (removes_from parent olds L) @
         deletes_from olds L ip2 @
         creates_from news L ip3 @
         dw1_from olds news 0 L @ dw3_from olds L ip2 @ dw4_from news L ip3 @
         inserts_from parent news L)"
  by (subst D_unfold) auto

text \<open>One step of each loop.\<close>

lemma insertedPairs_at_shift:
  "insertedPairs_at olds i (Suc k) ip = insertedPairs_at olds (Suc i) k (tm_step (olds ! i) ip)"
  by (induction k) simp_all

lemma partner_first:
  "partner olds i ip i = map_option (\<lambda>k. snd (ip ! k)) (find_TinyMap (vtag (olds ! i)) ip)"
  by (simp add: partner_def)

lemma partner_shift:
  "i < j \<Longrightarrow> partner olds i ip j = partner olds (Suc i) (tm_step (olds ! i) ip) j"
proof -
  assume "i < j"
  then have "j - i = Suc (j - Suc i)" by simp
  then show ?thesis
    by (simp add: partner_def Let_def insertedPairs_at_shift del: insertedPairs_at.simps)
qed

lemma partner_shift_upt:
  "j \<in> set [Suc i..<n] \<Longrightarrow> partner olds i ip j = partner olds (Suc i) (tm_step (olds ! i) ip) j"
  by (rule partner_shift) simp

lemma updates_from_step:
  "i < L \<Longrightarrow> updates_from parent olds news i L =
     (if shadowView (olds ! i) \<noteq> shadowView (news ! i)
      then [UpdateMutation parent (shadowView (olds ! i)) (shadowView (news ! i)) (int i)]
      else []) @ updates_from parent olds news (Suc i) L"
  by (simp add: updates_from_def upt_conv_Cons)

lemma dd1_from_step:
  "i < L \<Longrightarrow> dd1_from olds news i L =
     (if kids (news ! i) = []
      then D (shadowView (olds ! i)) (kids (olds ! i)) (kids (news ! i)) else []) @
     dd1_from olds news (Suc i) L"
  by (simp add: dd1_from_def upt_conv_Cons)

lemma dw1_from_step:
  "i < L \<Longrightarrow> dw1_from olds news i L =
     (if kids (news ! i) \<noteq> []
      then D (shadowView (olds ! i)) (kids (olds ! i)) (kids (news ! i)) else []) @
     dw1_from olds news (Suc i) L"
  by (simp add: dw1_from_def upt_conv_Cons)

lemma removes_from_step:
  "i < length olds \<Longrightarrow> removes_from parent olds i =
     RemoveMutation parent (shadowView (olds ! i)) (int i) # removes_from parent olds (Suc i)"
  by (simp add: removes_from_def upt_conv_Cons)

lemma inserts_from_step:
  "i < length news \<Longrightarrow> inserts_from parent news i =
     InsertMutation parent (shadowView (news ! i)) (int i) # inserts_from parent news (Suc i)"
  by (simp add: inserts_from_def upt_conv_Cons)

lemma deletes_from_step:
  "i < length olds \<Longrightarrow> deletes_from olds i ip =
     (case partner olds i ip i of None \<Rightarrow> [DeleteMutation (shadowView (olds ! i))] | Some _ \<Rightarrow> []) @
     deletes_from olds (Suc i) (tm_step (olds ! i) ip)"
  unfolding deletes_from_def
  by (simp add: upt_conv_Cons, intro arg_cong[of _ _ concat] map_cong[OF refl])
    (simp add: partner_shift)

lemma dd3_from_step:
  "i < length olds \<Longrightarrow> dd3_from olds i ip =
     (case partner olds i ip i of
        None \<Rightarrow> D (shadowView (olds ! i)) (kids (olds ! i)) []
      | Some n \<Rightarrow> if pair_ne n (olds ! i) \<and> kids n = []
                  then D (shadowView n) (kids (olds ! i)) (kids n) else []) @
     dd3_from olds (Suc i) (tm_step (olds ! i) ip)"
  unfolding dd3_from_def
  by (simp add: upt_conv_Cons, intro arg_cong[of _ _ concat] map_cong[OF refl])
    (simp add: partner_shift)

lemma dw3_from_step:
  "i < length olds \<Longrightarrow> dw3_from olds i ip =
     (case partner olds i ip i of
        None \<Rightarrow> []
      | Some n \<Rightarrow> if pair_ne n (olds ! i) \<and> kids n \<noteq> []
                  then D (shadowView n) (kids (olds ! i)) (kids n) else []) @
     dw3_from olds (Suc i) (tm_step (olds ! i) ip)"
  unfolding dw3_from_def
  by (simp add: upt_conv_Cons, intro arg_cong[of _ _ concat] map_cong[OF refl])
    (simp add: partner_shift)

lemma creates_from_step:
  "i < length news \<Longrightarrow> creates_from news i ip =
     (if find_TinyMap (vtag (news ! i)) ip = None then []
      else [CreateMutation (shadowView (news ! i))]) @ creates_from news (Suc i) ip"
  by (simp add: creates_from_def upt_conv_Cons)

lemma dw4_from_step:
  "i < length news \<Longrightarrow> dw4_from news i ip =
     (if find_TinyMap (vtag (news ! i)) ip = None then []
      else D (shadowView (news ! i)) [] (kids (news ! i))) @ dw4_from news (Suc i) ip"
  by (simp add: dw4_from_def upt_conv_Cons)

lemma from_end [simp]:
  "updates_from parent olds news L L = []" "dd1_from olds news L L = []"
  "dw1_from olds news L L = []"
  "length olds \<le> i \<Longrightarrow> removes_from parent olds i = []"
  "length olds \<le> i \<Longrightarrow> deletes_from olds i ip = []"
  "length olds \<le> i \<Longrightarrow> dd3_from olds i ip = []"
  "length olds \<le> i \<Longrightarrow> dw3_from olds i ip = []"
  "length news \<le> i \<Longrightarrow> inserts_from parent news i = []"
  "length news \<le> i \<Longrightarrow> creates_from news i ip = []"
  "length news \<le> i \<Longrightarrow> dw4_from news i ip = []"
  by (simp_all add: updates_from_def dd1_from_def dw1_from_def removes_from_def deletes_from_def
      dd3_from_def dw3_from_def inserts_from_def creates_from_def dw4_from_def)

lemma insertedPairs_at_step:
  "i < length olds \<Longrightarrow>
     insertedPairs_at olds i (length olds - i) ip =
     insertedPairs_at olds (Suc i) (length olds - Suc i) (tm_step (olds ! i) ip)"
  using insertedPairs_at_shift[of olds i "length olds - Suc i" ip]
  by (simp add: Suc_diff_Suc del: insertedPairs_at.simps)


definition sound_below :: "nat \<Rightarrow> bool" where
  "sound_below W \<longleftrightarrow>
     (\<forall>ms p os ns res. pairs_weight os + pairs_weight ns < W \<longrightarrow>
        calculateShadowViewMutations ms p os ns = Some res \<longrightarrow> res = ms @ D p os ns)"

lemma sound_belowD:
  "sound_below W \<Longrightarrow> pairs_weight os + pairs_weight ns < W \<Longrightarrow>
     calculateShadowViewMutations ms p os ns = Some res \<Longrightarrow> res = ms @ D p os ns"
  unfolding sound_below_def by blast

lemma stage1_stop_here:
  "stage1_stop olds news i =
     (if i < length olds \<and> i < length news \<and> vtag (olds ! i) = vtag (news ! i)
      then stage1_stop olds news (Suc i) else i)"
  by (rule stage1_stop.simps)

definition stage1_update ::
  "ShadowView \<Rightarrow> ShadowViewNodePair list \<Rightarrow> ShadowViewNodePair list \<Rightarrow> nat \<Rightarrow> Locals \<Rightarrow> Locals" where
  "stage1_update parent olds news i s =
     (if shadowView (olds ! i) \<noteq> shadowView (news ! i)
      then s\<lparr>updateMutations := updateMutations s @
             [UpdateMutation parent (shadowView (olds ! i)) (shadowView (news ! i)) (int i)]\<rparr>
      else s)"

lemma stage1_done:
  "\<not> (i < length olds \<and> i < length news \<and> vtag (olds ! i) = vtag (news ! i)) \<Longrightarrow>
     stage1 parent olds news i s = Some (i, s)"
  by (subst stage1.simps) (auto simp: Let_def)

lemma stage1_step_downward:
  "i < length olds \<Longrightarrow> i < length news \<Longrightarrow> vtag (olds ! i) = vtag (news ! i) \<Longrightarrow>
   kids (news ! i) \<noteq> [] \<Longrightarrow>
     stage1 parent olds news i s =
       calculateShadowViewMutations (downwardMutations (stage1_update parent olds news i s))
         (shadowView (olds ! i)) (kids (olds ! i)) (kids (news ! i)) \<bind>
       (\<lambda>d. stage1 parent olds news (Suc i)
          ((stage1_update parent olds news i s)\<lparr>downwardMutations := d\<rparr>))"
  by (subst stage1.simps) (simp add: Let_def stage1_update_def)

lemma stage1_step_destructive:
  "i < length olds \<Longrightarrow> i < length news \<Longrightarrow> vtag (olds ! i) = vtag (news ! i) \<Longrightarrow>
   kids (news ! i) = [] \<Longrightarrow>
     stage1 parent olds news i s =
       calculateShadowViewMutations
         (destructiveDownwardMutations (stage1_update parent olds news i s))
         (shadowView (olds ! i)) (kids (olds ! i)) (kids (news ! i)) \<bind>
       (\<lambda>d. stage1 parent olds news (Suc i)
          ((stage1_update parent olds news i s)\<lparr>destructiveDownwardMutations := d\<rparr>))"
  by (subst stage1.simps) (simp add: Let_def stage1_update_def)

lemma stage1_sound:
  assumes W: "sound_below W" and le: "pairs_weight olds + pairs_weight news \<le> W"
  shows "stage1 parent olds news i s = Some (L, s') \<Longrightarrow>
     L = stage1_stop olds news i \<and>
     s' = s\<lparr>updateMutations := updateMutations s @ updates_from parent olds news i L,
            downwardMutations := downwardMutations s @ dw1_from olds news i L,
            destructiveDownwardMutations :=
              destructiveDownwardMutations s @ dd1_from olds news i L\<rparr>"
proof (induction "length olds - i" arbitrary: i s)
  case 0
  then show ?case
    by (subst stage1_stop_here) (simp add: stage1_done)
next
  case (Suc k)
  then have i: "i < length olds" by simp
  show ?case
  proof (cases "i < length news \<and> vtag (olds ! i) = vtag (news ! i)")
    case False
    with Suc.prems i show ?thesis
      by (subst stage1_stop_here) (auto simp: stage1_done)
  next
    case True
    define s1 where "s1 = stage1_update parent olds news i s"
    have wt: "pairs_weight (kids (olds ! i)) + pairs_weight (kids (news ! i)) < W"
      using kids_weight_lt2[of "olds ! i" olds "news ! i" news] i True le by simp
    have stop: "stage1_stop olds news i = stage1_stop olds news (Suc i)"
      using i True by (subst stage1_stop_here) simp
    have k: "k = length olds - Suc i" using Suc(2) by simp
    show ?thesis
    proof (cases "kids (news ! i) = []")
      case True
      with Suc.prems i \<open>i < length news \<and> _\<close> obtain d where
        d: "calculateShadowViewMutations (destructiveDownwardMutations s1) (shadowView (olds ! i))
              (kids (olds ! i)) (kids (news ! i)) = Some d"
        and r: "stage1 parent olds news (Suc i) (s1\<lparr>destructiveDownwardMutations := d\<rparr>)
              = Some (L, s')"
        by (auto simp: stage1_step_destructive s1_def bind_eq_Some_conv)
      from sound_belowD[OF W wt d]
      have d': "d = destructiveDownwardMutations s1 @
          D (shadowView (olds ! i)) (kids (olds ! i)) (kids (news ! i))" .
      from Suc(1)[OF k r] have L: "L = stage1_stop olds news (Suc i)" and
        s': "s' = (s1\<lparr>destructiveDownwardMutations := d\<rparr>)
          \<lparr>updateMutations := updateMutations (s1\<lparr>destructiveDownwardMutations := d\<rparr>) @
             updates_from parent olds news (Suc i) L,
           downwardMutations := downwardMutations (s1\<lparr>destructiveDownwardMutations := d\<rparr>) @
             dw1_from olds news (Suc i) L,
           destructiveDownwardMutations :=
             destructiveDownwardMutations (s1\<lparr>destructiveDownwardMutations := d\<rparr>) @
             dd1_from olds news (Suc i) L\<rparr>"
        by simp_all
      have iL: "i < L" using L stage1_stop_ge[of "Suc i" olds news] by simp
      have "L = stage1_stop olds news i" using L stop by simp
      moreover have "s' = s\<lparr>updateMutations := updateMutations s @ updates_from parent olds news i L,
            downwardMutations := downwardMutations s @ dw1_from olds news i L,
            destructiveDownwardMutations :=
              destructiveDownwardMutations s @ dd1_from olds news i L\<rparr>"
        using True
        by (simp add: s' d' s1_def stage1_update_def updates_from_step[OF iL]
            dw1_from_step[OF iL] dd1_from_step[OF iL])
      ultimately show ?thesis by blast
    next
      case False
      with Suc.prems i \<open>i < length news \<and> _\<close> obtain d where
        d: "calculateShadowViewMutations (downwardMutations s1) (shadowView (olds ! i))
              (kids (olds ! i)) (kids (news ! i)) = Some d"
        and r: "stage1 parent olds news (Suc i) (s1\<lparr>downwardMutations := d\<rparr>) = Some (L, s')"
        by (auto simp: stage1_step_downward s1_def bind_eq_Some_conv)
      from sound_belowD[OF W wt d]
      have d': "d = downwardMutations s1 @
          D (shadowView (olds ! i)) (kids (olds ! i)) (kids (news ! i))" .
      from Suc(1)[OF k r] have L: "L = stage1_stop olds news (Suc i)" and
        s': "s' = (s1\<lparr>downwardMutations := d\<rparr>)
          \<lparr>updateMutations := updateMutations (s1\<lparr>downwardMutations := d\<rparr>) @
             updates_from parent olds news (Suc i) L,
           downwardMutations := downwardMutations (s1\<lparr>downwardMutations := d\<rparr>) @
             dw1_from olds news (Suc i) L,
           destructiveDownwardMutations :=
             destructiveDownwardMutations (s1\<lparr>downwardMutations := d\<rparr>) @
             dd1_from olds news (Suc i) L\<rparr>"
        by simp_all
      have iL: "i < L" using L stage1_stop_ge[of "Suc i" olds news] by simp
      have "L = stage1_stop olds news i" using L stop by simp
      moreover have "s' = s\<lparr>updateMutations := updateMutations s @ updates_from parent olds news i L,
            downwardMutations := downwardMutations s @ dw1_from olds news i L,
            destructiveDownwardMutations :=
              destructiveDownwardMutations s @ dd1_from olds news i L\<rparr>"
        using False
        by (simp add: s' d' s1_def stage1_update_def updates_from_step[OF iL]
            dw1_from_step[OF iL] dd1_from_step[OF iL])
      ultimately show ?thesis by blast
    qed
  qed
qed


lemma stage2_done:
  "\<not> i < length news \<Longrightarrow> stage2 parent news i ip s = Some (ip, s)"
  by (subst stage2.simps) simp

lemma stage2_step:
  "i < length news \<Longrightarrow>
     stage2 parent news i ip s =
       (if vtag (news ! i) \<noteq> 0
        then stage2 parent news (Suc i) (ip @ [(vtag (news ! i), news ! i)])
               (s\<lparr>insertMutations := insertMutations s @
                    [InsertMutation parent (shadowView (news ! i)) (int i)]\<rparr>)
        else None)"
  by (subst stage2.simps) (simp add: Let_def insert_TinyMap_def)

lemma inserted_map_step:
  "i < length news \<Longrightarrow> inserted_map news i = (vtag (news ! i), news ! i) # inserted_map news (Suc i)"
  by (simp add: inserted_map_def Cons_nth_drop_Suc [symmetric])

lemma inserted_map_end [simp]: "length news \<le> i \<Longrightarrow> inserted_map news i = []"
  by (simp add: inserted_map_def)

lemma stage2_sound:
  "stage2 parent news i ip s = Some (ip', s') \<Longrightarrow>
     ip' = ip @ inserted_map news i \<and>
     s' = s\<lparr>insertMutations := insertMutations s @ inserts_from parent news i\<rparr>"
proof (induction "length news - i" arbitrary: i ip s)
  case 0
  then show ?case by (simp add: stage2_done)
next
  case (Suc k)
  then have i: "i < length news" and k: "k = length news - Suc i" by simp_all
  from Suc.prems i have
    r: "stage2 parent news (Suc i) (ip @ [(vtag (news ! i), news ! i)])
          (s\<lparr>insertMutations := insertMutations s @
               [InsertMutation parent (shadowView (news ! i)) (int i)]\<rparr>) = Some (ip', s')"
    by (simp add: stage2_step split: if_splits)
  from Suc(1)[OF k r] show ?case
    by (simp add: inserted_map_step[OF i] inserts_from_step[OF i])
qed

definition stage3_remove :: "ShadowView \<Rightarrow> ShadowViewNodePair list \<Rightarrow> nat \<Rightarrow> Locals \<Rightarrow> Locals" where
  "stage3_remove parent olds i s =
     s\<lparr>removeMutations := removeMutations s @
          [RemoveMutation parent (shadowView (olds ! i)) (int i)]\<rparr>"

lemma stage3_done:
  "\<not> i < length olds \<Longrightarrow> stage3 parent olds i ip s = Some (ip, s)"
  by (subst stage3.simps) simp

lemma stage3_step_delete:
  "i < length olds \<Longrightarrow> find_TinyMap (vtag (olds ! i)) ip = None \<Longrightarrow>
     stage3 parent olds i ip s =
       calculateShadowViewMutations
         (destructiveDownwardMutations (stage3_remove parent olds i s))
         (shadowView (olds ! i)) (kids (olds ! i)) [] \<bind>
       (\<lambda>d. stage3 parent olds (Suc i) ip
          ((stage3_remove parent olds i s)
             \<lparr>deleteMutations := deleteMutations s @ [DeleteMutation (shadowView (olds ! i))],
              destructiveDownwardMutations := d\<rparr>))"
  by (subst stage3.simps) (simp add: Let_def stage3_remove_def end_TinyMap_def)

lemma stage3_step_reinsert:
  "i < length olds \<Longrightarrow> find_TinyMap (vtag (olds ! i)) ip = Some k \<Longrightarrow>
     stage3 parent olds i ip s =
       (if pair_ne (snd (ip ! k)) (olds ! i) then
          if kids (snd (ip ! k)) \<noteq> []
          then calculateShadowViewMutations (downwardMutations (stage3_remove parent olds i s))
                 (shadowView (snd (ip ! k))) (kids (olds ! i)) (kids (snd (ip ! k))) \<bind>
               (\<lambda>d. Some ((stage3_remove parent olds i s)\<lparr>downwardMutations := d\<rparr>))
          else calculateShadowViewMutations
                 (destructiveDownwardMutations (stage3_remove parent olds i s))
                 (shadowView (snd (ip ! k))) (kids (olds ! i)) (kids (snd (ip ! k))) \<bind>
               (\<lambda>d. Some ((stage3_remove parent olds i s)\<lparr>destructiveDownwardMutations := d\<rparr>))
        else Some (stage3_remove parent olds i s)) \<bind>
       (\<lambda>s2. stage3 parent olds (Suc i) (ip[k := (0, snd (ip ! k))]) s2)"
proof -
  assume i: "i < length olds" and f: "find_TinyMap (vtag (olds ! i)) ip = Some k"
  from find_TinyMap_Some[OF f] have k: "k < length ip" by simp
  show ?thesis
    by (subst stage3.simps)
      (simp add: i f k Let_def stage3_remove_def end_TinyMap_def deref_TinyMap_def
        erase_TinyMap_def)
qed

lemma tm_step_None: "find_TinyMap (vtag q) ip = None \<Longrightarrow> tm_step q ip = ip"
  by (simp add: tm_step_def)

lemma tm_step_Some: "find_TinyMap (vtag q) ip = Some k \<Longrightarrow> tm_step q ip = ip[k := (0, snd (ip ! k))]"
  by (simp add: tm_step_def)

lemma stage3_sound:
  assumes W: "sound_below W"
  shows "pairs_weight olds + pairs_weight (map snd ip) \<le> W \<Longrightarrow>
     stage3 parent olds i ip s = Some (ip', s') \<Longrightarrow>
     ip' = insertedPairs_at olds i (length olds - i) ip \<and>
     s' = s\<lparr>removeMutations := removeMutations s @ removes_from parent olds i,
            deleteMutations := deleteMutations s @ deletes_from olds i ip,
            downwardMutations := downwardMutations s @ dw3_from olds i ip,
            destructiveDownwardMutations :=
              destructiveDownwardMutations s @ dd3_from olds i ip\<rparr>"
proof (induction "length olds - i" arbitrary: i ip s)
  case 0
  then show ?case by (simp add: stage3_done)
next
  case (Suc m)
  then have i: "i < length olds" and m: "m = length olds - Suc i" by simp_all
  let ?s1 = "stage3_remove parent olds i s"
  note steps = removes_from_step[OF i] deletes_from_step[OF i] dw3_from_step[OF i]
    dd3_from_step[OF i] insertedPairs_at_step[OF i]
  show ?case
  proof (cases "find_TinyMap (vtag (olds ! i)) ip")
    case None
    with Suc.prems i obtain d where
      d: "calculateShadowViewMutations (destructiveDownwardMutations ?s1)
            (shadowView (olds ! i)) (kids (olds ! i)) [] = Some d"
      and r: "stage3 parent olds (Suc i) ip
          (?s1\<lparr>deleteMutations := deleteMutations s @ [DeleteMutation (shadowView (olds ! i))],
              destructiveDownwardMutations := d\<rparr>) = Some (ip', s')"
      by (auto simp: stage3_step_delete bind_eq_Some_conv)
    have "pairs_weight (kids (olds ! i)) + pairs_weight [] < W"
      using kids_weight_lt[of "olds ! i" olds] i Suc.prems(1) by simp
    from sound_belowD[OF W this d]
    have d': "d = destructiveDownwardMutations ?s1 @ D (shadowView (olds ! i)) (kids (olds ! i)) []" .
    from Suc(1)[OF m Suc.prems(1) r] None show ?thesis
      by (simp add: steps partner_first tm_step_None d' stage3_remove_def)
  next
    case (Some k)
    from find_TinyMap_Some[OF Some] have k: "k < length ip" by simp
    let ?n = "snd (ip ! k)"
    have nmem: "?n \<in> set (map snd ip)" using k by (metis length_map nth_map nth_mem)
    have wt: "pairs_weight (kids (olds ! i)) + pairs_weight (kids ?n) < W"
      using kids_weight_lt2[of "olds ! i" olds ?n "map snd ip"] i nmem Suc.prems(1) by simp
    have w': "pairs_weight olds + pairs_weight (map snd (ip[k := (0, snd (ip ! k))])) \<le> W"
      using Suc.prems(1) tm_step_values[of "olds ! i" ip] by (simp add: tm_step_Some[OF Some])
    from Suc.prems(2) i Some obtain s2 where
      s2: "(if pair_ne ?n (olds ! i) then
          if kids ?n \<noteq> []
          then calculateShadowViewMutations (downwardMutations ?s1)
                 (shadowView ?n) (kids (olds ! i)) (kids ?n) \<bind>
               (\<lambda>d. Some (?s1\<lparr>downwardMutations := d\<rparr>))
          else calculateShadowViewMutations (destructiveDownwardMutations ?s1)
                 (shadowView ?n) (kids (olds ! i)) (kids ?n) \<bind>
               (\<lambda>d. Some (?s1\<lparr>destructiveDownwardMutations := d\<rparr>))
        else Some ?s1) = Some s2"
      and r: "stage3 parent olds (Suc i) (ip[k := (0, snd (ip ! k))]) s2 = Some (ip', s')"
      by (auto simp: stage3_step_reinsert bind_eq_Some_conv)
    have s2': "s2 = ?s1\<lparr>
        downwardMutations := downwardMutations ?s1 @
          (if pair_ne ?n (olds ! i) \<and> kids ?n \<noteq> []
           then D (shadowView ?n) (kids (olds ! i)) (kids ?n) else []),
        destructiveDownwardMutations := destructiveDownwardMutations ?s1 @
          (if pair_ne ?n (olds ! i) \<and> kids ?n = []
           then D (shadowView ?n) (kids (olds ! i)) (kids ?n) else [])\<rparr>"
      using s2 sound_belowD[OF W wt]
      by (auto simp: bind_eq_Some_conv split: if_splits)
    from Suc(1)[OF m w' r] Some show ?thesis
      by (simp add: steps partner_first tm_step_Some s2' stage3_remove_def)
  qed
qed

lemma stage4_done:
  "\<not> i < length news \<Longrightarrow> stage4 parent news i ip s = Some s"
  by (subst stage4.simps) simp

lemma stage4_step_skip:
  "i < length news \<Longrightarrow> find_TinyMap (vtag (news ! i)) ip = None \<Longrightarrow>
     stage4 parent news i ip s = stage4 parent news (Suc i) ip s"
  by (subst stage4.simps) (simp add: end_TinyMap_def)

lemma stage4_step_create:
  "i < length news \<Longrightarrow> find_TinyMap (vtag (news ! i)) ip = Some k \<Longrightarrow>
     stage4 parent news i ip s =
       calculateShadowViewMutations (downwardMutations s) (shadowView (news ! i)) []
         (kids (news ! i)) \<bind>
       (\<lambda>d. stage4 parent news (Suc i) ip
          (s\<lparr>createMutations := createMutations s @ [CreateMutation (shadowView (news ! i))],
             downwardMutations := d\<rparr>))"
  by (subst stage4.simps) (simp add: end_TinyMap_def Let_def)

lemma stage4_sound:
  assumes W: "sound_below W" and le: "pairs_weight news \<le> W"
  shows "stage4 parent news i ip s = Some s' \<Longrightarrow>
     s' = s\<lparr>createMutations := createMutations s @ creates_from news i ip,
            downwardMutations := downwardMutations s @ dw4_from news i ip\<rparr>"
proof (induction "length news - i" arbitrary: i s)
  case 0
  then show ?case by (simp add: stage4_done)
next
  case (Suc m)
  then have i: "i < length news" and m: "m = length news - Suc i" by simp_all
  note steps = creates_from_step[OF i] dw4_from_step[OF i]
  show ?case
  proof (cases "find_TinyMap (vtag (news ! i)) ip")
    case None
    with Suc.prems i have "stage4 parent news (Suc i) ip s = Some s'"
      by (simp add: stage4_step_skip)
    from Suc(1)[OF m this] None show ?thesis by (simp add: steps)
  next
    case (Some k)
    with Suc.prems i obtain d where
      d: "calculateShadowViewMutations (downwardMutations s) (shadowView (news ! i)) []
            (kids (news ! i)) = Some d"
      and r: "stage4 parent news (Suc i) ip
          (s\<lparr>createMutations := createMutations s @ [CreateMutation (shadowView (news ! i))],
             downwardMutations := d\<rparr>) = Some s'"
      by (auto simp: stage4_step_create bind_eq_Some_conv)
    have "pairs_weight [] + pairs_weight (kids (news ! i)) < W"
      using kids_weight_lt[of "news ! i" news] i le by simp
    from sound_belowD[OF W this d]
    have d': "d = downwardMutations s @ D (shadowView (news ! i)) [] (kids (news ! i))" .
    from Suc(1)[OF m r] Some show ?thesis by (simp add: steps d')
  qed
qed

lemma calculateShadowViewMutations_unfold:
  "\<not> (olds0 = [] \<and> news0 = []) \<Longrightarrow>
   calculateShadowViewMutations ms parent olds0 news0 =
     stage1 parent (reorderInPlaceIfNeeded olds0) (reorderInPlaceIfNeeded news0) 0 emptyLocals \<bind>
     (\<lambda>(L, s1). stage2 parent (reorderInPlaceIfNeeded news0) L [] s1 \<bind>
     (\<lambda>(ip2, s2). stage3 parent (reorderInPlaceIfNeeded olds0) L ip2 s2 \<bind>
     (\<lambda>(ip3, s3). stage4 parent (reorderInPlaceIfNeeded news0) L ip3 s3 \<bind>
     (\<lambda>s4. Some (flush ms s4)))))"
  by (subst calculateShadowViewMutations.simps) (auto simp: Let_def)

lemma calculateShadowViewMutations_sound:
  "calculateShadowViewMutations ms parent olds0 news0 = Some res \<Longrightarrow>
     res = ms @ D parent olds0 news0"
proof (induction "pairs_weight olds0 + pairs_weight news0"
    arbitrary: ms parent olds0 news0 res rule: less_induct)
  case less
  show ?case
  proof (cases "olds0 = [] \<and> news0 = []")
    case True
    with less.prems show ?thesis by simp
  next
    case False
    define olds where "olds = reorderInPlaceIfNeeded olds0"
    define news where "news = reorderInPlaceIfNeeded news0"
    define W where "W = pairs_weight olds0 + pairs_weight news0"
    have W: "sound_below W"
      unfolding sound_below_def W_def using less.hyps by blast
    have wo: "pairs_weight olds = pairs_weight olds0" and wn: "pairs_weight news = pairs_weight news0"
      by (simp_all add: olds_def news_def pairs_weight_reorder)
    from less.prems False obtain L s1 ip2 s2 ip3 s3 s4 where
      st1: "stage1 parent olds news 0 emptyLocals = Some (L, s1)" and
      st2: "stage2 parent news L [] s1 = Some (ip2, s2)" and
      st3: "stage3 parent olds L ip2 s2 = Some (ip3, s3)" and
      st4: "stage4 parent news L ip3 s3 = Some s4" and
      res: "res = flush ms s4"
      by (auto simp: calculateShadowViewMutations_unfold bind_eq_Some_conv olds_def news_def)
    from stage1_sound[OF W _ st1] have L: "L = stage1_stop olds news 0" and
      s1: "s1 = emptyLocals\<lparr>updateMutations := updates_from parent olds news 0 L,
            downwardMutations := dw1_from olds news 0 L,
            destructiveDownwardMutations := dd1_from olds news 0 L\<rparr>"
      by (simp_all add: W_def wo wn emptyLocals_def)
    from stage2_sound[OF st2] have ip2: "ip2 = inserted_map news L" and
      s2: "s2 = s1\<lparr>insertMutations := insertMutations s1 @ inserts_from parent news L\<rparr>"
      by simp_all
    have "pairs_weight (map snd ip2) = pairs_weight (drop L news)"
      by (simp add: ip2 inserted_map_def comp_def)
    then have "pairs_weight olds + pairs_weight (map snd ip2) \<le> W"
      using pairs_weight_drop_le[of L news] by (simp add: W_def wo wn)
    from stage3_sound[OF W this st3] have
      ip3: "ip3 = insertedPairs_at olds L (length olds - L) ip2" and
      s3: "s3 = s2\<lparr>removeMutations := removeMutations s2 @ removes_from parent olds L,
            deleteMutations := deleteMutations s2 @ deletes_from olds L ip2,
            downwardMutations := downwardMutations s2 @ dw3_from olds L ip2,
            destructiveDownwardMutations :=
              destructiveDownwardMutations s2 @ dd3_from olds L ip2\<rparr>"
      by simp_all
    from stage4_sound[OF W _ st4] have
      s4: "s4 = s3\<lparr>createMutations := createMutations s3 @ creates_from news L ip3,
            downwardMutations := downwardMutations s3 @ dw4_from news L ip3\<rparr>"
      by (simp add: W_def wn)
    have "flush ms s4 = ms @ D parent olds0 news0"
      by (simp add: D_nonempty[OF False] Let_def olds_def [symmetric] news_def [symmetric]
          L [symmetric] ip2 [symmetric] ip3 [symmetric] flush_def s4 s3 s2 s1 emptyLocals_def)
    with res show ?thesis by simp
  qed
qed

section \<open>The local lists of one call\<close>

lemma sound_below_all: "sound_below W"
  unfolding sound_below_def using calculateShadowViewMutations_sound by blast

text \<open>The local lists at the end of the four stages of one call.\<close>

lemma stages_result:
  assumes st1: "stage1 parent olds news 0 emptyLocals = Some (L, s1)"
    and st2: "stage2 parent news L [] s1 = Some (ip2, s2)"
    and st3: "stage3 parent olds L ip2 s2 = Some (ip3, s3)"
    and st4: "stage4 parent news L ip3 s3 = Some s4"
  shows "L = stage1_stop olds news 0"
    and "ip2 = inserted_map news L"
    and "ip3 = insertedPairs_at olds L (length olds - L) ip2"
    and "s4 = \<lparr>createMutations = creates_from news L ip3,
               deleteMutations = deletes_from olds L ip2,
               insertMutations = inserts_from parent news L,
               removeMutations = removes_from parent olds L,
               updateMutations = updates_from parent olds news 0 L,
               downwardMutations = dw1_from olds news 0 L @ dw3_from olds L ip2 @ dw4_from news L ip3,
               destructiveDownwardMutations = dd1_from olds news 0 L @ dd3_from olds L ip2\<rparr>"
proof -
  from stage1_sound[OF sound_below_all order_refl st1] have L: "L = stage1_stop olds news 0" and
    s1: "s1 = emptyLocals\<lparr>updateMutations := updates_from parent olds news 0 L,
          downwardMutations := dw1_from olds news 0 L,
          destructiveDownwardMutations := dd1_from olds news 0 L\<rparr>"
    by (simp_all add: emptyLocals_def)
  from stage2_sound[OF st2] have ip2: "ip2 = inserted_map news L" and
    s2: "s2 = s1\<lparr>insertMutations := insertMutations s1 @ inserts_from parent news L\<rparr>"
    by simp_all
  from stage3_sound[OF sound_below_all order_refl st3] have
    ip3: "ip3 = insertedPairs_at olds L (length olds - L) ip2" and
    s3: "s3 = s2\<lparr>removeMutations := removeMutations s2 @ removes_from parent olds L,
          deleteMutations := deleteMutations s2 @ deletes_from olds L ip2,
          downwardMutations := downwardMutations s2 @ dw3_from olds L ip2,
          destructiveDownwardMutations :=
            destructiveDownwardMutations s2 @ dd3_from olds L ip2\<rparr>"
    by simp_all
  from stage4_sound[OF sound_below_all order_refl st4] have
    s4: "s4 = s3\<lparr>createMutations := createMutations s3 @ creates_from news L ip3,
          downwardMutations := downwardMutations s3 @ dw4_from news L ip3\<rparr>" .
  show "L = stage1_stop olds news 0" by (rule L)
  show "ip2 = inserted_map news L" by (rule ip2)
  show "ip3 = insertedPairs_at olds L (length olds - L) ip2" by (rule ip3)
  show "s4 = \<lparr>createMutations = creates_from news L ip3,
               deleteMutations = deletes_from olds L ip2,
               insertMutations = inserts_from parent news L,
               removeMutations = removes_from parent olds L,
               updateMutations = updates_from parent olds news 0 L,
               downwardMutations = dw1_from olds news 0 L @ dw3_from olds L ip2 @ dw4_from news L ip3,
               destructiveDownwardMutations = dd1_from olds news 0 L @ dd3_from olds L ip2\<rparr>"
    by (simp add: s4 s3 s2 s1 emptyLocals_def)
qed

section \<open>Keys of the inserted pairs\<close>

lemma find_loop_None_iff: "find_loop s t m = None \<longleftrightarrow> t \<notin> fst ` set m"
  by (induction m arbitrary: s) (auto simp: end_TinyMap_def)

lemma find_TinyMap_None_iff: "find_TinyMap t m = None \<longleftrightarrow> t \<notin> fst ` set m"
  by (simp add: find_TinyMap_def find_loop_None_iff)

lemma length_tm_step [simp]: "length (tm_step q ip) = length ip"
  by (simp add: tm_step_def split: option.splits)

lemma length_insertedPairs_at [simp]: "length (insertedPairs_at olds i k ip) = length ip"
  by (induction k) simp_all

lemma tm_step_key:
  "m < length ip \<Longrightarrow>
     fst (tm_step q ip ! m) = fst (ip ! m) \<or>
     (fst (tm_step q ip ! m) = 0 \<and> fst (ip ! m) = vtag q)"
proof (cases "find_TinyMap (vtag q) ip")
  case None
  then show ?thesis by (simp add: tm_step_None)
next
  case (Some k)
  assume "m < length ip"
  with find_TinyMap_Some[OF Some] show ?thesis
    by (cases "m = k") (simp_all add: tm_step_Some[OF Some])
qed

text \<open>A slot of \<open>insertedPairs\<close> keeps its key through stage 3 unless an old child with that
  tag zeroes it.\<close>

lemma insertedPairs_at_key:
  "i + k \<le> length olds \<Longrightarrow> m < length ip \<Longrightarrow>
     fst (insertedPairs_at olds i k ip ! m) = fst (ip ! m) \<or>
     (fst (insertedPairs_at olds i k ip ! m) = 0 \<and> fst (ip ! m) \<in> vtag ` set olds)"
proof (induction k)
  case 0
  then show ?case by simp
next
  case (Suc k)
  then have IH: "fst (insertedPairs_at olds i k ip ! m) = fst (ip ! m) \<or>
     (fst (insertedPairs_at olds i k ip ! m) = 0 \<and> fst (ip ! m) \<in> vtag ` set olds)"
    by simp
  from Suc.prems have mem: "olds ! (i + k) \<in> set olds" by simp
  from tm_step_key[of m "insertedPairs_at olds i k ip" "olds ! (i + k)"] Suc.prems(2)
  have step: "fst (insertedPairs_at olds i (Suc k) ip ! m) = fst (insertedPairs_at olds i k ip ! m) \<or>
     (fst (insertedPairs_at olds i (Suc k) ip ! m) = 0 \<and>
      fst (insertedPairs_at olds i k ip ! m) = vtag (olds ! (i + k)))"
    by simp
  moreover have "vtag (olds ! (i + k)) \<in> vtag ` set olds" using mem by (rule imageI)
  ultimately show ?case using IH by auto
qed

definition nonzero_keys_distinct :: "'v TinyMap \<Rightarrow> bool" where
  "nonzero_keys_distinct ip \<longleftrightarrow>
     (\<forall>m < length ip. \<forall>m' < length ip. m \<noteq> m' \<longrightarrow> fst (ip ! m) = fst (ip ! m') \<longrightarrow> fst (ip ! m) = 0)"

lemma nonzero_keys_distinct_tm_step:
  "nonzero_keys_distinct ip \<Longrightarrow> nonzero_keys_distinct (tm_step q ip)"
proof (cases "find_TinyMap (vtag q) ip")
  case None
  assume "nonzero_keys_distinct ip"
  then show ?thesis by (simp add: tm_step_None[OF None])
next
  case (Some k)
  assume d: "nonzero_keys_distinct ip"
  show ?thesis
    unfolding nonzero_keys_distinct_def tm_step_Some[OF Some]
  proof (intro allI impI)
    fix m m'
    assume m: "m < length (ip[k := (0, snd (ip ! k))])" "m' < length (ip[k := (0, snd (ip ! k))])"
      "m \<noteq> m'"
      and e: "fst (ip[k := (0, snd (ip ! k))] ! m) = fst (ip[k := (0, snd (ip ! k))] ! m')"
    show "fst (ip[k := (0, snd (ip ! k))] ! m) = 0"
    proof (cases "m = k \<or> m' = k")
      case True
      with m e show ?thesis by (auto simp: nth_list_update split: if_splits)
    next
      case False
      with m e d show ?thesis unfolding nonzero_keys_distinct_def by simp
    qed
  qed
qed

lemma nonzero_keys_distinct_insertedPairs_at:
  "nonzero_keys_distinct ip \<Longrightarrow> nonzero_keys_distinct (insertedPairs_at olds i k ip)"
  by (induction k) (simp_all add: nonzero_keys_distinct_tm_step)

lemma tm_step_erases:
  assumes "nonzero_keys_distinct ip" and "vtag q \<noteq> 0"
  shows "vtag q \<notin> fst ` set (tm_step q ip)"
proof (cases "find_TinyMap (vtag q) ip")
  case None
  then show ?thesis by (simp add: tm_step_None find_TinyMap_None_iff)
next
  case (Some k)
  from find_TinyMap_Some[OF Some] have k: "k < length ip" "fst (ip ! k) = vtag q" by simp_all
  show ?thesis
  proof
    assume "vtag q \<in> fst ` set (tm_step q ip)"
    then obtain m where m: "m < length ip" "fst (tm_step q ip ! m) = vtag q"
      by (auto simp: in_set_conv_nth)
    with assms(2) k have "m \<noteq> k" by (auto simp: tm_step_Some[OF Some])
    with m k have "fst (ip ! m) = fst (ip ! k)" by (simp add: tm_step_Some[OF Some])
    with assms k m \<open>m \<noteq> k\<close> show False unfolding nonzero_keys_distinct_def by metis
  qed
qed

lemma tm_step_keys_subset: "fst ` set (tm_step q ip) \<subseteq> insert 0 (fst ` set ip)"
proof (cases "find_TinyMap (vtag q) ip")
  case None
  then show ?thesis by (auto simp: tm_step_None)
next
  case (Some k)
  show ?thesis
    unfolding tm_step_Some[OF Some]
    by (auto dest!: set_update_subset_insert[THEN subsetD])
qed

text \<open>After stage 3 has passed an old child with a non-zero tag, no slot holds that tag.\<close>

lemma insertedPairs_at_erased:
  assumes "nonzero_keys_distinct ip"
  shows "a < k \<Longrightarrow> vtag (olds ! (i + a)) \<noteq> 0 \<Longrightarrow>
     vtag (olds ! (i + a)) \<notin> fst ` set (insertedPairs_at olds i k ip)"
proof (induction k)
  case 0
  then show ?case by simp
next
  case (Suc k)
  show ?case
  proof (cases "a = k")
    case True
    with Suc.prems show ?thesis
      using tm_step_erases[OF nonzero_keys_distinct_insertedPairs_at[OF assms, of olds i k],
          of "olds ! (i + k)"]
      by simp
  next
    case False
    with Suc have "vtag (olds ! (i + a)) \<notin> fst ` set (insertedPairs_at olds i k ip)" by simp
    with Suc.prems(2) tm_step_keys_subset[of "olds ! (i + k)" "insertedPairs_at olds i k ip"]
    show ?thesis by auto
  qed
qed

lemma stage1_stop_aligned:
  "i \<le> a \<Longrightarrow> a < stage1_stop olds news i \<Longrightarrow> vtag (olds ! a) = vtag (news ! a)"
proof (induction olds news i rule: stage1_stop.induct)
  case (1 olds news i)
  show ?case
  proof (cases "i < length olds \<and> i < length news \<and> vtag (olds ! i) = vtag (news ! i)")
    case True
    with 1 show ?thesis
      by (cases "a = i") (simp_all add: stage1_stop_here[of olds news i])
  next
    case False
    with 1(3) 1(2) show ?thesis by (simp add: stage1_stop_here[of olds news i])
  qed
qed

lemma stage2_nonzero:
  "stage2 parent news i ip s = Some r \<Longrightarrow> i \<le> j \<Longrightarrow> j < length news \<Longrightarrow> vtag (news ! j) \<noteq> 0"
proof (induction "length news - i" arbitrary: i ip s)
  case 0
  then show ?case by simp
next
  case (Suc k)
  then have i: "i < length news" and k: "k = length news - Suc i" by simp_all
  from Suc.prems(1) i have nz: "vtag (news ! i) \<noteq> 0" and
    r: "stage2 parent news (Suc i) (ip @ [(vtag (news ! i), news ! i)])
          (s\<lparr>insertMutations := insertMutations s @
               [InsertMutation parent (shadowView (news ! i)) (int i)]\<rparr>) = Some r"
    by (simp_all add: stage2_step split: if_splits)
  show ?case
  proof (cases "j = i")
    case True
    with nz show ?thesis by simp
  next
    case False
    with Suc.prems have "Suc i \<le> j" by simp
    from Suc(1)[OF k r this Suc.prems(3)] show ?thesis .
  qed
qed

lemma nonzero_keys_distinct_inserted_map:
  "distinct (map vtag news) \<Longrightarrow> nonzero_keys_distinct (inserted_map news L)"
  unfolding nonzero_keys_distinct_def inserted_map_def
  by (auto simp: distinct_conv_nth)

lemma creates_from_set:
  "set (creates_from news i ip) =
     {CreateMutation (shadowView (news ! j)) | j. i \<le> j \<and> j < length news \<and>
        find_TinyMap (vtag (news ! j)) ip \<noteq> None}"
  by (auto simp: creates_from_def)

section \<open>Flattened projection\<close>

text \<open>
  The host tree that a shadow tree stands for: every pair with the pairs sliced from its
  node as children, in the order in which the driver processes them (reordered by order
  index). \<open>projection\<close> is the tree for a root node.
\<close>

datatype HostView = HostView (hostView: ShadowView) (hostChildren: "HostView list")

function flatten :: "ShadowViewNodePair \<Rightarrow> HostView" where
  "flatten pair = HostView (shadowView pair) (map flatten (reorderInPlaceIfNeeded (kids pair)))"
  by pat_completeness auto
termination
proof (relation "measure (\<lambda>pair. node_weight (shadowNode pair))", goal_cases)
  case 1
  then show ?case by simp
next
  case (2 pair x)
  then have "x \<in> set (kids pair)" by simp
  from pairs_weight_member[OF this] pairs_weight_slice[of "shadowNode pair"]
  show ?case by simp
qed

declare flatten.simps [simp del]

definition projection :: "ShadowNode \<Rightarrow> HostView" where
  "projection root =
     HostView (ShadowView_of root)
       (map flatten (reorderInPlaceIfNeeded (sliceChildShadowNodeViewPairs root)))"

fun tags_of :: "HostView \<Rightarrow> Tag list" where
  "tags_of (HostView v children) = tag v # concat (map tags_of children)"

definition forest_tags :: "ShadowViewNodePair list \<Rightarrow> Tag set" where
  "forest_tags pairs = (\<Union>pair \<in> set pairs. set (tags_of (flatten pair)))"

text \<open>
  \<open>created_before_insert T C ms\<close>: walking \<open>ms\<close>, every \<^verbatim>\<open>Insert\<close> of a view finds the view
  created earlier in \<open>ms\<close> (or in \<open>C\<close>), or its tag in \<open>T\<close>.
\<close>

fun created_before_insert :: "Tag set \<Rightarrow> ShadowView set \<Rightarrow> ShadowViewMutation list \<Rightarrow> bool" where
  "created_before_insert T C [] = True"
| "created_before_insert T C (CreateMutation v # ms) = created_before_insert T (insert v C) ms"
| "created_before_insert T C (InsertMutation p v i # ms) =
     ((v \<in> C \<or> tag v \<in> T) \<and> created_before_insert T C ms)"
| "created_before_insert T C (m # ms) = created_before_insert T C ms"

definition created :: "ShadowViewMutation list \<Rightarrow> ShadowView set" where
  "created ms = {v. CreateMutation v \<in> set ms}"

lemma created_simps [simp]:
  "created [] = {}"
  "created (CreateMutation v # ms) = insert v (created ms)"
  "created (DeleteMutation v # ms) = created ms"
  "created (InsertMutation p v i # ms) = created ms"
  "created (RemoveMutation p v i # ms) = created ms"
  "created (UpdateMutation p v w i # ms) = created ms"
  "created (ms @ ms') = created ms \<union> created ms'"
  by (auto simp: created_def)

lemma cbi_append:
  "created_before_insert T C (a @ b) \<longleftrightarrow>
     created_before_insert T C a \<and> created_before_insert T (C \<union> created a) b"
  by (induction T C a rule: created_before_insert.induct) simp_all

lemma cbi_mono:
  "created_before_insert T C ms \<Longrightarrow> T \<subseteq> T' \<Longrightarrow> C \<subseteq> C' \<Longrightarrow> created_before_insert T' C' ms"
proof (induction T C ms arbitrary: C' rule: created_before_insert.induct)
  case (2 T C v ms)
  from 2(1)[of "insert v C'"] 2(2-) show ?case by auto
next
  case (3 T C p v i ms)
  then show ?case by auto
qed simp_all

lemma cbi_concat:
  "(\<And>x. x \<in> set xs \<Longrightarrow> created_before_insert T {} (f x)) \<Longrightarrow>
     created_before_insert T C (concat (map f xs))"
proof (induction xs arbitrary: C)
  case Nil
  then show ?case by simp
next
  case (Cons x xs)
  then have "created_before_insert T {} (f x)" by simp
  then have "created_before_insert T C (f x)" by (rule cbi_mono) simp_all
  with Cons show ?case by (simp add: cbi_append)
qed

lemma cbi_decompose:
  "created_before_insert T C ms \<Longrightarrow> ms = xs @ InsertMutation p v i # ys \<Longrightarrow>
     v \<in> C \<or> CreateMutation v \<in> set xs \<or> tag v \<in> T"
  by (auto simp: cbi_append created_def)

lemma cbi_no_insert:
  "(\<And>p v i. InsertMutation p v i \<notin> set ms) \<Longrightarrow> created_before_insert T C ms"
  by (induction T C ms rule: created_before_insert.induct) auto

lemma cbi_updates [simp]: "created_before_insert T C (updates_from parent olds news i L)"
  by (rule cbi_no_insert) (auto simp: updates_from_def split: if_splits)

lemma cbi_removes [simp]: "created_before_insert T C (rev (removes_from parent olds i))"
  by (rule cbi_no_insert) (auto simp: removes_from_def)

lemma cbi_deletes [simp]: "created_before_insert T C (deletes_from olds i ip)"
  by (rule cbi_no_insert) (auto simp: deletes_from_def split: option.splits)

lemma cbi_creates [simp]: "created_before_insert T C (creates_from news i ip)"
  by (rule cbi_no_insert) (auto simp: creates_from_def split: if_splits)

lemma cbi_inserts:
  "(\<And>j. i \<le> j \<Longrightarrow> j < length news \<Longrightarrow> shadowView (news ! j) \<in> C \<or> vtag (news ! j) \<in> T) \<Longrightarrow>
     created_before_insert T C (inserts_from parent news i)"
proof -
  assume a: "\<And>j. i \<le> j \<Longrightarrow> j < length news \<Longrightarrow> shadowView (news ! j) \<in> C \<or> vtag (news ! j) \<in> T"
  have "\<And>js. set js \<subseteq> {i..<length news} \<Longrightarrow>
     created_before_insert T C (map (\<lambda>j. InsertMutation parent (shadowView (news ! j)) (int j)) js)"
  proof -
    fix js show "set js \<subseteq> {i..<length news} \<Longrightarrow>
     created_before_insert T C (map (\<lambda>j. InsertMutation parent (shadowView (news ! j)) (int j)) js)"
      using a by (induction js) auto
  qed
  then show ?thesis unfolding inserts_from_def by simp
qed

lemma forest_tags_kids:
  "q \<in> set pairs \<Longrightarrow> forest_tags (kids q) \<subseteq> forest_tags pairs"
proof
  fix t assume q: "q \<in> set pairs" and "t \<in> forest_tags (kids q)"
  then obtain r where "r \<in> set (kids q)" "t \<in> set (tags_of (flatten r))"
    by (auto simp: forest_tags_def)
  then have "t \<in> set (tags_of (flatten q))"
    by (subst flatten.simps) auto
  with q show "t \<in> forest_tags pairs" by (auto simp: forest_tags_def)
qed

lemma forest_tags_top: "q \<in> set pairs \<Longrightarrow> vtag q \<in> forest_tags pairs"
  unfolding forest_tags_def by (subst flatten.simps) auto

lemma forest_tags_reorder [simp]: "forest_tags (reorderInPlaceIfNeeded pairs) = forest_tags pairs"
  by (simp add: forest_tags_def)

lemma inserted_map_nth:
  "L \<le> j \<Longrightarrow> j < length news \<Longrightarrow>
     j - L < length (inserted_map news L) \<and>
     inserted_map news L ! (j - L) = (vtag (news ! j), news ! j)"
proof -
  assume j: "L \<le> j" "j < length news"
  then have "j - L < length (drop L news)" by simp
  moreover have "drop L news ! (j - L) = news ! j" using j by (simp add: nth_drop)
  ultimately show ?thesis by (simp add: inserted_map_def)
qed

lemma D_created_before_insert:
  "created_before_insert (forest_tags olds0) {} (D parent olds0 news0)"
proof (induction "pairs_weight olds0 + pairs_weight news0"
    arbitrary: parent olds0 news0 rule: less_induct)
  case less
  show ?case
  proof (cases "olds0 = [] \<and> news0 = []")
    case True
    then show ?thesis by simp
  next
    case False
    define olds where "olds = reorderInPlaceIfNeeded olds0"
    define news where "news = reorderInPlaceIfNeeded news0"
    define L where "L = stage1_stop olds news 0"
    define ip2 where "ip2 = inserted_map news L"
    define ip3 where "ip3 = insertedPairs_at olds L (length olds - L) ip2"
    let ?T = "forest_tags olds0"
    have L_le: "L \<le> length olds" "L \<le> length news"
      using stage1_stop_le[of 0 olds news] by (simp_all add: L_def)
    have blk: "created_before_insert ?T C (D p (kids oc) ns)"
      if "oc \<in> set olds" "pairs_weight ns < pairs_weight news0 \<or> ns = []" for oc ns p C
    proof -
      from that(1) have oc: "oc \<in> set olds0" by (simp add: olds_def)
      have "pairs_weight (kids oc) + pairs_weight ns < pairs_weight olds0 + pairs_weight news0"
        using kids_weight_lt[OF oc] that(2) by auto
      then have "created_before_insert (forest_tags (kids oc)) {} (D p (kids oc) ns)"
        by (rule less)
      then show ?thesis
        by (rule cbi_mono) (simp_all add: forest_tags_kids[OF oc])
    qed
    have wn: "pairs_weight (kids n) < pairs_weight news0" if "n \<in> set news" for n
      using kids_weight_lt[of n news0] that by (simp add: news_def)
    have part: "n \<in> set news" if "partner olds L ip2 j = Some n" for j n
      using partner_inserted_map[of olds L news L j n] that by (auto simp: ip2_def dest: in_set_dropD)
    have dd1: "created_before_insert ?T C (dd1_from olds news 0 L)" for C
    proof -
      have "created_before_insert ?T {} (dd1_from olds news 0 L)"
        unfolding dd1_from_def using L_le by (intro cbi_concat) (auto intro!: blk wn)
      then show ?thesis by (rule cbi_mono) simp_all
    qed
    have dw1: "created_before_insert ?T C (dw1_from olds news 0 L)" for C
    proof -
      have "created_before_insert ?T {} (dw1_from olds news 0 L)"
        unfolding dw1_from_def using L_le by (intro cbi_concat) (auto intro!: blk wn)
      then show ?thesis by (rule cbi_mono) simp_all
    qed
    have dd3: "created_before_insert ?T C (dd3_from olds L ip2)" for C
    proof -
      have "created_before_insert ?T {} (dd3_from olds L ip2)"
        unfolding dd3_from_def
        by (intro cbi_concat) (auto intro!: blk wn dest: part split: option.splits)
      then show ?thesis by (rule cbi_mono) simp_all
    qed
    have dw3: "created_before_insert ?T C (dw3_from olds L ip2)" for C
    proof -
      have "created_before_insert ?T {} (dw3_from olds L ip2)"
        unfolding dw3_from_def
        by (intro cbi_concat) (auto intro!: blk wn dest: part split: option.splits)
      then show ?thesis by (rule cbi_mono) simp_all
    qed
    have dw4: "created_before_insert ?T C (dw4_from news L ip3)" for C
    proof -
      have "created_before_insert ?T {} (dw4_from news L ip3)"
        unfolding dw4_from_def
      proof (intro cbi_concat)
        fix j assume "j \<in> set [L..<length news]"
        then have "j < length news" by simp
        then have "news ! j \<in> set news" by (rule nth_mem)
        then have "news ! j \<in> set news0" by (simp add: news_def)
        then have "pairs_weight [] + pairs_weight (kids (news ! j))
            < pairs_weight olds0 + pairs_weight news0"
          using kids_weight_lt[of "news ! j" news0] by simp
        then have "created_before_insert (forest_tags []) {}
            (D (shadowView (news ! j)) [] (kids (news ! j)))"
          by (rule less)
        then have "created_before_insert ?T {} (D (shadowView (news ! j)) [] (kids (news ! j)))"
          by (rule cbi_mono) (simp_all add: forest_tags_def)
        then show "created_before_insert ?T {}
           (if find_TinyMap (vtag (news ! j)) ip3 = None then []
            else D (shadowView (news ! j)) [] (kids (news ! j)))"
          by simp
      qed
      then show ?thesis by (rule cbi_mono) simp_all
    qed
    have ins: "created_before_insert ?T C (inserts_from parent news L)"
      if C: "created (creates_from news L ip3) \<subseteq> C" for C
    proof (rule cbi_inserts)
      fix j assume j: "L \<le> j" "j < length news"
      show "shadowView (news ! j) \<in> C \<or> vtag (news ! j) \<in> ?T"
      proof (cases "find_TinyMap (vtag (news ! j)) ip3 = None")
        case False
        with j have "CreateMutation (shadowView (news ! j)) \<in> set (creates_from news L ip3)"
          by (auto simp: creates_from_set)
        with C show ?thesis by (auto simp: created_def)
      next
        case True
        have slot: "j - L < length ip2" "fst (ip2 ! (j - L)) = vtag (news ! j)"
          using inserted_map_nth[OF j] by (simp_all add: ip2_def)
        from insertedPairs_at_key[of L "length olds - L" olds "j - L" ip2] L_le slot
        have "fst (ip3 ! (j - L)) = vtag (news ! j) \<or> vtag (news ! j) \<in> vtag ` set olds"
          by (auto simp: ip3_def)
        moreover have "fst (ip3 ! (j - L)) \<noteq> vtag (news ! j)"
        proof
          assume "fst (ip3 ! (j - L)) = vtag (news ! j)"
          moreover have "j - L < length ip3" using slot by (simp add: ip3_def)
          ultimately have "vtag (news ! j) \<in> fst ` set ip3"
            by (metis image_eqI nth_mem)
          with True show False by (simp add: find_TinyMap_None_iff)
        qed
        ultimately have "vtag (news ! j) \<in> vtag ` set olds" by simp
        then have "vtag (news ! j) \<in> ?T"
          using forest_tags_top[of _ olds0] by (auto simp: olds_def)
        then show ?thesis by simp
      qed
    qed
    show ?thesis
      unfolding D_nonempty[OF False] Let_def olds_def[symmetric] news_def[symmetric]
        L_def[symmetric] ip2_def[symmetric] ip3_def[symmetric]
      by (simp add: cbi_append dd1 dd3 dw1 dw3 dw4) (rule ins, auto)
  qed
qed

section \<open>The driver returns when no inserted tag is zero\<close>

definition total_below :: "nat \<Rightarrow> bool" where
  "total_below W \<longleftrightarrow>
     (\<forall>ms p os ns. pairs_weight os + pairs_weight ns < W \<longrightarrow> 0 \<notin> forest_tags ns \<longrightarrow>
        calculateShadowViewMutations ms p os ns \<noteq> None)"

lemma total_belowD:
  "total_below W \<Longrightarrow> pairs_weight os + pairs_weight ns < W \<Longrightarrow> 0 \<notin> forest_tags ns \<Longrightarrow>
     \<exists>r. calculateShadowViewMutations ms p os ns = Some r"
  unfolding total_below_def by blast

lemma forest_tags_kids_nonzero:
  "0 \<notin> forest_tags ps \<Longrightarrow> q \<in> set ps \<Longrightarrow> 0 \<notin> forest_tags (kids q)"
  using forest_tags_kids[of q ps] by auto

lemma stage1_total:
  assumes W: "total_below W" and le: "pairs_weight olds + pairs_weight news \<le> W"
    and nz: "0 \<notin> forest_tags news"
  shows "stage1 parent olds news i s \<noteq> None"
proof (induction "length olds - i" arbitrary: i s)
  case 0
  then show ?case by (simp add: stage1_done)
next
  case (Suc k)
  then have i: "i < length olds" by simp
  show ?case
  proof (cases "i < length news \<and> vtag (olds ! i) = vtag (news ! i)")
    case False
    then show ?thesis by (simp add: stage1_done)
  next
    case True
    have wt: "pairs_weight (kids (olds ! i)) + pairs_weight (kids (news ! i)) < W"
      using kids_weight_lt2[of "olds ! i" olds "news ! i" news] i True le by simp
    have nzk: "0 \<notin> forest_tags (kids (news ! i))"
      using forest_tags_kids_nonzero[OF nz, of "news ! i"] True by simp
    have k: "k = length olds - Suc i" using Suc(2) by simp
    show ?thesis
    proof (cases "kids (news ! i) = []")
      case e: True
      from total_belowD[OF W wt nzk] obtain r where
        "calculateShadowViewMutations
          (destructiveDownwardMutations (stage1_update parent olds news i s))
          (shadowView (olds ! i)) (kids (olds ! i)) (kids (news ! i)) = Some r" by blast
      with Suc(1)[OF k] i True e show ?thesis
        by (simp add: stage1_step_destructive)
    next
      case e: False
      from total_belowD[OF W wt nzk] obtain r where
        "calculateShadowViewMutations
          (downwardMutations (stage1_update parent olds news i s))
          (shadowView (olds ! i)) (kids (olds ! i)) (kids (news ! i)) = Some r" by blast
      with Suc(1)[OF k] i True e show ?thesis
        by (simp add: stage1_step_downward)
    qed
  qed
qed

lemma stage2_total:
  "(\<And>j. i \<le> j \<Longrightarrow> j < length news \<Longrightarrow> vtag (news ! j) \<noteq> 0) \<Longrightarrow>
     stage2 parent news i ip s \<noteq> None"
proof (induction "length news - i" arbitrary: i ip s)
  case 0
  then show ?case by (simp add: stage2_done)
next
  case (Suc k)
  then have i: "i < length news" and k: "k = length news - Suc i" by simp_all
  have "vtag (news ! i) \<noteq> 0" using Suc.prems i by simp
  moreover have "stage2 parent news (Suc i) (ip @ [(vtag (news ! i), news ! i)])
               (s\<lparr>insertMutations := insertMutations s @
                    [InsertMutation parent (shadowView (news ! i)) (int i)]\<rparr>) \<noteq> None"
    using Suc(1)[OF k] Suc.prems by simp
  ultimately show ?case using i by (simp add: stage2_step)
qed

lemma stage3_total:
  assumes W: "total_below W"
  shows "pairs_weight olds + pairs_weight (map snd ip) \<le> W \<Longrightarrow>
     (\<And>n. n \<in> snd ` set ip \<Longrightarrow> 0 \<notin> forest_tags (kids n)) \<Longrightarrow>
     stage3 parent olds i ip s \<noteq> None"
proof (induction "length olds - i" arbitrary: i ip s)
  case 0
  then show ?case by (simp add: stage3_done)
next
  case (Suc m)
  then have i: "i < length olds" and m: "m = length olds - Suc i" by simp_all
  let ?s1 = "stage3_remove parent olds i s"
  show ?case
  proof (cases "find_TinyMap (vtag (olds ! i)) ip")
    case None
    have "pairs_weight (kids (olds ! i)) + pairs_weight [] < W"
      using kids_weight_lt[of "olds ! i" olds] i Suc.prems(1) by simp
    from total_belowD[OF W this] obtain r where
      "calculateShadowViewMutations (destructiveDownwardMutations ?s1)
            (shadowView (olds ! i)) (kids (olds ! i)) [] = Some r"
      by (auto simp: forest_tags_def)
    with Suc(1)[OF m Suc.prems(1)] Suc.prems(2) i None show ?thesis
      by (simp add: stage3_step_delete)
  next
    case (Some k)
    from find_TinyMap_Some[OF Some] have k: "k < length ip" by simp
    let ?n = "snd (ip ! k)"
    have nmem: "?n \<in> set (map snd ip)" using k by (metis length_map nth_map nth_mem)
    have wt: "pairs_weight (kids (olds ! i)) + pairs_weight (kids ?n) < W"
      using kids_weight_lt2[of "olds ! i" olds ?n "map snd ip"] i nmem Suc.prems(1) by simp
    have nzk: "0 \<notin> forest_tags (kids ?n)" using Suc.prems(2) nmem by simp
    have vals: "map snd (ip[k := (0, snd (ip ! k))]) = map snd ip"
      using tm_step_values[of "olds ! i" ip] by (simp add: tm_step_Some[OF Some])
    have w': "pairs_weight olds + pairs_weight (map snd (ip[k := (0, snd (ip ! k))])) \<le> W"
      using Suc.prems(1) vals by simp
    have nz': "\<And>n. n \<in> snd ` set (ip[k := (0, snd (ip ! k))]) \<Longrightarrow> 0 \<notin> forest_tags (kids n)"
      using Suc.prems(2) vals by (metis set_map)
    have "\<exists>s2. (if pair_ne ?n (olds ! i) then
          if kids ?n \<noteq> []
          then calculateShadowViewMutations (downwardMutations ?s1)
                 (shadowView ?n) (kids (olds ! i)) (kids ?n) \<bind>
               (\<lambda>d. Some (?s1\<lparr>downwardMutations := d\<rparr>))
          else calculateShadowViewMutations (destructiveDownwardMutations ?s1)
                 (shadowView ?n) (kids (olds ! i)) (kids ?n) \<bind>
               (\<lambda>d. Some (?s1\<lparr>destructiveDownwardMutations := d\<rparr>))
        else Some ?s1) = Some s2"
      using total_belowD[OF W wt nzk, of "downwardMutations ?s1" "shadowView ?n"]
        total_belowD[OF W wt nzk, of "destructiveDownwardMutations ?s1" "shadowView ?n"]
      by auto
    then obtain s2 where "(if pair_ne ?n (olds ! i) then
          if kids ?n \<noteq> []
          then calculateShadowViewMutations (downwardMutations ?s1)
                 (shadowView ?n) (kids (olds ! i)) (kids ?n) \<bind>
               (\<lambda>d. Some (?s1\<lparr>downwardMutations := d\<rparr>))
          else calculateShadowViewMutations (destructiveDownwardMutations ?s1)
                 (shadowView ?n) (kids (olds ! i)) (kids ?n) \<bind>
               (\<lambda>d. Some (?s1\<lparr>destructiveDownwardMutations := d\<rparr>))
        else Some ?s1) = Some s2" ..
    with Suc(1)[OF m w' nz'] i Some show ?thesis
      by (simp add: stage3_step_reinsert)
  qed
qed

lemma stage4_total:
  assumes W: "total_below W" and le: "pairs_weight news \<le> W" and nz: "0 \<notin> forest_tags news"
  shows "stage4 parent news i ip s \<noteq> None"
proof (induction "length news - i" arbitrary: i s)
  case 0
  then show ?case by (simp add: stage4_done)
next
  case (Suc m)
  then have i: "i < length news" and m: "m = length news - Suc i" by simp_all
  show ?case
  proof (cases "find_TinyMap (vtag (news ! i)) ip")
    case None
    with Suc(1)[OF m] i show ?thesis by (simp add: stage4_step_skip)
  next
    case (Some k)
    have "pairs_weight [] + pairs_weight (kids (news ! i)) < W"
      using kids_weight_lt[of "news ! i" news] i le by simp
    from total_belowD[OF W this forest_tags_kids_nonzero[OF nz]] i obtain r where
      "calculateShadowViewMutations (downwardMutations s) (shadowView (news ! i)) []
            (kids (news ! i)) = Some r" by auto
    with Suc(1)[OF m] i Some show ?thesis by (simp add: stage4_step_create[OF i Some])
  qed
qed

lemma calculateShadowViewMutations_total:
  "0 \<notin> forest_tags news0 \<Longrightarrow> calculateShadowViewMutations ms parent olds0 news0 \<noteq> None"
proof (induction "pairs_weight olds0 + pairs_weight news0"
    arbitrary: ms parent olds0 news0 rule: less_induct)
  case less
  show ?case
  proof (cases "olds0 = [] \<and> news0 = []")
    case True
    then show ?thesis by simp
  next
    case False
    define olds where "olds = reorderInPlaceIfNeeded olds0"
    define news where "news = reorderInPlaceIfNeeded news0"
    define W where "W = pairs_weight olds0 + pairs_weight news0"
    have W: "total_below W"
      unfolding total_below_def W_def using less.hyps by blast
    have wo: "pairs_weight olds = pairs_weight olds0" and wn: "pairs_weight news = pairs_weight news0"
      by (simp_all add: olds_def news_def pairs_weight_reorder)
    have nz: "0 \<notin> forest_tags news" using less.prems by (simp add: news_def)
    obtain L s1 where st1: "stage1 parent olds news 0 emptyLocals = Some (L, s1)"
      using stage1_total[OF W _ nz, of olds parent 0 emptyLocals] by (auto simp: W_def wo wn)
    have nzj: "vtag (news ! j) \<noteq> 0" if "j < length news" for j
      using nz forest_tags_top[of "news ! j" news] that by auto
    obtain ip2 s2 where st2: "stage2 parent news L [] s1 = Some (ip2, s2)"
      using stage2_total[of L news parent "[]" s1] nzj by auto
    from stage2_sound[OF st2] have ip2: "ip2 = inserted_map news L" by simp
    have vals: "map snd ip2 = drop L news" by (simp add: ip2 inserted_map_def comp_def)
    have "pairs_weight olds + pairs_weight (map snd ip2) \<le> W"
      using pairs_weight_drop_le[of L news] by (simp add: W_def wo wn vals)
    moreover have "\<And>n. n \<in> snd ` set ip2 \<Longrightarrow> 0 \<notin> forest_tags (kids n)"
    proof -
      fix n assume "n \<in> snd ` set ip2"
      then have "n \<in> set (drop L news)" using vals by (metis set_map)
      then have "n \<in> set news" by (rule in_set_dropD)
      then show "0 \<notin> forest_tags (kids n)" by (rule forest_tags_kids_nonzero[OF nz])
    qed
    ultimately obtain ip3 s3 where st3: "stage3 parent olds L ip2 s2 = Some (ip3, s3)"
      using stage3_total[OF W, of olds ip2 parent L s2] by auto
    obtain s4 where st4: "stage4 parent news L ip3 s3 = Some s4"
      using stage4_total[OF W _ nz, of parent L ip3 s3] by (auto simp: W_def wn)
    show ?thesis
      using False st1 st2 st3 st4
      by (simp add: calculateShadowViewMutations_unfold olds_def [symmetric] news_def [symmetric])
  qed
qed

lemma calculateShadowViewMutations_closed:
  "0 \<notin> forest_tags news0 \<Longrightarrow>
     calculateShadowViewMutations ms parent olds0 news0 = Some (ms @ D parent olds0 news0)"
  using calculateShadowViewMutations_total[of news0 ms parent olds0]
    calculateShadowViewMutations_sound[of ms parent olds0 news0] by auto

section \<open>Host tree\<close>

text \<open>
  Modelled from the spec: the mounting layer that consumes the mutations is not among the
  sources. The host keeps, by tag, the view it has mounted and the tags of its children
  in order. \<^verbatim>\<open>Create\<close> allocates a view without children for a tag the host does not
  have; \<^verbatim>\<open>Delete\<close> releases a view that has no children left; \<^verbatim>\<open>Insert\<close> attaches a child
  that the host has at the index under the parent, and leaves the child's view as the host
  has it; \<^verbatim>\<open>Remove\<close> detaches the child that is at the index; \<^verbatim>\<open>Update\<close>, and only it,
  replaces the old view in place. A mutation that refers to a view the host
  does not have, or to an index out of range, does not apply: \<open>None\<close>.
\<close>

record Host =
  mounted :: "Tag \<rightharpoonup> ShadowView"
  childTags :: "Tag \<rightharpoonup> Tag list"

fun apply_mutation :: "ShadowViewMutation \<Rightarrow> Host \<Rightarrow> Host option" where
  "apply_mutation (CreateMutation v) h =
     (if mounted h (tag v) = None \<and> childTags h (tag v) = None
      then Some (h\<lparr>mounted := (mounted h)(tag v \<mapsto> v), childTags := (childTags h)(tag v \<mapsto> [])\<rparr>)
      else None)"
| "apply_mutation (DeleteMutation v) h =
     (if mounted h (tag v) = Some v \<and> childTags h (tag v) = Some []
      then Some (h\<lparr>mounted := (mounted h)(tag v := None), childTags := (childTags h)(tag v := None)\<rparr>)
      else None)"
| "apply_mutation (InsertMutation p c i) h =
     (case childTags h (tag p) of
        None \<Rightarrow> None
      | Some cs \<Rightarrow>
          if 0 \<le> i \<and> nat i \<le> length cs \<and> mounted h (tag c) \<noteq> None
          then Some (h\<lparr>childTags := (childTags h)(tag p \<mapsto> take (nat i) cs @ tag c # drop (nat i) cs)\<rparr>)
          else None)"
| "apply_mutation (RemoveMutation p c i) h =
     (case childTags h (tag p) of
        None \<Rightarrow> None
      | Some cs \<Rightarrow>
          if 0 \<le> i \<and> nat i < length cs \<and> cs ! nat i = tag c
          then Some (h\<lparr>childTags := (childTags h)(tag p \<mapsto> take (nat i) cs @ drop (Suc (nat i)) cs)\<rparr>)
          else None)"
| "apply_mutation (UpdateMutation p old new i) h =
     (if mounted h (tag old) = Some old \<and> tag new = tag old
      then Some (h\<lparr>mounted := (mounted h)(tag old \<mapsto> new)\<rparr>)
      else None)"

fun apply_mutations :: "ShadowViewMutation list \<Rightarrow> Host \<Rightarrow> Host option" where
  "apply_mutations [] h = Some h"
| "apply_mutations (m # ms) h = apply_mutation m h \<bind> apply_mutations ms"

text \<open>The host that mirrors a tree: every node of the tree, by its tag.\<close>

fun nodes :: "HostView \<Rightarrow> HostView list" where
  "nodes (HostView v cs) = HostView v cs # concat (map nodes cs)"

abbreviation htag :: "HostView \<Rightarrow> Tag" where
  "htag n \<equiv> tag (hostView n)"

definition mounted_of :: "HostView list \<Rightarrow> Tag \<rightharpoonup> ShadowView" where
  "mounted_of forest = map_of (map (\<lambda>n. (htag n, hostView n)) (concat (map nodes forest)))"

definition childTags_of :: "HostView list \<Rightarrow> Tag \<rightharpoonup> Tag list" where
  "childTags_of forest =
     map_of (map (\<lambda>n. (htag n, map htag (hostChildren n))) (concat (map nodes forest)))"

definition host_of :: "HostView \<Rightarrow> Host" where
  "host_of T = \<lparr>mounted = mounted_of [T], childTags = childTags_of [T]\<rparr>"

section \<open>The host, cell by cell\<close>

text \<open>
  A mutation reads and writes the two entries of each tag independently of the entries
  of the other tags: \<open>stepV\<close> and \<open>stepC\<close> are what it does to the view and to the child
  list of tag \<open>t\<close>; the outer \<open>None\<close> says that the mutation does not apply.
\<close>

fun stepV :: "ShadowViewMutation \<Rightarrow> Tag \<Rightarrow> ShadowView option \<Rightarrow> ShadowView option option" where
  "stepV (CreateMutation v) t x =
     (if t = tag v then (if x = None then Some (Some v) else None) else Some x)"
| "stepV (DeleteMutation v) t x =
     (if t = tag v then (if x = Some v then Some None else None) else Some x)"
| "stepV (InsertMutation p c i) t x =
     (if t = tag c then (if x \<noteq> None then Some x else None) else Some x)"
| "stepV (RemoveMutation p c i) t x = Some x"
| "stepV (UpdateMutation p old new i) t x =
     (if t = tag old then (if x = Some old \<and> tag new = tag old then Some (Some new) else None)
      else Some x)"

fun stepC :: "ShadowViewMutation \<Rightarrow> Tag \<Rightarrow> Tag list option \<Rightarrow> Tag list option option" where
  "stepC (CreateMutation v) t x =
     (if t = tag v then (if x = None then Some (Some []) else None) else Some x)"
| "stepC (DeleteMutation v) t x =
     (if t = tag v then (if x = Some [] then Some None else None) else Some x)"
| "stepC (InsertMutation p c i) t x =
     (if t = tag p then
        (case x of
           None \<Rightarrow> None
         | Some cs \<Rightarrow> if 0 \<le> i \<and> nat i \<le> length cs
                      then Some (Some (take (nat i) cs @ tag c # drop (nat i) cs)) else None)
      else Some x)"
| "stepC (RemoveMutation p c i) t x =
     (if t = tag p then
        (case x of
           None \<Rightarrow> None
         | Some cs \<Rightarrow> if 0 \<le> i \<and> nat i < length cs \<and> cs ! nat i = tag c
                      then Some (Some (take (nat i) cs @ drop (Suc (nat i)) cs)) else None)
      else Some x)"
| "stepC (UpdateMutation p old new i) t x = Some x"

fun runV :: "ShadowViewMutation list \<Rightarrow> Tag \<Rightarrow> ShadowView option \<Rightarrow> ShadowView option option" where
  "runV [] t x = Some x"
| "runV (m # ms) t x = stepV m t x \<bind> runV ms t"

fun runC :: "ShadowViewMutation list \<Rightarrow> Tag \<Rightarrow> Tag list option \<Rightarrow> Tag list option option" where
  "runC [] t x = Some x"
| "runC (m # ms) t x = stepC m t x \<bind> runC ms t"

lemma apply_mutation_cells:
  assumes "\<And>t. stepV m t (mounted h t) = Some (V t)"
    and "\<And>t. stepC m t (childTags h t) = Some (C t)"
  shows "apply_mutation m h = Some \<lparr>mounted = V, childTags = C\<rparr>"
proof (cases m)
  case (CreateMutation v)
  from assms(1)[of "tag v"] assms(2)[of "tag v"] have "mounted h (tag v) = None" "childTags h (tag v) = None"
    by (auto simp: CreateMutation split: if_splits)
  moreover have "V = (mounted h)(tag v \<mapsto> v)"
  proof (rule ext)
    fix t show "V t = ((mounted h)(tag v \<mapsto> v)) t"
      using assms(1)[of t] by (auto simp: CreateMutation split: if_splits)
  qed
  moreover have "C = (childTags h)(tag v \<mapsto> [])"
  proof (rule ext)
    fix t show "C t = ((childTags h)(tag v \<mapsto> [])) t"
      using assms(2)[of t] by (auto simp: CreateMutation split: if_splits)
  qed
  ultimately show ?thesis by (simp add: CreateMutation)
next
  case (DeleteMutation v)
  from assms(1)[of "tag v"] assms(2)[of "tag v"] have "mounted h (tag v) = Some v" "childTags h (tag v) = Some []"
    by (auto simp: DeleteMutation split: if_splits)
  moreover have "V = (mounted h)(tag v := None)"
  proof (rule ext)
    fix t show "V t = ((mounted h)(tag v := None)) t"
      using assms(1)[of t] by (auto simp: DeleteMutation split: if_splits)
  qed
  moreover have "C = (childTags h)(tag v := None)"
  proof (rule ext)
    fix t show "C t = ((childTags h)(tag v := None)) t"
      using assms(2)[of t] by (auto simp: DeleteMutation split: if_splits)
  qed
  ultimately show ?thesis by (simp add: DeleteMutation)
next
  case (InsertMutation p c i)
  from assms(2)[of "tag p"] obtain cs where cs: "childTags h (tag p) = Some cs" "0 \<le> i" "nat i \<le> length cs"
    by (auto simp: InsertMutation split: if_splits option.splits)
  have "mounted h (tag c) \<noteq> None"
  proof
    assume "mounted h (tag c) = None"
    with assms(1)[of "tag c"] show False by (simp add: InsertMutation)
  qed
  moreover have "V = mounted h"
  proof (rule ext)
    fix t show "V t = mounted h t"
      using assms(1)[of t] by (auto simp: InsertMutation split: if_splits)
  qed
  moreover have "C = (childTags h)(tag p \<mapsto> take (nat i) cs @ tag c # drop (nat i) cs)"
  proof (rule ext)
    fix t show "C t = ((childTags h)(tag p \<mapsto> take (nat i) cs @ tag c # drop (nat i) cs)) t"
      using assms(2)[of t] cs by (auto simp: InsertMutation split: if_splits)
  qed
  ultimately show ?thesis using cs by (simp add: InsertMutation)
next
  case (RemoveMutation p c i)
  from assms(2)[of "tag p"] obtain cs where cs: "childTags h (tag p) = Some cs" "0 \<le> i" "nat i < length cs"
    "cs ! nat i = tag c"
    by (auto simp: RemoveMutation split: if_splits option.splits)
  have "V = mounted h"
  proof (rule ext)
    fix t show "V t = mounted h t"
      using assms(1)[of t] by (auto simp: RemoveMutation)
  qed
  moreover have "C = (childTags h)(tag p \<mapsto> take (nat i) cs @ drop (Suc (nat i)) cs)"
  proof (rule ext)
    fix t show "C t = ((childTags h)(tag p \<mapsto> take (nat i) cs @ drop (Suc (nat i)) cs)) t"
      using assms(2)[of t] cs by (auto simp: RemoveMutation split: if_splits)
  qed
  ultimately show ?thesis using cs by (simp add: RemoveMutation)
next
  case (UpdateMutation p old new i)
  from assms(1)[of "tag old"] have "mounted h (tag old) = Some old" "tag new = tag old"
    by (auto simp: UpdateMutation split: if_splits)
  moreover have "V = (mounted h)(tag old \<mapsto> new)"
  proof (rule ext)
    fix t show "V t = ((mounted h)(tag old \<mapsto> new)) t"
      using assms(1)[of t] by (auto simp: UpdateMutation split: if_splits)
  qed
  moreover have "C = childTags h"
  proof (rule ext)
    fix t show "C t = childTags h t"
      using assms(2)[of t] by (auto simp: UpdateMutation)
  qed
  ultimately show ?thesis by (simp add: UpdateMutation)
qed

lemma apply_mutations_cells:
  "(\<And>t. runV ms t (mounted h t) = Some (V t)) \<Longrightarrow>
   (\<And>t. runC ms t (childTags h t) = Some (C t)) \<Longrightarrow>
     apply_mutations ms h = Some \<lparr>mounted = V, childTags = C\<rparr>"
proof (induction ms arbitrary: h)
  case Nil
  then have "mounted h = V" "childTags h = C" by (auto simp: fun_eq_iff)
  then show ?case by simp
next
  case (Cons m ms)
  define V1 where "V1 t = the (stepV m t (mounted h t))" for t
  define C1 where "C1 t = the (stepC m t (childTags h t))" for t
  have v1: "stepV m t (mounted h t) = Some (V1 t)" and rv: "runV ms t (V1 t) = Some (V t)" for t
    using Cons.prems(1)[of t] by (auto simp: V1_def bind_eq_Some_conv)
  have c1: "stepC m t (childTags h t) = Some (C1 t)" and rc: "runC ms t (C1 t) = Some (C t)" for t
    using Cons.prems(2)[of t] by (auto simp: C1_def bind_eq_Some_conv)
  have "apply_mutation m h = Some \<lparr>mounted = V1, childTags = C1\<rparr>"
    by (rule apply_mutation_cells) (rule v1, rule c1)
  moreover have "apply_mutations ms \<lparr>mounted = V1, childTags = C1\<rparr> = Some \<lparr>mounted = V, childTags = C\<rparr>"
    by (rule Cons.IH) (simp_all add: rv rc)
  ultimately show ?case by simp
qed

lemma runV_append: "runV (a @ b) t x = runV a t x \<bind> runV b t"
proof (induction a arbitrary: x)
  case (Cons m a)
  then show ?case by (cases "stepV m t x") simp_all
qed simp

lemma runC_append: "runC (a @ b) t x = runC a t x \<bind> runC b t"
proof (induction a arbitrary: x)
  case (Cons m a)
  then show ?case by (cases "stepC m t x") simp_all
qed simp

section \<open>Cells of the host\<close>

text \<open>The view and the child list of one tag, taken together.\<close>

type_synonym Cell = "ShadowView option \<times> Tag list option"

definition step :: "ShadowViewMutation \<Rightarrow> Tag \<Rightarrow> Cell \<Rightarrow> Cell option" where
  "step m t c =
     (case stepV m t (fst c) of
        None \<Rightarrow> None
      | Some v \<Rightarrow> (case stepC m t (snd c) of None \<Rightarrow> None | Some cs \<Rightarrow> Some (v, cs)))"

fun run :: "ShadowViewMutation list \<Rightarrow> Tag \<Rightarrow> Cell \<Rightarrow> Cell option" where
  "run [] t c = Some c"
| "run (m # ms) t c = step m t c \<bind> run ms t"

fun touch :: "ShadowViewMutation \<Rightarrow> Tag set" where
  "touch (CreateMutation v) = {tag v}"
| "touch (DeleteMutation v) = {tag v}"
| "touch (InsertMutation p c i) = {tag p, tag c}"
| "touch (RemoveMutation p c i) = {tag p}"
| "touch (UpdateMutation p old new i) = {tag old}"

definition touched :: "ShadowViewMutation list \<Rightarrow> Tag set" where
  "touched ms = (\<Union>m \<in> set ms. touch m)"

lemma touched_simps [simp]:
  "touched [] = {}"
  "touched (m # ms) = touch m \<union> touched ms"
  "touched (a @ b) = touched a \<union> touched b"
  "touched (rev a) = touched a"
  "touched (concat xss) = (\<Union>xs \<in> set xss. touched xs)"
  by (auto simp: touched_def)

lemma run_iff:
  "run ms t (v, c) = Some (v', c') \<longleftrightarrow> runV ms t v = Some v' \<and> runC ms t c = Some c'"
proof (induction ms arbitrary: v c)
  case Nil
  then show ?case by auto
next
  case (Cons m ms)
  show ?case
  proof (cases "stepV m t v")
    case None
    then show ?thesis by (simp add: step_def)
  next
    case v1: (Some v1)
    show ?thesis
    proof (cases "stepC m t c")
      case None
      then show ?thesis by (simp add: step_def v1)
    next
      case (Some c1)
      with v1 Cons.IH[of v1 c1] show ?thesis by (simp add: step_def)
    qed
  qed
qed

lemma step_untouched: "t \<notin> touch m \<Longrightarrow> step m t c = Some c"
  by (cases m) (auto simp: step_def)

lemma run_untouched: "t \<notin> touched ms \<Longrightarrow> run ms t c = Some c"
  by (induction ms) (simp_all add: step_untouched)

lemma run_append: "run (a @ b) t c = run a t c \<bind> run b t"
proof (induction a arbitrary: c)
  case (Cons m a)
  then show ?case by (cases "step m t c") simp_all
qed simp

lemma run_append_Some: "run a t c = Some c' \<Longrightarrow> run (a @ b) t c = run b t c'"
  by (simp add: run_append)

lemma run_concat_none:
  "(\<And>i. i \<in> set js \<Longrightarrow> t \<notin> touched (f i)) \<Longrightarrow> run (concat (map f js)) t c = Some c"
  by (rule run_untouched) auto

lemma run_concat_one:
  assumes "j \<in> set js" "distinct js" "\<And>i. i \<in> set js \<Longrightarrow> i \<noteq> j \<Longrightarrow> t \<notin> touched (f i)"
  shows "run (concat (map f js)) t c = run (f j) t c"
proof -
  from assms(1) obtain xs ys where js: "js = xs @ j # ys" by (auto simp: in_set_conv_decomp)
  with assms(2) have "j \<notin> set xs" "j \<notin> set ys" by auto
  with assms(3) js have x: "t \<notin> touched (concat (map f xs))" and y: "t \<notin> touched (concat (map f ys))"
    by auto
  have "run (concat (map f js)) t c = run (concat (map f xs) @ f j @ concat (map f ys)) t c"
    by (simp add: js)
  also have "\<dots> = run (f j @ concat (map f ys)) t c"
    by (simp add: run_append_Some[OF run_untouched[OF x]])
  also have "\<dots> = run (f j) t c"
  proof (cases "run (f j) t c")
    case None
    then show ?thesis by (simp add: run_append)
  next
    case (Some c')
    then show ?thesis by (simp add: run_append run_untouched[OF y])
  qed
  finally show ?thesis .
qed

lemma step_Create: "step (CreateMutation v) (tag v) (None, None) = Some (Some v, Some [])"
  by (simp add: step_def)

lemma step_Delete: "step (DeleteMutation v) (tag v) (Some v, Some []) = Some (None, None)"
  by (simp add: step_def)

lemma step_Update:
  "tag new = tag old \<Longrightarrow>
     step (UpdateMutation p old new i) (tag old) (Some old, c) = Some (Some new, c)"
  by (simp add: step_def)

lemma step_Insert_child:
  "tag p \<noteq> tag c \<Longrightarrow> step (InsertMutation p c i) (tag c) (Some v, cs) = Some (Some v, cs)"
  by (simp add: step_def)

lemma step_Insert_parent:
  "tag p \<noteq> tag c \<Longrightarrow> i \<le> length cs \<Longrightarrow>
     step (InsertMutation p c (int i)) (tag p) (v, Some cs) =
       Some (v, Some (take i cs @ tag c # drop i cs))"
  by (simp add: step_def)

lemma step_Remove_parent:
  "i < length cs \<Longrightarrow> cs ! i = tag c \<Longrightarrow>
     step (RemoveMutation p c (int i)) (tag p) (v, Some cs) =
       Some (v, Some (take i cs @ drop (Suc i) cs))"
  by (simp add: step_def)

section \<open>Nodes of a host tree\<close>

definition ftags :: "HostView list \<Rightarrow> Tag set" where
  "ftags forest = (\<Union>n \<in> set forest. set (tags_of n))"

definition cell_of :: "HostView list \<Rightarrow> Tag \<Rightarrow> Cell" where
  "cell_of forest t = (mounted_of forest t, childTags_of forest t)"

lemma tags_of_nodes: "tags_of T = map htag (nodes T)"
proof (induction T)
  case (HostView v cs)
  then show ?case by (simp add: map_concat comp_def cong: map_cong)
qed

lemma tags_of_unfold: "tags_of T = htag T # concat (map tags_of (hostChildren T))"
  by (cases T) simp

lemma nodes_unfold: "nodes T = T # concat (map nodes (hostChildren T))"
  by (cases T) simp

lemma nodes_self [simp]: "T \<in> set (nodes T)"
  by (subst nodes_unfold) simp

lemma nodes_child: "c \<in> set (hostChildren T) \<Longrightarrow> set (nodes c) \<subseteq> set (nodes T)"
  by (subst (2) nodes_unfold) auto

lemma nodes_trans: "n \<in> set (nodes T) \<Longrightarrow> set (nodes n) \<subseteq> set (nodes T)"
proof (induction T)
  case (HostView v cs)
  show ?case
  proof (cases "n = HostView v cs")
    case False
    with HostView.prems obtain c where c: "c \<in> set cs" "n \<in> set (nodes c)" by auto
    with HostView.IH[of c] have "set (nodes n) \<subseteq> set (nodes c)" by simp
    with c show ?thesis by auto
  qed simp
qed

lemma nodes_cases:
  "n \<in> set (nodes T) \<Longrightarrow> n = T \<or> (\<exists>pn \<in> set (nodes T). n \<in> set (hostChildren pn))"
proof (induction T)
  case (HostView v cs)
  show ?case
  proof (cases "n = HostView v cs")
    case False
    with HostView.prems obtain c where c: "c \<in> set cs" "n \<in> set (nodes c)" by auto
    from HostView.IH[OF c] show ?thesis
    proof
      assume "n = c"
      with c have "n \<in> set (hostChildren (HostView v cs))" by simp
      then show ?thesis using nodes_self[of "HostView v cs"] by blast
    next
      assume "\<exists>pn\<in>set (nodes c). n \<in> set (hostChildren pn)"
      then obtain pn where pn: "pn \<in> set (nodes c)" "n \<in> set (hostChildren pn)" by auto
      with c have "pn \<in> set (nodes (HostView v cs))" by auto
      with pn show ?thesis by blast
    qed
  qed simp
qed

lemma tags_of_node: "n \<in> set (nodes T) \<Longrightarrow> set (tags_of n) \<subseteq> set (tags_of T)"
  using nodes_trans[of n T] by (auto simp: tags_of_nodes)

lemma tags_of_child: "c \<in> set (hostChildren T) \<Longrightarrow> set (tags_of c) \<subseteq> set (tags_of T)"
  using nodes_child[of c T] by (auto simp: tags_of_nodes)

lemma htag_in_tags: "htag T \<in> set (tags_of T)"
  by (subst tags_of_unfold) simp

lemma node_unique:
  "distinct (tags_of T) \<Longrightarrow> n \<in> set (nodes T) \<Longrightarrow> n' \<in> set (nodes T) \<Longrightarrow> htag n = htag n' \<Longrightarrow>
     n = n'"
  unfolding tags_of_nodes by (auto simp: distinct_map dest: inj_onD)

lemma ftags_children: "set (tags_of T) = insert (htag T) (ftags (hostChildren T))"
  by (subst tags_of_unfold) (simp add: ftags_def)

lemma distinct_concat_disjoint:
  "distinct (concat xss) \<Longrightarrow> i < length xss \<Longrightarrow> j < length xss \<Longrightarrow> i \<noteq> j \<Longrightarrow>
     set (xss ! i) \<inter> set (xss ! j) = {}"
proof (induction xss arbitrary: i j)
  case Nil
  then show ?case by simp
next
  case (Cons xs xss)
  from Cons.prems(1) have d: "distinct (concat xss)" "set xs \<inter> set (concat xss) = {}" by auto
  show ?case
  proof (cases i)
    case 0
    with Cons.prems obtain j' where j': "j = Suc j'" "j' < length xss" by (cases j) auto
    then have "xss ! j' \<in> set xss" by simp
    then have "set (xss ! j') \<subseteq> set (concat xss)" by auto
    with d(2) 0 j' show ?thesis by auto
  next
    case (Suc i')
    show ?thesis
    proof (cases j)
      case 0
      from Suc Cons.prems have "xss ! i' \<in> set xss" by simp
      then have "set (xss ! i') \<subseteq> set (concat xss)" by auto
      with d(2) 0 Suc show ?thesis by auto
    next
      case j': (Suc j')
      with Suc Cons.prems Cons.IH[OF d(1), of i' j'] show ?thesis by simp
    qed
  qed
qed

lemma distinct_children:
  assumes "distinct (tags_of T)"
  shows "htag T \<notin> ftags (hostChildren T)"
    and "distinct (map htag (hostChildren T))"
    and "\<And>c. c \<in> set (hostChildren T) \<Longrightarrow> distinct (tags_of c)"
    and "\<And>i j. i < length (hostChildren T) \<Longrightarrow> j < length (hostChildren T) \<Longrightarrow> i \<noteq> j \<Longrightarrow>
           set (tags_of (hostChildren T ! i)) \<inter> set (tags_of (hostChildren T ! j)) = {}"
proof -
  from assms have d: "htag T \<notin> set (concat (map tags_of (hostChildren T)))"
    "distinct (concat (map tags_of (hostChildren T)))"
    by (subst (asm) tags_of_unfold, simp)+
  from d(1) show "htag T \<notin> ftags (hostChildren T)" by (simp add: ftags_def)
  show "distinct (tags_of c)" if "c \<in> set (hostChildren T)" for c
    using d(2) that by (auto simp: distinct_concat_iff)
  show c4: "set (tags_of (hostChildren T ! i)) \<inter> set (tags_of (hostChildren T ! j)) = {}"
    if "i < length (hostChildren T)" "j < length (hostChildren T)" "i \<noteq> j" for i j
    using distinct_concat_disjoint[OF d(2), of i j] that by simp
  show "distinct (map htag (hostChildren T))"
    unfolding distinct_conv_nth
  proof (intro allI impI)
    fix i j assume ij: "i < length (map htag (hostChildren T))"
      "j < length (map htag (hostChildren T))" "i \<noteq> j"
    with c4[of i j] htag_in_tags[of "hostChildren T ! i"] htag_in_tags[of "hostChildren T ! j"]
    show "map htag (hostChildren T) ! i \<noteq> map htag (hostChildren T) ! j" by auto
  qed
qed

lemma distinct_node: "distinct (tags_of T) \<Longrightarrow> n \<in> set (nodes T) \<Longrightarrow> distinct (tags_of n)"
proof (induction T)
  case (HostView v cs)
  show ?case
  proof (cases "n = HostView v cs")
    case True
    with HostView.prems show ?thesis by simp
  next
    case False
    with HostView.prems obtain c where c: "c \<in> set cs" "n \<in> set (nodes c)" by auto
    from distinct_children(3)[OF HostView.prems(1), of c] c have "distinct (tags_of c)" by simp
    with HostView.IH[OF c(1) _ c(2)] show ?thesis by simp
  qed
qed

lemma child_tag_below:
  "n \<in> set (nodes T) \<Longrightarrow> c \<in> set (hostChildren n) \<Longrightarrow> htag c \<in> ftags (hostChildren T)"
proof (induction T)
  case (HostView v cs)
  show ?case
  proof (cases "n = HostView v cs")
    case True
    with HostView.prems htag_in_tags[of c] show ?thesis unfolding ftags_def by auto
  next
    case False
    with HostView.prems obtain c' where c': "c' \<in> set cs" "n \<in> set (nodes c')" by auto
    from HostView.IH[OF c' HostView.prems(2)] have "htag c \<in> ftags (hostChildren c')" .
    then have "htag c \<in> set (tags_of c')" by (simp add: ftags_children)
    with c' show ?thesis by (auto simp: ftags_def)
  qed
qed

subsection \<open>The cells of a forest\<close>

lemma mounted_of_Nil [simp]: "mounted_of [] t = None"
  by (simp add: mounted_of_def)

lemma childTags_of_Nil [simp]: "childTags_of [] t = None"
  by (simp add: childTags_of_def)

lemma mounted_of_Cons:
  "mounted_of (s # F) t = (case mounted_of [s] t of None \<Rightarrow> mounted_of F t | Some v \<Rightarrow> Some v)"
  unfolding mounted_of_def by (simp add: map_add_def)

lemma childTags_of_Cons:
  "childTags_of (s # F) t =
     (case childTags_of [s] t of None \<Rightarrow> childTags_of F t | Some v \<Rightarrow> Some v)"
  unfolding childTags_of_def by (simp add: map_add_def)

lemma mounted_of_tree:
  "mounted_of [T] t = (if t = htag T then Some (hostView T) else mounted_of (hostChildren T) t)"
  by (cases T) (simp add: mounted_of_def)

lemma childTags_of_tree:
  "childTags_of [T] t =
     (if t = htag T then Some (map htag (hostChildren T)) else childTags_of (hostChildren T) t)"
  by (cases T) (simp add: childTags_of_def)

lemma dom_mounted_of: "dom (mounted_of F) = ftags F"
  by (simp add: mounted_of_def ftags_def dom_map_of_conv_image_fst tags_of_nodes image_image
      image_UN)

lemma dom_childTags_of: "dom (childTags_of F) = ftags F"
  by (simp add: childTags_of_def ftags_def dom_map_of_conv_image_fst tags_of_nodes image_image
      image_UN)

lemma cell_of_outside: "t \<notin> ftags F \<Longrightarrow> cell_of F t = (None, None)"
  using dom_mounted_of[of F] dom_childTags_of[of F] by (auto simp: cell_of_def)

lemma cell_of_Nil [simp]: "cell_of [] t = (None, None)"
  by (simp add: cell_of_def)

lemma cell_of_member:
  "s \<in> set F \<Longrightarrow> t \<in> set (tags_of s) \<Longrightarrow>
   (\<And>s'. s' \<in> set F \<Longrightarrow> s' \<noteq> s \<Longrightarrow> t \<notin> set (tags_of s')) \<Longrightarrow> cell_of F t = cell_of [s] t"
proof (induction F)
  case Nil
  then show ?case by simp
next
  case (Cons s0 F)
  show ?case
  proof (cases "s0 = s")
    case True
    from Cons.prems(2) have "t \<in> dom (mounted_of [s])" "t \<in> dom (childTags_of [s])"
      by (simp_all add: dom_mounted_of dom_childTags_of ftags_def)
    then show ?thesis
      by (auto simp: cell_of_def True mounted_of_Cons[of s F] childTags_of_Cons[of s F])
  next
    case False
    with Cons.prems have "t \<notin> ftags [s0]" "s \<in> set F" by (auto simp: ftags_def)
    with cell_of_outside[of t "[s0]"] Cons.IH[OF \<open>s \<in> set F\<close> Cons.prems(2)] Cons.prems(3)
    show ?thesis
      by (auto simp: cell_of_def mounted_of_Cons[of s0 F] childTags_of_Cons[of s0 F])
  qed
qed

lemma cell_of_tree:
  "cell_of [T] t =
     (if t = htag T then (Some (hostView T), Some (map htag (hostChildren T)))
      else cell_of (hostChildren T) t)"
  by (simp add: cell_of_def mounted_of_tree childTags_of_tree)

section \<open>The cells that a call touches\<close>

lemma flatten_sel [simp]:
  "hostView (flatten q) = shadowView q"
  "hostChildren (flatten q) = map flatten (reorderInPlaceIfNeeded (kids q))"
  by (subst flatten.simps, simp)+

lemma forest_tags_ftags: "forest_tags pairs = ftags (map flatten pairs)"
  by (simp add: forest_tags_def ftags_def)

lemma tags_of_flatten: "set (tags_of (flatten q)) = insert (vtag q) (forest_tags (kids q))"
  by (simp add: ftags_children forest_tags_ftags[of "kids q", symmetric]
      forest_tags_ftags[of "reorderInPlaceIfNeeded (kids q)", symmetric])

lemma forest_tags_Nil [simp]: "forest_tags [] = {}"
  by (simp add: forest_tags_def)

lemma forest_tags_member: "q \<in> set pairs \<Longrightarrow> set (tags_of (flatten q)) \<subseteq> forest_tags pairs"
  by (auto simp: forest_tags_def)

lemma touched_concat_subset:
  "(\<And>j. j \<in> set js \<Longrightarrow> touched (f j) \<subseteq> R) \<Longrightarrow> touched (concat (map f js)) \<subseteq> R"
  by auto

lemma touched_D:
  "touched (D parent olds0 news0) \<subseteq> insert (tag parent) (forest_tags olds0 \<union> forest_tags news0)"
proof (induction "pairs_weight olds0 + pairs_weight news0"
    arbitrary: parent olds0 news0 rule: less_induct)
  case less
  show ?case
  proof (cases "olds0 = [] \<and> news0 = []")
    case True
    then show ?thesis by simp
  next
    case False
    define olds where "olds = reorderInPlaceIfNeeded olds0"
    define news where "news = reorderInPlaceIfNeeded news0"
    define L where "L = stage1_stop olds news 0"
    define ip2 where "ip2 = inserted_map news L"
    define ip3 where "ip3 = insertedPairs_at olds L (length olds - L) ip2"
    let ?R = "insert (tag parent) (forest_tags olds0 \<union> forest_tags news0)"
    have L_le: "L \<le> length olds" "L \<le> length news"
      using stage1_stop_le[of 0 olds news] by (simp_all add: L_def)
    have o_mem: "olds ! j \<in> set olds0" if "j < length olds" for j
      using that nth_mem[of j olds] by (simp add: olds_def)
    have n_mem: "news ! j \<in> set news0" if "j < length news" for j
      using that nth_mem[of j news] by (simp add: news_def)
    have part: "n \<in> set news0" if "partner olds L ip2 j = Some n" for j n
      using partner_inserted_map[of olds L news L j n] that
      by (auto simp: ip2_def news_def dest: in_set_dropD)
    have both: "touched (D (shadowView r) (kids q) (kids n)) \<subseteq> ?R"
      if "q \<in> set olds0" "n \<in> set news0" "vtag r \<in> forest_tags olds0 \<union> forest_tags news0"
      for q n r
    proof -
      have "pairs_weight (kids q) + pairs_weight (kids n) < pairs_weight olds0 + pairs_weight news0"
        using kids_weight_lt2[OF that(1,2)] .
      from less[OF this, of "shadowView r"] forest_tags_kids[OF that(1)] forest_tags_kids[OF that(2)]
        that(3)
      show ?thesis by auto
    qed
    have left: "touched (D (shadowView q) (kids q) []) \<subseteq> ?R" if "q \<in> set olds0" for q
    proof -
      have "pairs_weight (kids q) + pairs_weight [] < pairs_weight olds0 + pairs_weight news0"
        using kids_weight_lt[OF that] by simp
      from less[OF this, of "shadowView q"] forest_tags_kids[OF that] forest_tags_top[OF that]
      show ?thesis by auto
    qed
    have right: "touched (D (shadowView n) [] (kids n)) \<subseteq> ?R" if "n \<in> set news0" for n
    proof -
      have "pairs_weight [] + pairs_weight (kids n) < pairs_weight olds0 + pairs_weight news0"
        using kids_weight_lt[OF that] by simp
      from less[OF this, of "shadowView n"] forest_tags_kids[OF that] forest_tags_top[OF that]
      show ?thesis by auto
    qed
    have al: "touched (D (shadowView (olds ! j)) (kids (olds ! j)) (kids (news ! j))) \<subseteq> ?R"
      if "j < L" for j
      using both[of "olds ! j" "news ! j" "olds ! j"] o_mem[of j] n_mem[of j] that L_le
        forest_tags_top[of "olds ! j" olds0]
      by simp
    have re: "touched (D (shadowView n) (kids (olds ! j)) (kids n)) \<subseteq> ?R"
      if "j < length olds" "partner olds L ip2 j = Some n" for j n
      using both[of "olds ! j" n n] o_mem[of j] part[OF that(2)] that(1) forest_tags_top[of n news0]
      by simp
    have dd1: "touched (dd1_from olds news 0 L) \<subseteq> ?R"
      unfolding dd1_from_def
    proof (rule touched_concat_subset)
      fix j assume "j \<in> set [0..<L]"
      then have "j < L" by simp
      from al[OF this] show "touched (if kids (news ! j) = []
          then D (shadowView (olds ! j)) (kids (olds ! j)) (kids (news ! j)) else []) \<subseteq> ?R"
        by (cases "kids (news ! j) = []") simp_all
    qed
    have dw1: "touched (dw1_from olds news 0 L) \<subseteq> ?R"
      unfolding dw1_from_def
    proof (rule touched_concat_subset)
      fix j assume "j \<in> set [0..<L]"
      then have "j < L" by simp
      from al[OF this] show "touched (if kids (news ! j) \<noteq> []
          then D (shadowView (olds ! j)) (kids (olds ! j)) (kids (news ! j)) else []) \<subseteq> ?R"
        by (cases "kids (news ! j) = []") simp_all
    qed
    have dd3: "touched (dd3_from olds L ip2) \<subseteq> ?R"
      unfolding dd3_from_def
    proof (rule touched_concat_subset)
      fix j assume "j \<in> set [L..<length olds]"
      then have j: "j < length olds" by simp
      show "touched (case partner olds L ip2 j of
           None \<Rightarrow> D (shadowView (olds ! j)) (kids (olds ! j)) []
         | Some n \<Rightarrow> if pair_ne n (olds ! j) \<and> kids n = []
             then D (shadowView n) (kids (olds ! j)) (kids n) else []) \<subseteq> ?R"
      proof (cases "partner olds L ip2 j")
        case None
        with left[OF o_mem[OF j]] show ?thesis by simp
      next
        case (Some n)
        from re[OF j Some] show ?thesis
          by (cases "pair_ne n (olds ! j)"; cases "kids n = []") (simp_all add: Some)
      qed
    qed
    have dw3: "touched (dw3_from olds L ip2) \<subseteq> ?R"
      unfolding dw3_from_def
    proof (rule touched_concat_subset)
      fix j assume "j \<in> set [L..<length olds]"
      then have j: "j < length olds" by simp
      show "touched (case partner olds L ip2 j of
           None \<Rightarrow> []
         | Some n \<Rightarrow> if pair_ne n (olds ! j) \<and> kids n \<noteq> []
             then D (shadowView n) (kids (olds ! j)) (kids n) else []) \<subseteq> ?R"
      proof (cases "partner olds L ip2 j")
        case None
        then show ?thesis by simp
      next
        case (Some n)
        from re[OF j Some] show ?thesis
          by (cases "pair_ne n (olds ! j)"; cases "kids n = []") (simp_all add: Some)
      qed
    qed
    have dw4: "touched (dw4_from news L ip3) \<subseteq> ?R"
      unfolding dw4_from_def
    proof (rule touched_concat_subset)
      fix j assume "j \<in> set [L..<length news]"
      then have j: "j < length news" by simp
      from right[OF n_mem[OF j]]
      show "touched (if find_TinyMap (vtag (news ! j)) ip3 = None then []
          else D (shadowView (news ! j)) [] (kids (news ! j))) \<subseteq> ?R"
        by simp
    qed
    have upd: "touched (updates_from parent olds news 0 L) \<subseteq> ?R"
      unfolding updates_from_def using o_mem L_le forest_tags_top[of _ olds0]
      by (auto split: if_splits)
    have rem: "touched (removes_from parent olds L) \<subseteq> ?R"
      unfolding removes_from_def by (auto simp: touched_def)
    have del: "touched (deletes_from olds L ip2) \<subseteq> ?R"
      unfolding deletes_from_def using o_mem forest_tags_top[of _ olds0]
      by (auto split: option.splits)
    have cre: "touched (creates_from news L ip3) \<subseteq> ?R"
      unfolding creates_from_def using n_mem forest_tags_top[of _ news0]
      by (auto split: if_splits)
    have ins: "touched (inserts_from parent news L) \<subseteq> ?R"
      unfolding inserts_from_def using n_mem forest_tags_top[of _ news0]
      by (auto simp: touched_def)
    show ?thesis
      unfolding D_nonempty[OF False] Let_def olds_def[symmetric] news_def[symmetric]
        L_def[symmetric] ip2_def[symmetric] ip3_def[symmetric]
      using dd1 dw1 dd3 dw3 dw4 upd rem del cre ins by simp
  qed
qed

section \<open>The aligned prefix and the partners, by tags\<close>

fun aligned_prefix :: "Tag list \<Rightarrow> Tag list \<Rightarrow> nat" where
  "aligned_prefix (a # as) (b # bs) = (if a = b then Suc (aligned_prefix as bs) else 0)"
| "aligned_prefix as bs = 0"

lemma stage1_stop_aligned_prefix:
  "i \<le> length olds \<Longrightarrow> i \<le> length news \<Longrightarrow>
     stage1_stop olds news i = i + aligned_prefix (drop i (map vtag olds)) (drop i (map vtag news))"
proof (induction olds news i rule: stage1_stop.induct)
  case (1 olds news i)
  show ?case
  proof (cases "i < length olds \<and> i < length news")
    case True
    then have d: "drop i (map vtag olds) = vtag (olds ! i) # drop (Suc i) (map vtag olds)"
      "drop i (map vtag news) = vtag (news ! i) # drop (Suc i) (map vtag news)"
      by (metis Cons_nth_drop_Suc length_map nth_map)+
    show ?thesis
    proof (cases "vtag (olds ! i) = vtag (news ! i)")
      case e: True
      with True 1(1) show ?thesis
        by (subst stage1_stop_here) (simp add: d)
    next
      case False
      with True show ?thesis by (subst stage1_stop_here) (simp add: d)
    qed
  next
    case False
    then have "drop i (map vtag olds) = [] \<or> drop i (map vtag news) = []" by auto
    then have "aligned_prefix (drop i (map vtag olds)) (drop i (map vtag news)) = 0"
      by (cases "drop i (map vtag olds)") auto
    with False show ?thesis by (subst stage1_stop_here) auto
  qed
qed

lemma insertedPairs_at_key_range:
  "m < length ip \<Longrightarrow>
     fst (insertedPairs_at olds i k ip ! m) = fst (ip ! m) \<or>
     (fst (insertedPairs_at olds i k ip ! m) = 0 \<and> (\<exists>a < k. fst (ip ! m) = vtag (olds ! (i + a))))"
proof (induction k)
  case 0
  then show ?case by simp
next
  case (Suc k)
  then have IH: "fst (insertedPairs_at olds i k ip ! m) = fst (ip ! m) \<or>
     (fst (insertedPairs_at olds i k ip ! m) = 0 \<and> (\<exists>a < k. fst (ip ! m) = vtag (olds ! (i + a))))"
    by simp
  from tm_step_key[of m "insertedPairs_at olds i k ip" "olds ! (i + k)"] Suc.prems
  have step: "fst (insertedPairs_at olds i (Suc k) ip ! m) = fst (insertedPairs_at olds i k ip ! m) \<or>
     (fst (insertedPairs_at olds i (Suc k) ip ! m) = 0 \<and>
      fst (insertedPairs_at olds i k ip ! m) = vtag (olds ! (i + k)))"
    by simp
  let ?S = "fst (insertedPairs_at olds i (Suc k) ip ! m)"
  let ?K = "fst (insertedPairs_at olds i k ip ! m)"
  from step consider (same) "?S = ?K" | (zero) "?S = 0" "?K = vtag (olds ! (i + k))" by blast
  then show ?case
  proof cases
    case same
    from IH show ?thesis
    proof
      assume "?K = fst (ip ! m)"
      with same show ?thesis by simp
    next
      assume "?K = 0 \<and> (\<exists>a<k. fst (ip ! m) = vtag (olds ! (i + a)))"
      then obtain a where "?K = 0" "a < k" "fst (ip ! m) = vtag (olds ! (i + a))" by blast
      with same have "?S = 0 \<and> a < Suc k \<and> fst (ip ! m) = vtag (olds ! (i + a))" by simp
      then show ?thesis by blast
    qed
  next
    case zero
    from IH show ?thesis
    proof
      assume "?K = fst (ip ! m)"
      with zero have "?S = 0 \<and> k < Suc k \<and> fst (ip ! m) = vtag (olds ! (i + k))" by simp
      then show ?thesis by blast
    next
      assume "?K = 0 \<and> (\<exists>a<k. fst (ip ! m) = vtag (olds ! (i + a)))"
      then obtain a where "a < k" "fst (ip ! m) = vtag (olds ! (i + a))" by blast
      with zero have "?S = 0 \<and> a < Suc k \<and> fst (ip ! m) = vtag (olds ! (i + a))" by simp
      then show ?thesis by blast
    qed
  qed
qed

lemma insertedPairs_at_snd:
  "m < length ip \<Longrightarrow> snd (insertedPairs_at olds i k ip ! m) = snd (ip ! m)"
  using insertedPairs_at_values[of olds i k ip]
  by (metis length_insertedPairs_at nth_map)

text \<open>With distinct non-zero tags on both sides, the pair that stage 3 finds for an old
  child of the tail is the new child of the tail with its tag; and stage 4 creates the new
  children of the tail whose tags no old child of the tail has.\<close>

lemma partner_Some:
  assumes dn: "distinct (map vtag news)" and d: "distinct (map vtag olds)"
    and nz: "0 \<notin> vtag ` set olds"
    and j: "L \<le> j" "j < length olds"
    and k: "L \<le> k" "k < length news" "vtag (news ! k) = vtag (olds ! j)"
  shows "partner olds L (inserted_map news L) j = Some (news ! k)"
proof -
  let ?ip = "inserted_map news L"
  let ?ipj = "insertedPairs_at olds L (j - L) ?ip"
  have slot: "k - L < length ?ip" "?ip ! (k - L) = (vtag (news ! k), news ! k)"
    using inserted_map_nth[OF k(1,2)] by simp_all
  have key: "fst (?ipj ! (k - L)) = vtag (olds ! j)"
  proof -
    from insertedPairs_at_key_range[OF slot(1), of olds L "j - L"] slot(2) k(3)
    have "fst (?ipj ! (k - L)) = vtag (olds ! j) \<or>
        (\<exists>a < j - L. vtag (olds ! j) = vtag (olds ! (L + a)))" by auto
    moreover have "vtag (olds ! j) \<noteq> vtag (olds ! (L + a))" if "a < j - L" for a
    proof -
      from that j have "L + a < length olds" "L + a \<noteq> j" by simp_all
      with d j(2) show ?thesis by (auto simp: distinct_conv_nth)
    qed
    ultimately show ?thesis by blast
  qed
  have "?ipj ! (k - L) \<in> set ?ipj" using slot(1) by simp
  with key have "vtag (olds ! j) \<in> fst ` set ?ipj" by force
  then obtain m where m: "find_TinyMap (vtag (olds ! j)) ?ipj = Some m"
    using find_TinyMap_None_iff[of "vtag (olds ! j)" ?ipj] by (cases "find_TinyMap (vtag (olds ! j)) ?ipj") auto
  from find_TinyMap_Some[OF m] have m': "m < length ?ip" "fst (?ipj ! m) = vtag (olds ! j)" by simp_all
  have "olds ! j \<in> set olds" using j(2) by simp
  with nz have onz: "vtag (olds ! j) \<noteq> 0" by force
  have "m = k - L"
  proof (rule ccontr)
    assume "m \<noteq> k - L"
    moreover have "nonzero_keys_distinct ?ipj"
      by (rule nonzero_keys_distinct_insertedPairs_at[OF nonzero_keys_distinct_inserted_map[OF dn]])
    then have "m \<noteq> k - L \<longrightarrow> fst (?ipj ! m) = fst (?ipj ! (k - L)) \<longrightarrow> fst (?ipj ! m) = 0"
      unfolding nonzero_keys_distinct_def using m'(1) slot(1) by simp
    ultimately show False using m' key onz by simp
  qed
  with m slot show ?thesis
    by (simp add: partner_def Let_def insertedPairs_at_snd)
qed

lemma partner_None:
  assumes j: "L \<le> j" "j < length olds"
    and nz: "0 \<notin> vtag ` set olds"
    and no: "vtag (olds ! j) \<notin> vtag ` set (drop L news)"
  shows "partner olds L (inserted_map news L) j = None"
proof (rule ccontr)
  let ?ip = "inserted_map news L"
  let ?ipj = "insertedPairs_at olds L (j - L) ?ip"
  assume "partner olds L ?ip j \<noteq> None"
  then obtain m where m: "find_TinyMap (vtag (olds ! j)) ?ipj = Some m"
    by (auto simp: partner_def Let_def)
  from find_TinyMap_Some[OF m] have m': "m < length ?ip" "fst (?ipj ! m) = vtag (olds ! j)" by simp_all
  have "olds ! j \<in> set olds" using j(2) by simp
  with nz have onz: "vtag (olds ! j) \<noteq> 0" by force
  from insertedPairs_at_key_range[OF m'(1), of olds L "j - L"] m'(2) onz
  have "fst (?ip ! m) = vtag (olds ! j)" by auto
  moreover have "fst (?ip ! m) \<in> vtag ` set (drop L news)"
  proof -
    have "?ip ! m \<in> set ?ip" using m'(1) by simp
    then show ?thesis by (auto simp: inserted_map_def)
  qed
  ultimately show False using no by simp
qed

lemma created_iff:
  assumes dn: "distinct (map vtag news)"
    and nz: "0 \<notin> vtag ` set news"
    and j: "L \<le> j" "j < length news" and L: "L \<le> length olds"
  shows "find_TinyMap (vtag (news ! j)) (insertedPairs_at olds L (length olds - L) (inserted_map news L)) = None
     \<longleftrightarrow> vtag (news ! j) \<in> vtag ` set (drop L olds)"
proof -
  let ?ip = "inserted_map news L"
  let ?ip3 = "insertedPairs_at olds L (length olds - L) ?ip"
  have slot: "j - L < length ?ip" "?ip ! (j - L) = (vtag (news ! j), news ! j)"
    using inserted_map_nth[OF j] by simp_all
  have "news ! j \<in> set news" using j(2) by simp
  with nz have nnz: "vtag (news ! j) \<noteq> 0" by force
  show ?thesis
  proof
    assume "find_TinyMap (vtag (news ! j)) ?ip3 = None"
    then have no: "vtag (news ! j) \<notin> fst ` set ?ip3" by (simp add: find_TinyMap_None_iff)
    have "?ip3 ! (j - L) \<in> set ?ip3" using slot(1) by simp
    with no have "fst (?ip3 ! (j - L)) \<noteq> vtag (news ! j)" by force
    with insertedPairs_at_key_range[OF slot(1), of olds L "length olds - L"] slot(2)
    obtain a where a: "a < length olds - L" "vtag (news ! j) = vtag (olds ! (L + a))" by auto
    have "olds ! (L + a) \<in> set (drop L olds)"
      using nth_mem[of a "drop L olds"] a(1) L by simp
    with a(2) show "vtag (news ! j) \<in> vtag ` set (drop L olds)" by force
  next
    assume "vtag (news ! j) \<in> vtag ` set (drop L olds)"
    then obtain a where a: "a < length olds - L" "vtag (news ! j) = vtag (drop L olds ! a)"
      by (auto simp: in_set_conv_nth)
    with L have a': "vtag (olds ! (L + a)) = vtag (news ! j)" by simp
    from insertedPairs_at_erased[OF nonzero_keys_distinct_inserted_map[OF dn, of L], of a
        "length olds - L" olds L] a(1) a' nnz
    show "find_TinyMap (vtag (news ! j)) ?ip3 = None" by (simp add: find_TinyMap_None_iff)
  qed
qed

section \<open>Trees that the differentiator can reconcile\<close>

text \<open>
  \<open>reinserted_same To Tn\<close>: walking the two trees the way the driver does (the children in
  the aligned prefix of two sibling lists pairwise, by \<open>reinserted_same_list\<close>), an old and
  a new child with the same tag beyond the aligned prefix are the same subtree: a child that
  is removed and inserted again has not changed.
\<close>

lemma aligned_prefix_le: "aligned_prefix xs ys \<le> length xs \<and> aligned_prefix xs ys \<le> length ys"
  by (induction xs ys rule: aligned_prefix.induct) auto

lemma size_list_take: "size_list f (take n xs) \<le> size_list f xs"
proof (induction xs arbitrary: n)
  case Nil
  then show ?case by simp
next
  case (Cons x xs)
  then show ?case by (cases n) simp_all
qed

lemma size_hostChildren: "size_list size (hostChildren T) < size T"
  by (cases T) simp

function reinserted_same :: "HostView \<Rightarrow> HostView \<Rightarrow> bool"
  and reinserted_same_list :: "HostView list \<Rightarrow> HostView list \<Rightarrow> bool" where
  "reinserted_same To Tn \<longleftrightarrow>
     (let L = aligned_prefix (map htag (hostChildren To)) (map htag (hostChildren Tn))
      in reinserted_same_list (take L (hostChildren To)) (take L (hostChildren Tn)) \<and>
         (\<forall>oc \<in> set (drop L (hostChildren To)). \<forall>nc \<in> set (drop L (hostChildren Tn)).
            htag oc = htag nc \<longrightarrow> oc = nc))"
| "reinserted_same_list [] ns \<longleftrightarrow> True"
| "reinserted_same_list (oc # os) [] \<longleftrightarrow> True"
| "reinserted_same_list (oc # os) (nc # ns) \<longleftrightarrow>
     reinserted_same oc nc \<and> reinserted_same_list os ns"
  by pat_completeness auto
termination
proof (relation "measure (\<lambda>x. case x of Inl (To, Tn) \<Rightarrow> 2 * size To
    | Inr (os, ns) \<Rightarrow> 2 * size_list size os + 1)", goal_cases)
  case 1
  then show ?case by simp
next
  case (2 To Tn L)
  have "size_list size (take L (hostChildren To)) \<le> size_list size (hostChildren To)"
    by (rule size_list_take)
  with size_hostChildren[of To] show ?case by simp
next
  case (3 oc os nc ns)
  then show ?case by simp
next
  case (4 oc os nc ns)
  then show ?case by simp
qed

declare reinserted_same.simps(1) [simp del]

text \<open>
  \<open>deletes_before_creates ms\<close>: no \<^verbatim>\<open>Create\<close> in \<open>ms\<close> is followed by a \<^verbatim>\<open>Delete\<close> of a view
  with the same tag.
\<close>

fun deleted_tags :: "ShadowViewMutation list \<Rightarrow> Tag list" where
  "deleted_tags [] = []"
| "deleted_tags (DeleteMutation v # ms) = tag v # deleted_tags ms"
| "deleted_tags (m # ms) = deleted_tags ms"

fun deletes_before_creates :: "ShadowViewMutation list \<Rightarrow> bool" where
  "deletes_before_creates [] = True"
| "deletes_before_creates (CreateMutation v # ms) =
     (tag v \<notin> set (deleted_tags ms) \<and> deletes_before_creates ms)"
| "deletes_before_creates (m # ms) = deletes_before_creates ms"

definition reconcilable :: "HostView \<Rightarrow> HostView \<Rightarrow> bool" where
  "reconcilable To Tn \<longleftrightarrow>
     htag To = htag Tn \<and> distinct (tags_of To) \<and> distinct (tags_of Tn) \<and>
     0 \<notin> set (tags_of To) \<and> 0 \<notin> set (tags_of Tn) \<and> reinserted_same To Tn"

text \<open>\<open>covers ms To Tn\<close>: the mutations \<open>ms\<close> take every cell below the root of \<open>To\<close> to the
  cell of \<open>Tn\<close>, and the child list of the root to that of \<open>Tn\<close>.\<close>

definition covers :: "ShadowViewMutation list \<Rightarrow> HostView \<Rightarrow> HostView \<Rightarrow> bool" where
  "covers ms To Tn \<longleftrightarrow>
     (\<forall>t. t \<noteq> htag To \<longrightarrow>
        run ms t (cell_of (hostChildren To) t) = Some (cell_of (hostChildren Tn) t)) \<and>
     (\<forall>v. run ms (htag To) (v, Some (map htag (hostChildren To))) =
            Some (v, Some (map htag (hostChildren Tn))))"

subsection \<open>Deletes and creates in a list\<close>

lemma set_deleted_tags: "set (deleted_tags ms) = {tag v |v. DeleteMutation v \<in> set ms}"
  by (induction ms rule: deleted_tags.induct) auto

lemma deletes_before_creates_append:
  "deletes_before_creates (a @ b) \<longleftrightarrow>
     deletes_before_creates a \<and> deletes_before_creates b \<and>
     (\<forall>v w. CreateMutation v \<in> set a \<longrightarrow> DeleteMutation w \<in> set b \<longrightarrow> tag v \<noteq> tag w)"
proof (induction a rule: deletes_before_creates.induct)
  case 1
  then show ?case by simp
next
  case (2 v ms)
  then show ?case by (auto simp: set_deleted_tags)
qed auto

lemma deletes_before_creates_concat:
  "deletes_before_creates (concat xss) \<Longrightarrow> xs \<in> set xss \<Longrightarrow> deletes_before_creates xs"
  by (induction xss) (auto simp: deletes_before_creates_append)

lemma deletes_before_creates_order:
  assumes "deletes_before_creates (concat (map f js))" and "js = xs @ k # ys" and "j \<in> set ys"
    and "CreateMutation v \<in> set (f k)" and "DeleteMutation w \<in> set (f j)"
  shows "tag v \<noteq> tag w"
proof -
  have "concat (map f js) = concat (map f xs) @ f k @ concat (map f ys)"
    by (simp add: assms(2))
  with assms(1) have "deletes_before_creates (f k @ concat (map f ys))"
    by (simp add: deletes_before_creates_append)
  moreover have "DeleteMutation w \<in> set (concat (map f ys))" using assms(3,5) by auto
  ultimately show ?thesis using assms(4) by (simp add: deletes_before_creates_append)
qed

text \<open>A cell that goes from a view to none has met a \<^verbatim>\<open>Delete\<close>, one that goes from none to
  a view a \<^verbatim>\<open>Create\<close>.\<close>

lemma run_has_Delete:
  "run ms t (Some v, c) = Some (None, c') \<Longrightarrow> \<exists>w. tag w = t \<and> DeleteMutation w \<in> set ms"
proof (induction ms arbitrary: v c)
  case Nil
  then show ?case by simp
next
  case (Cons m ms)
  then obtain x c1 where s: "step m t (Some v, c) = Some (x, c1)" and r: "run ms t (x, c1) = Some (None, c')"
    by (cases "step m t (Some v, c)") auto
  show ?case
  proof (cases x)
    case None
    with s have "\<exists>w. tag w = t \<and> m = DeleteMutation w"
      by (cases m) (auto simp: step_def split: if_splits option.splits)
    then show ?thesis by auto
  next
    case (Some v')
    with Cons.IH[of v' c1] r show ?thesis by auto
  qed
qed

lemma run_has_Create:
  "run ms t (None, c) = Some (Some v, c') \<Longrightarrow> \<exists>w. tag w = t \<and> CreateMutation w \<in> set ms"
proof (induction ms arbitrary: c)
  case Nil
  then show ?case by simp
next
  case (Cons m ms)
  then obtain x c1 where s: "step m t (None, c) = Some (x, c1)" and r: "run ms t (x, c1) = Some (Some v, c')"
    by (cases "step m t (None, c)") auto
  show ?case
  proof (cases x)
    case None
    with Cons.IH[of c1] r show ?thesis by auto
  next
    case (Some v')
    with s have "\<exists>w. tag w = t \<and> m = CreateMutation w"
      by (cases m) (auto simp: step_def split: if_splits option.splits)
    then show ?thesis by auto
  qed
qed

subsection \<open>Children of a tree with distinct tags\<close>

lemma child_node: "c \<in> set (hostChildren T) \<Longrightarrow> c \<in> set (nodes T)"
  by (meson nodes_child nodes_self subsetD)

lemma child_unique:
  assumes "distinct (tags_of T)" "c \<in> set (hostChildren T)" "c' \<in> set (hostChildren T)"
    "t \<in> set (tags_of c)" "t \<in> set (tags_of c')"
  shows "c = c'"
proof -
  from assms(2,3) obtain i j where ij: "i < length (hostChildren T)" "hostChildren T ! i = c"
    "j < length (hostChildren T)" "hostChildren T ! j = c'"
    by (auto simp: in_set_conv_nth)
  show ?thesis
  proof (cases "i = j")
    case True
    with ij show ?thesis by simp
  next
    case False
    from distinct_children(4)[OF assms(1) ij(1) ij(3) False] ij assms(4,5) show ?thesis by auto
  qed
qed

lemma cell_of_child:
  assumes "distinct (tags_of T)" "c \<in> set (hostChildren T)" "t \<in> set (tags_of c)"
  shows "cell_of (hostChildren T) t = cell_of [c] t"
proof (rule cell_of_member[OF assms(2,3)])
  fix s' assume "s' \<in> set (hostChildren T)" "s' \<noteq> c"
  with child_unique[OF assms(1) _ assms(2) _ assms(3), of s'] show "t \<notin> set (tags_of s')" by auto
qed

lemma cell_of_tree_outside: "t \<notin> set (tags_of T) \<Longrightarrow> cell_of [T] t = (None, None)"
  by (rule cell_of_outside) (simp add: ftags_def)

lemma cell_of_tree_inside:
  "t \<in> set (tags_of T) \<Longrightarrow> \<exists>v cs. cell_of [T] t = (Some v, Some cs)"
proof -
  assume "t \<in> set (tags_of T)"
  then have "t \<in> dom (mounted_of [T])" "t \<in> dom (childTags_of [T])"
    by (simp_all add: dom_mounted_of dom_childTags_of ftags_def)
  then show ?thesis by (auto simp: cell_of_def)
qed

subsection \<open>The hypotheses pass to the subtrees\<close>

lemma reinserted_same_list_nth:
  "reinserted_same_list os ns \<Longrightarrow> j < length os \<Longrightarrow> j < length ns \<Longrightarrow>
     reinserted_same (os ! j) (ns ! j)"
proof (induction os arbitrary: ns j)
  case Nil
  then show ?case by simp
next
  case (Cons oc os)
  then obtain nc ns' where "ns = nc # ns'" by (cases ns) auto
  with Cons show ?case by (cases j) simp_all
qed

lemma reinserted_same_aligned:
  assumes "reinserted_same To Tn"
    and "j < aligned_prefix (map htag (hostChildren To)) (map htag (hostChildren Tn))"
  shows "reinserted_same (hostChildren To ! j) (hostChildren Tn ! j)"
proof -
  let ?L = "aligned_prefix (map htag (hostChildren To)) (map htag (hostChildren Tn))"
  have le: "?L \<le> length (hostChildren To)" "?L \<le> length (hostChildren Tn)"
    using aligned_prefix_le[of "map htag (hostChildren To)" "map htag (hostChildren Tn)"] by simp_all
  from assms(1) have "reinserted_same_list (take ?L (hostChildren To)) (take ?L (hostChildren Tn))"
    by (subst (asm) reinserted_same.simps) (simp add: Let_def)
  from reinserted_same_list_nth[OF this, of j] assms(2) le show ?thesis by simp
qed

lemma reinserted_same_leaf [simp]:
  "reinserted_same To (HostView v [])" "reinserted_same (HostView v []) Tn"
  by (simp_all add: reinserted_same.simps[of To] reinserted_same.simps[of "HostView v []"])

lemma reconcilable_leaf_right:
  assumes "reconcilable To Tn" "oc \<in> set (hostChildren To)"
  shows "reconcilable oc (HostView (hostView oc) [])"
proof -
  from assms have d: "distinct (tags_of oc)" "0 \<notin> set (tags_of oc)"
    using distinct_children(3)[OF _ assms(2)] tags_of_child[OF assms(2)]
    unfolding reconcilable_def by auto
  moreover have "0 \<noteq> htag oc" using d(2) htag_in_tags[of oc] by auto
  ultimately show ?thesis unfolding reconcilable_def by simp
qed

lemma reconcilable_leaf_left:
  assumes "reconcilable To Tn" "nc \<in> set (hostChildren Tn)"
  shows "reconcilable (HostView (hostView nc) []) nc"
proof -
  from assms have d: "distinct (tags_of nc)" "0 \<notin> set (tags_of nc)"
    using distinct_children(3)[OF _ assms(2)] tags_of_child[OF assms(2)]
    unfolding reconcilable_def by auto
  moreover have "0 \<noteq> htag nc" using d(2) htag_in_tags[of nc] by auto
  ultimately show ?thesis unfolding reconcilable_def by simp
qed

lemma reconcilable_aligned:
  assumes "reconcilable To Tn"
    and "j < aligned_prefix (map htag (hostChildren To)) (map htag (hostChildren Tn))"
    and "htag (hostChildren To ! j) = htag (hostChildren Tn ! j)"
  shows "reconcilable (hostChildren To ! j) (hostChildren Tn ! j)"
proof -
  from assms(2) have j: "j < length (hostChildren To)" "j < length (hostChildren Tn)"
    using aligned_prefix_le[of "map htag (hostChildren To)" "map htag (hostChildren Tn)"] by simp_all
  then have m: "hostChildren To ! j \<in> set (hostChildren To)" "hostChildren Tn ! j \<in> set (hostChildren Tn)"
    by simp_all
  from assms(1) have "reinserted_same To Tn" by (simp add: reconcilable_def)
  then have "reinserted_same (hostChildren To ! j) (hostChildren Tn ! j)"
    using assms(2) by (rule reinserted_same_aligned)
  with assms(1,3) tags_of_child[OF m(1)] tags_of_child[OF m(2)]
    distinct_children(3)[OF _ m(1)] distinct_children(3)[OF _ m(2)]
  show ?thesis unfolding reconcilable_def by auto
qed

lemma reinserted_same_tail:
  assumes "reinserted_same To Tn"
    and "L = aligned_prefix (map htag (hostChildren To)) (map htag (hostChildren Tn))"
    and "oc \<in> set (drop L (hostChildren To))" "nc \<in> set (drop L (hostChildren Tn))"
    and "htag oc = htag nc"
  shows "oc = nc"
  using assms by (subst (asm) reinserted_same.simps) (simp add: Let_def)

section \<open>One call on the cells of the host\<close>

subsection \<open>The child list of the parent\<close>

lemma removes_run_upto:
  "L \<le> n \<Longrightarrow> n \<le> length olds \<Longrightarrow>
     run (rev (map (\<lambda>j. RemoveMutation parent (shadowView (olds ! j)) (int j)) [L..<n]))
       (tag parent) (v, Some (take n (map vtag olds))) = Some (v, Some (take L (map vtag olds)))"
proof (induction n)
  case 0
  then show ?case by simp
next
  case (Suc n)
  show ?case
  proof (cases "L = Suc n")
    case True
    then show ?thesis by simp
  next
    case False
    with Suc.prems have Ln: "L \<le> n" "n < length olds" by simp_all
    let ?cs = "take (Suc n) (map vtag olds)"
    have st: "step (RemoveMutation parent (shadowView (olds ! n)) (int n)) (tag parent) (v, Some ?cs)
        = Some (v, Some (take n ?cs @ drop (Suc n) ?cs))"
      using Ln by (intro step_Remove_parent) simp_all
    have "take n ?cs @ drop (Suc n) ?cs = take n (map vtag olds)" using Ln by (simp add: min_def)
    with st Suc.IH Ln show ?thesis by (simp add: upt_Suc_append del: upt_Suc)
  qed
qed

lemma removes_run:
  "L \<le> length olds \<Longrightarrow>
     run (rev (removes_from parent olds L)) (tag parent) (v, Some (map vtag olds)) =
       Some (v, Some (take L (map vtag olds)))"
  using removes_run_upto[of L "length olds" olds parent v] by (simp add: removes_from_def)

lemma inserts_run_upto:
  "L \<le> n \<Longrightarrow> n \<le> length news \<Longrightarrow> tag parent \<notin> vtag ` set news \<Longrightarrow>
     run (map (\<lambda>j. InsertMutation parent (shadowView (news ! j)) (int j)) [L..<n])
       (tag parent) (v, Some (take L (map vtag news))) = Some (v, Some (take n (map vtag news)))"
proof (induction n)
  case 0
  then show ?case by simp
next
  case (Suc n)
  show ?case
  proof (cases "L = Suc n")
    case True
    then show ?thesis by simp
  next
    case False
    with Suc.prems have Ln: "L \<le> n" "n < length news" by simp_all
    let ?cs = "take n (map vtag news)"
    have "news ! n \<in> set news" using Ln by simp
    with Suc.prems(3) have ne: "tag parent \<noteq> tag (shadowView (news ! n))" by force
    have st: "step (InsertMutation parent (shadowView (news ! n)) (int n)) (tag parent) (v, Some ?cs)
        = Some (v, Some (take n ?cs @ vtag (news ! n) # drop n ?cs))"
      using Ln by (intro step_Insert_parent[OF ne]) simp
    have "take n ?cs @ vtag (news ! n) # drop n ?cs = take (Suc n) (map vtag news)"
      using Ln by (simp add: take_Suc_conv_app_nth)
    with st Suc.IH Ln Suc.prems(3) show ?thesis
      by (simp add: upt_Suc_append run_append del: upt_Suc)
  qed
qed

lemma inserts_run:
  "L \<le> length news \<Longrightarrow> tag parent \<notin> vtag ` set news \<Longrightarrow>
     run (inserts_from parent news L) (tag parent) (v, Some (take L (map vtag news))) =
       Some (v, Some (map vtag news))"
  using inserts_run_upto[of L "length news" news parent v] by (simp add: inserts_from_def)

lemma aligned_prefix_take:
  "take (aligned_prefix xs ys) xs = take (aligned_prefix xs ys) ys"
  by (induction xs ys rule: aligned_prefix.induct) simp_all

subsection \<open>The cells that a nested call touches\<close>

lemma htag_flatten [simp]: "htag (flatten q) = vtag q"
  by simp

lemma touched_nested:
  "tag r = vtag q \<or> tag r = vtag n \<Longrightarrow>
     touched (D r (kids q) (kids n)) \<subseteq> set (tags_of (flatten q)) \<union> set (tags_of (flatten n))"
  using touched_D[of r "kids q" "kids n"] by (auto simp: tags_of_flatten)

lemma touched_nested_left:
  "tag r = vtag q \<Longrightarrow> touched (D r (kids q) []) \<subseteq> set (tags_of (flatten q))"
  using touched_D[of r "kids q" "[]"] by (auto simp: tags_of_flatten)

lemma touched_nested_right:
  "tag r = vtag n \<Longrightarrow> touched (D r [] (kids n)) \<subseteq> set (tags_of (flatten n))"
  using touched_D[of r "[]" "kids n"] by (auto simp: tags_of_flatten)

lemma run_single [simp]: "run [m] t c = step m t c"
  by (cases "step m t c") simp_all

lemma run_append_fun: "run (a @ b) t = (\<lambda>c. run a t c \<bind> run b t)"
  by (rule ext) (rule run_append)

lemma run_Nil_fun: "run [] t = Some"
  by (rule ext) simp

lemma run_single_fun: "run [m] t = step m t"
  by (rule ext) (rule run_single)

lemma covers_Nil [simp]: "hostChildren To = [] \<Longrightarrow> hostChildren Tn = [] \<Longrightarrow> covers [] To Tn"
  by (simp add: covers_def)

text \<open>On one cell, a segment is the elements that touch the cell.\<close>

lemma run_concat_filter:
  "(\<And>i. i \<in> set js \<Longrightarrow> \<not> P i \<Longrightarrow> t \<notin> touched (f i)) \<Longrightarrow>
     run (concat (map f js)) t = run (concat (map f (filter P js))) t"
proof (induction js)
  case Nil
  then show ?case by simp
next
  case (Cons j js)
  then have IH: "run (concat (map f js)) t = run (concat (map f (filter P js))) t" by simp
  show ?case
  proof (cases "P j")
    case True
    then show ?thesis by (simp add: run_append_fun IH)
  next
    case False
    with Cons.prems[of j] have "run (f j) t = Some"
      by (intro ext run_untouched) simp
    with False show ?thesis by (simp add: run_append_fun IH)
  qed
qed

lemma filter_upt_none: "(\<And>i. lo \<le> i \<Longrightarrow> i < hi \<Longrightarrow> \<not> P i) \<Longrightarrow> filter P [lo..<hi] = []"
  by (simp add: filter_empty_conv)

lemma upt_split: "lo \<le> k \<Longrightarrow> k < hi \<Longrightarrow> [lo..<hi] = [lo..<k] @ k # [Suc k..<hi]"
proof -
  assume k: "lo \<le> k" "k < hi"
  then have "[lo..<hi] = [lo..<k] @ [k..<hi]"
    using upt_add_eq_append[of lo k "hi - k"] by simp
  moreover have "[k..<hi] = k # [Suc k..<hi]" using k by (simp add: upt_conv_Cons)
  ultimately show ?thesis by simp
qed

lemma filter_upt_one:
  assumes "lo \<le> j" "j < hi" "P j" "\<And>i. lo \<le> i \<Longrightarrow> i < hi \<Longrightarrow> P i \<Longrightarrow> i = j"
  shows "filter P [lo..<hi] = [j]"
proof -
  have "\<not> P i" if "lo \<le> i" "i < j" for i
  proof
    assume "P i"
    with assms(4)[of i] that assms(2) show False by simp
  qed
  then have "filter P [lo..<j] = []" by (auto simp: filter_empty_conv)
  moreover have "\<not> P i" if "Suc j \<le> i" "i < hi" for i
  proof
    assume "P i"
    with assms(4)[of i] that assms(1) show False by simp
  qed
  then have "filter P [Suc j..<hi] = []" by (auto simp: filter_empty_conv)
  ultimately show ?thesis using assms(3) by (simp add: upt_split[OF assms(1,2)])
qed

lemma filter_upt_two:
  assumes "lo \<le> j" "j < k" "k < hi" "P j" "P k"
    "\<And>i. lo \<le> i \<Longrightarrow> i < hi \<Longrightarrow> P i \<Longrightarrow> i = j \<or> i = k"
  shows "filter P [lo..<hi] = [j, k]"
proof -
  have lk: "lo \<le> k" using assms(1,2) by simp
  have "filter P [lo..<k] = [j]"
  proof (rule filter_upt_one[of lo j k P, OF assms(1,2,4)])
    fix i assume i: "lo \<le> i" "i < k" "P i"
    with assms(3) have "i < hi" by simp
    from assms(6)[OF i(1) this i(3)] i(2) show "i = j" by auto
  qed
  moreover have "filter P [Suc k..<hi] = []"
  proof -
    have "\<not> P i" if "Suc k \<le> i" "i < hi" for i
    proof
      assume "P i"
      with assms(6)[of i] that assms(1,2) show False by auto
    qed
    then show ?thesis by (auto simp: filter_empty_conv)
  qed
  ultimately show ?thesis using assms(5) by (simp add: upt_split[OF lk assms(3)])
qed

subsection \<open>The order of deletes and creates in an appended list\<close>

lemma deletes_before_creates_left:
  "deletes_before_creates (a @ b) \<Longrightarrow> deletes_before_creates a"
  by (simp add: deletes_before_creates_append)

lemma deletes_before_creates_right:
  "deletes_before_creates (a @ b) \<Longrightarrow> deletes_before_creates b"
  by (simp add: deletes_before_creates_append)

lemma deletes_before_creates_cross:
  "deletes_before_creates (a @ b) \<Longrightarrow> CreateMutation v \<in> set a \<Longrightarrow> DeleteMutation w \<in> set b \<Longrightarrow>
     tag v \<noteq> tag w"
  by (simp add: deletes_before_creates_append)

lemma deletes_before_creates_element:
  "deletes_before_creates (concat (map f js)) \<Longrightarrow> j \<in> set js \<Longrightarrow> deletes_before_creates (f j)"
  by (rule deletes_before_creates_concat[of "map f js"]) simp_all

subsection \<open>One call covers the cells below its parent\<close>

lemma D_covers:
  assumes "hostChildren To = map flatten (reorderInPlaceIfNeeded olds0)"
    and "hostChildren Tn = map flatten (reorderInPlaceIfNeeded news0)"
    and "htag To = tag parent"
    and "reconcilable To Tn"
    and "deletes_before_creates (D parent olds0 news0)"
  shows "covers (D parent olds0 news0) To Tn"
  using assms
proof (induction "pairs_weight olds0 + pairs_weight news0"
    arbitrary: parent olds0 news0 To Tn rule: less_induct)
  case less
  note hp = less.prems(3) and df = less.prems(4)
  from df have e: "htag To = htag Tn" and d: "distinct (tags_of To)" "distinct (tags_of Tn)"
    and nz: "0 \<notin> set (tags_of To)" "0 \<notin> set (tags_of Tn)"
    and rs: "reinserted_same To Tn"
    by (simp_all add: reconcilable_def)
  show ?case
  proof (cases "olds0 = [] \<and> news0 = []")
    case True
    with less.prems(1,2) show ?thesis by simp
  next
    case False
    define olds where "olds = reorderInPlaceIfNeeded olds0"
    define news where "news = reorderInPlaceIfNeeded news0"
    define L where "L = stage1_stop olds news 0"
    define ip2 where "ip2 = inserted_map news L"
    define ip3 where "ip3 = insertedPairs_at olds L (length olds - L) ip2"
    define os where "os = map flatten olds"
    define ns where "ns = map flatten news"
    have hos: "hostChildren To = os" and hns: "hostChildren Tn = ns"
      using less.prems(1,2) by (simp_all add: os_def ns_def olds_def news_def)
    define e_dd1 where "e_dd1 = (\<lambda>j. if kids (news ! j) = []
        then D (shadowView (olds ! j)) (kids (olds ! j)) (kids (news ! j)) else [])"
    define e_dw1 where "e_dw1 = (\<lambda>j. if kids (news ! j) \<noteq> []
        then D (shadowView (olds ! j)) (kids (olds ! j)) (kids (news ! j)) else [])"
    define e_dd3 where "e_dd3 = (\<lambda>j. case partner olds L ip2 j of
          None \<Rightarrow> D (shadowView (olds ! j)) (kids (olds ! j)) []
        | Some n \<Rightarrow> if pair_ne n (olds ! j) \<and> kids n = []
            then D (shadowView n) (kids (olds ! j)) (kids n) else [])"
    define e_dw3 where "e_dw3 = (\<lambda>j. case partner olds L ip2 j of
          None \<Rightarrow> []
        | Some n \<Rightarrow> if pair_ne n (olds ! j) \<and> kids n \<noteq> []
            then D (shadowView n) (kids (olds ! j)) (kids n) else [])"
    define e_dw4 where "e_dw4 = (\<lambda>j. if find_TinyMap (vtag (news ! j)) ip3 = None then []
        else D (shadowView (news ! j)) [] (kids (news ! j)))"
    define e_upd where "e_upd = (\<lambda>j. if shadowView (olds ! j) \<noteq> shadowView (news ! j)
        then [UpdateMutation parent (shadowView (olds ! j)) (shadowView (news ! j)) (int j)]
        else [])"
    define e_del where "e_del = (\<lambda>j. case partner olds L ip2 j of
          None \<Rightarrow> [DeleteMutation (shadowView (olds ! j))] | Some _ \<Rightarrow> [])"
    define e_cre where "e_cre = (\<lambda>j. if find_TinyMap (vtag (news ! j)) ip3 = None then []
        else [CreateMutation (shadowView (news ! j))])"
    define e_ins where "e_ins = (\<lambda>j. [InsertMutation parent (shadowView (news ! j)) (int j)])"
    define blk where "blk = D parent olds0 news0"
    have blk: "blk =
        concat (map e_dd1 [0..<L]) @ concat (map e_dd3 [L..<length olds]) @
        concat (map e_upd [0..<L]) @ rev (removes_from parent olds L) @
        concat (map e_del [L..<length olds]) @ concat (map e_cre [L..<length news]) @
        concat (map e_dw1 [0..<L]) @ concat (map e_dw3 [L..<length olds]) @
        concat (map e_dw4 [L..<length news]) @ concat (map e_ins [L..<length news])"
      unfolding blk_def D_nonempty[OF False] Let_def olds_def[symmetric] news_def[symmetric]
        L_def[symmetric] ip2_def[symmetric] ip3_def[symmetric]
      by (simp add: dd1_from_def dd3_from_def dw1_from_def dw3_from_def dw4_from_def
          updates_from_def deletes_from_def creates_from_def inserts_from_def
          e_dd1_def e_dd3_def e_dw1_def e_dw3_def e_dw4_def e_upd_def e_del_def e_cre_def e_ins_def)

    text \<open>The two sibling lists.\<close>
    have L_le: "L \<le> length olds" "L \<le> length news"
      using stage1_stop_le[of 0 olds news] by (simp_all add: L_def)
    have o_mem0: "olds ! j \<in> set olds0" if "j < length olds" for j
      using that nth_mem[of j olds] by (simp add: olds_def)
    have n_mem0: "news ! j \<in> set news0" if "j < length news" for j
      using that nth_mem[of j news] by (simp add: news_def)
    have o_child: "flatten (olds ! j) \<in> set (hostChildren To)" if "j < length olds" for j
      using that by (simp add: hos os_def)
    have n_child: "flatten (news ! j) \<in> set (hostChildren Tn)" if "j < length news" for j
      using that by (simp add: hns ns_def)
    have tags_os: "map htag os = map vtag olds" and tags_ns: "map htag ns = map vtag news"
      by (simp_all add: os_def ns_def)
    have dto: "distinct (map vtag olds)" using distinct_children(2)[OF d(1)] by (simp add: hos tags_os)
    have dtn: "distinct (map vtag news)" using distinct_children(2)[OF d(2)] by (simp add: hns tags_ns)
    have o_inj: "i = j" if "i < length olds" "j < length olds" "vtag (olds ! i) = vtag (olds ! j)" for i j
      using dto that by (auto simp: distinct_conv_nth)
    have n_inj: "i = j" if "i < length news" "j < length news" "vtag (news ! i) = vtag (news ! j)" for i j
      using dtn that by (auto simp: distinct_conv_nth)
    have nzo: "0 \<notin> vtag ` set olds"
    proof
      assume "0 \<in> vtag ` set olds"
      then obtain q where q: "q \<in> set olds" "vtag q = 0" by auto
      then have "flatten q \<in> set (hostChildren To)" by (simp add: hos os_def)
      from tags_of_child[OF this] htag_in_tags[of "flatten q"] q(2) nz(1) show False by auto
    qed
    have nzn: "0 \<notin> vtag ` set news"
    proof
      assume "0 \<in> vtag ` set news"
      then obtain q where q: "q \<in> set news" "vtag q = 0" by auto
      then have "flatten q \<in> set (hostChildren Tn)" by (simp add: hns ns_def)
      from tags_of_child[OF this] htag_in_tags[of "flatten q"] q(2) nz(2) show False by auto
    qed
    have L_eq: "L = aligned_prefix (map htag os) (map htag ns)"
      using stage1_stop_aligned_prefix[of 0 olds news] by (simp add: L_def tags_os tags_ns)
    have al: "vtag (olds ! j) = vtag (news ! j)" if "j < L" for j
      using stage1_stop_aligned[of 0 j olds news] that by (simp add: L_def)
    have cross: "vtag (olds ! j) \<noteq> vtag (news ! k)" if "j < length olds" "k < length news"
      "j < L \<or> k < L" "j \<noteq> k" for j k
    proof (cases "j < L")
      case True
      with al[of j] L_le have "vtag (olds ! j) = vtag (news ! j)" "j < length news" by simp_all
      with n_inj[of j k] that show ?thesis by auto
    next
      case False
      with that have k: "k < L" by simp
      with al[of k] L_le have "vtag (olds ! k) = vtag (news ! k)" "k < length olds" by simp_all
      with o_inj[of j k] that show ?thesis by auto
    qed
    have pS: "partner olds L ip2 j = Some (news ! k)"
      if "L \<le> j" "j < length olds" "L \<le> k" "k < length news" "vtag (news ! k) = vtag (olds ! j)"
      for j k
      unfolding ip2_def by (rule partner_Some[OF dtn dto nzo that])
    have pN: "partner olds L ip2 j = None"
      if "L \<le> j" "j < length olds" "vtag (olds ! j) \<notin> vtag ` set (drop L news)" for j
      unfolding ip2_def by (rule partner_None[OF that(1,2) nzo that(3)])
    have cI: "find_TinyMap (vtag (news ! k)) ip3 = None \<longleftrightarrow> vtag (news ! k) \<in> vtag ` set (drop L olds)"
      if "L \<le> k" "k < length news" for k
      unfolding ip3_def ip2_def by (rule created_iff[OF dtn nzn that L_le(1)])
    have tail_new: "\<exists>k. L \<le> k \<and> k < length news \<and> vtag (news ! k) = a"
      if "a \<in> vtag ` set (drop L news)" for a
    proof -
      from that obtain m where m: "m < length news - L" "a = vtag (drop L news ! m)"
        by (auto simp: in_set_conv_nth)
      with L_le have "L \<le> L + m \<and> L + m < length news \<and> vtag (news ! (L + m)) = a" by simp
      then show ?thesis by blast
    qed
    have tail_old: "\<exists>j. L \<le> j \<and> j < length olds \<and> vtag (olds ! j) = a"
      if "a \<in> vtag ` set (drop L olds)" for a
    proof -
      from that obtain m where m: "m < length olds - L" "a = vtag (drop L olds ! m)"
        by (auto simp: in_set_conv_nth)
      with L_le have "L \<le> L + m \<and> L + m < length olds \<and> vtag (olds ! (L + m)) = a" by simp
      then show ?thesis by blast
    qed
    have in_tail_new: "vtag (news ! k) \<in> vtag ` set (drop L news)" if "L \<le> k" "k < length news" for k
    proof -
      have "drop L news ! (k - L) \<in> set (drop L news)" using that by (intro nth_mem) simp
      moreover have "drop L news ! (k - L) = news ! k" using that by simp
      ultimately show ?thesis by force
    qed
    have in_tail_old: "vtag (olds ! j) \<in> vtag ` set (drop L olds)" if "L \<le> j" "j < length olds" for j
    proof -
      have "drop L olds ! (j - L) \<in> set (drop L olds)" using that by (intro nth_mem) simp
      moreover have "drop L olds ! (j - L) = olds ! j" using that by simp
      ultimately show ?thesis by force
    qed


    text \<open>The tags of the old and of the new subtree at an index.\<close>
    define FO where "FO = (\<lambda>j. set (tags_of (flatten (olds ! j))))"
    define FN where "FN = (\<lambda>k. set (tags_of (flatten (news ! k))))"
    have fo_inj: "i = j" if "i < length olds" "j < length olds" "t \<in> FO i" "t \<in> FO j" for i j t
    proof -
      from child_unique[OF d(1) o_child[OF that(1)] o_child[OF that(2)], of t] that(3,4)
      have "flatten (olds ! i) = flatten (olds ! j)" by (simp add: FO_def)
      then have "vtag (olds ! i) = vtag (olds ! j)" by (metis htag_flatten)
      with o_inj[OF that(1,2)] show ?thesis .
    qed
    have fn_inj: "i = j" if "i < length news" "j < length news" "t \<in> FN i" "t \<in> FN j" for i j t
    proof -
      from child_unique[OF d(2) n_child[OF that(1)] n_child[OF that(2)], of t] that(3,4)
      have "flatten (news ! i) = flatten (news ! j)" by (simp add: FN_def)
      then have "vtag (news ! i) = vtag (news ! j)" by (metis htag_flatten)
      with n_inj[OF that(1,2)] show ?thesis .
    qed
    have FO_unfold: "FO j = insert (vtag (olds ! j)) (forest_tags (kids (olds ! j)))" for j
      by (simp add: FO_def tags_of_flatten)
    have FN_unfold: "FN k = insert (vtag (news ! k)) (forest_tags (kids (news ! k)))" for k
      by (simp add: FN_def tags_of_flatten)
    have top_o: "vtag (olds ! j) \<in> FO j" for j by (simp add: FO_unfold)
    have top_n: "vtag (news ! k) \<in> FN k" for k by (simp add: FN_unfold)
    have notp_o: "tag parent \<notin> FO j" if "j < length olds" for j
      using distinct_children(1)[OF d(1)] o_child[OF that] hp by (auto simp: ftags_def FO_def)
    have notp_n: "tag parent \<notin> FN k" if "k < length news" for k
      using distinct_children(1)[OF d(2)] n_child[OF that] hp e by (auto simp: ftags_def FN_def)
    have cell_o: "cell_of os t = cell_of [flatten (olds ! j)] t" if "j < length olds" "t \<in> FO j" for j t
      using cell_of_child[OF d(1) o_child[OF that(1)], of t] that(2) by (simp add: hos FO_def)
    have cell_n: "cell_of ns t = cell_of [flatten (news ! k)] t" if "k < length news" "t \<in> FN k" for k t
      using cell_of_child[OF d(2) n_child[OF that(1)], of t] that(2) by (simp add: hns FN_def)
    have in_os: "\<exists>j<length olds. t \<in> FO j" if "t \<in> ftags os" for t
    proof -
      from that obtain q where q: "q \<in> set olds" "t \<in> set (tags_of (flatten q))"
        by (auto simp: ftags_def os_def)
      from q(1) obtain j where "j < length olds" "olds ! j = q" by (meson in_set_conv_nth)
      with q(2) show ?thesis by (auto simp: FO_def)
    qed
    have in_ns: "\<exists>k<length news. t \<in> FN k" if "t \<in> ftags ns" for t
    proof -
      from that obtain q where q: "q \<in> set news" "t \<in> set (tags_of (flatten q))"
        by (auto simp: ftags_def ns_def)
      from q(1) obtain k where "k < length news" "news ! k = q" by (meson in_set_conv_nth)
      with q(2) show ?thesis by (auto simp: FN_def)
    qed
    have cell_o_none: "cell_of os t = (None, None)" if "\<And>j. j < length olds \<Longrightarrow> t \<notin> FO j" for t
      using in_os[of t] that by (intro cell_of_outside) auto
    have cell_n_none: "cell_of ns t = (None, None)" if "\<And>k. k < length news \<Longrightarrow> t \<notin> FN k" for t
      using in_ns[of t] that by (intro cell_of_outside) auto
    have cell_o': "cell_of os t = cell_of [flatten (olds ! i)] t"
      if "i < length olds" "\<And>j. j < length olds \<Longrightarrow> t \<in> FO j \<Longrightarrow> j = i" for i t
    proof (cases "t \<in> FO i")
      case True
      then show ?thesis by (rule cell_o[OF that(1)])
    next
      case False
      with that(2) have "\<And>j. j < length olds \<Longrightarrow> t \<notin> FO j" by auto
      from cell_o_none[OF this] False show ?thesis
        by (simp add: cell_of_tree_outside FO_def)
    qed
    have cell_n': "cell_of ns t = cell_of [flatten (news ! i)] t"
      if "i < length news" "\<And>k. k < length news \<Longrightarrow> t \<in> FN k \<Longrightarrow> k = i" for i t
    proof (cases "t \<in> FN i")
      case True
      then show ?thesis by (rule cell_n[OF that(1)])
    next
      case False
      with that(2) have "\<And>k. k < length news \<Longrightarrow> t \<notin> FN k" by auto
      from cell_n_none[OF this] False show ?thesis
        by (simp add: cell_of_tree_outside FN_def)
    qed
    have re_same: "flatten (olds ! j) = flatten (news ! k)"
      if "L \<le> j" "j < length olds" "L \<le> k" "k < length news" "vtag (news ! k) = vtag (olds ! j)"
      for j k
    proof (rule reinserted_same_tail[OF rs])
      show "L = aligned_prefix (map htag (hostChildren To)) (map htag (hostChildren Tn))"
        using L_eq by (simp add: hos hns)
      show "flatten (olds ! j) \<in> set (drop L (hostChildren To))"
        using nth_mem[of "j - L" "drop L os"] that by (simp add: os_def hos)
      show "flatten (news ! k) \<in> set (drop L (hostChildren Tn))"
        using nth_mem[of "k - L" "drop L ns"] that by (simp add: ns_def hns)
      show "htag (flatten (olds ! j)) = htag (flatten (news ! k))" using that(5) by simp
    qed
    have partner_cases: "(partner olds L ip2 j = None \<and> vtag (olds ! j) \<notin> vtag ` set (drop L news)) \<or>
        (\<exists>k. L \<le> k \<and> k < length news \<and> vtag (news ! k) = vtag (olds ! j) \<and>
           partner olds L ip2 j = Some (news ! k))"
      if "L \<le> j" "j < length olds" for j
    proof (cases "vtag (olds ! j) \<in> vtag ` set (drop L news)")
      case True
      from tail_new[OF this] obtain k where k: "L \<le> k" "k < length news"
        "vtag (news ! k) = vtag (olds ! j)" by blast
      with pS[OF that k] show ?thesis by blast
    next
      case False
      with pN[OF that] show ?thesis by simp
    qed

    text \<open>The elements of the segments, and what they touch.\<close>
    define E where "E = (\<lambda>i. D (shadowView (olds ! i)) (kids (olds ! i)) (kids (news ! i)))"
    have el_al: "(kids (news ! i) = [] \<longrightarrow> e_dd1 i = E i \<and> e_dw1 i = []) \<and>
        (kids (news ! i) \<noteq> [] \<longrightarrow> e_dd1 i = [] \<and> e_dw1 i = E i)" for i
      by (simp add: e_dd1_def e_dw1_def E_def)
    have el_re: "e_dd3 j = [] \<and> e_dw3 j = [] \<and> e_del j = []"
      if "L \<le> j" "j < length olds" "L \<le> k" "k < length news" "vtag (news ! k) = vtag (olds ! j)"
      for j k
    proof -
      have "hostView (flatten (olds ! j)) = hostView (flatten (news ! k))"
        using re_same[OF that] by simp
      then have "\<not> pair_ne (news ! k) (olds ! j)" by (simp add: pair_ne_def)
      with pS[OF that] show ?thesis by (simp add: e_dd3_def e_dw3_def e_del_def)
    qed
    have el_dl: "e_dd3 j = D (shadowView (olds ! j)) (kids (olds ! j)) [] \<and> e_dw3 j = [] \<and>
        e_del j = [DeleteMutation (shadowView (olds ! j))]"
      if "L \<le> j" "j < length olds" "vtag (olds ! j) \<notin> vtag ` set (drop L news)" for j
      using pN[OF that] by (simp add: e_dd3_def e_dw3_def e_del_def)
    have el_dw3: "e_dw3 j = []" if "L \<le> j" "j < length olds" for j
      using partner_cases[OF that] el_re[OF that] el_dl[OF that] by blast
    have el_cr: "e_cre k = [CreateMutation (shadowView (news ! k))] \<and>
        e_dw4 k = D (shadowView (news ! k)) [] (kids (news ! k))"
      if "L \<le> k" "k < length news" "vtag (news ! k) \<notin> vtag ` set (drop L olds)" for k
      using cI[OF that(1,2)] that(3) by (auto simp: e_cre_def e_dw4_def)
    have el_nc: "e_cre k = [] \<and> e_dw4 k = []"
      if "L \<le> k" "k < length news" "vtag (news ! k) \<in> vtag ` set (drop L olds)" for k
      using cI[OF that(1,2)] that(3) by (simp add: e_cre_def e_dw4_def)
    have b_E: "touched (E i) \<subseteq> FO i \<union> FN i" for i
      unfolding E_def FO_def FN_def by (rule touched_nested) simp
    have b_dd1: "touched (e_dd1 i) \<subseteq> FO i \<union> FN i" for i
      using b_E[of i] el_al[of i] by (cases "kids (news ! i) = []") simp_all
    have b_dw1: "touched (e_dw1 i) \<subseteq> FO i \<union> FN i" for i
      using b_E[of i] el_al[of i] by (cases "kids (news ! i) = []") simp_all
    have b_upd: "touched (e_upd i) \<subseteq> FO i \<union> FN i" for i
      using top_o[of i] by (simp add: e_upd_def)
    have b_dd3: "touched (e_dd3 j) \<subseteq> FO j" if "L \<le> j" "j < length olds" for j
      using partner_cases[OF that]
    proof (elim disjE conjE exE)
      assume "vtag (olds ! j) \<notin> vtag ` set (drop L news)"
      from el_dl[OF that this] touched_nested_left[of "shadowView (olds ! j)" "olds ! j"]
      show ?thesis by (simp add: FO_def)
    next
      fix k assume "L \<le> k" "k < length news" "vtag (news ! k) = vtag (olds ! j)"
      from el_re[OF that this] show ?thesis by simp
    qed
    have b_del: "touched (e_del j) \<subseteq> FO j" for j
      using top_o[of j] by (simp add: e_del_def split: option.splits)
    have b_cre: "touched (e_cre k) \<subseteq> FN k" for k
      using top_n[of k] by (simp add: e_cre_def)
    have b_dw4: "touched (e_dw4 k) \<subseteq> FN k" for k
      using touched_nested_right[of "shadowView (news ! k)" "news ! k"]
      by (simp add: e_dw4_def FN_def)
    have b_ins: "touched (e_ins k) \<subseteq> insert (tag parent) (FN k)" for k
      using top_n[of k] by (simp add: e_ins_def)
    have b_rem: "touched (rev (removes_from parent olds L)) \<subseteq> {tag parent}"
      by (auto simp: removes_from_def touched_def)
    have dw3_Nil: "concat (map e_dw3 [L..<length olds]) = []"
      using el_dw3 by simp

    text \<open>On one cell below the parent, the block is the elements at the indices of the cell.\<close>
    define A where "A = (\<lambda>t. filter (\<lambda>i. t \<in> FO i \<union> FN i) [0..<L])"
    define Ot where "Ot = (\<lambda>t. filter (\<lambda>j. t \<in> FO j) [L..<length olds])"
    define Nt where "Nt = (\<lambda>t. filter (\<lambda>k. t \<in> FN k) [L..<length news])"
    have red: "run blk t c =
        run (concat (map e_dd1 (A t)) @ concat (map e_dd3 (Ot t)) @ concat (map e_upd (A t)) @
             concat (map e_del (Ot t)) @ concat (map e_cre (Nt t)) @ concat (map e_dw1 (A t)) @
             concat (map e_dw4 (Nt t)) @ concat (map e_ins (Nt t))) t c"
      if tp: "t \<noteq> tag parent" for t c
    proof -
      have r: "run (concat (map e_dd1 [0..<L])) t = run (concat (map e_dd1 (A t))) t"
        "run (concat (map e_upd [0..<L])) t = run (concat (map e_upd (A t))) t"
        "run (concat (map e_dw1 [0..<L])) t = run (concat (map e_dw1 (A t))) t"
        "run (concat (map e_dd3 [L..<length olds])) t = run (concat (map e_dd3 (Ot t))) t"
        "run (concat (map e_del [L..<length olds])) t = run (concat (map e_del (Ot t))) t"
        "run (concat (map e_cre [L..<length news])) t = run (concat (map e_cre (Nt t))) t"
        "run (concat (map e_dw4 [L..<length news])) t = run (concat (map e_dw4 (Nt t))) t"
        "run (concat (map e_ins [L..<length news])) t = run (concat (map e_ins (Nt t))) t"
        "run (rev (removes_from parent olds L)) t = Some"
      proof -
        show "run (concat (map e_dd1 [0..<L])) t = run (concat (map e_dd1 (A t))) t"
          unfolding A_def using b_dd1 by (intro run_concat_filter) auto
        show "run (concat (map e_upd [0..<L])) t = run (concat (map e_upd (A t))) t"
          unfolding A_def using b_upd by (intro run_concat_filter) auto
        show "run (concat (map e_dw1 [0..<L])) t = run (concat (map e_dw1 (A t))) t"
          unfolding A_def using b_dw1 by (intro run_concat_filter) auto
        show "run (concat (map e_dd3 [L..<length olds])) t = run (concat (map e_dd3 (Ot t))) t"
          unfolding Ot_def using b_dd3 by (intro run_concat_filter) auto
        show "run (concat (map e_del [L..<length olds])) t = run (concat (map e_del (Ot t))) t"
          unfolding Ot_def using b_del by (intro run_concat_filter) auto
        show "run (concat (map e_cre [L..<length news])) t = run (concat (map e_cre (Nt t))) t"
          unfolding Nt_def using b_cre by (intro run_concat_filter) auto
        show "run (concat (map e_dw4 [L..<length news])) t = run (concat (map e_dw4 (Nt t))) t"
          unfolding Nt_def using b_dw4 by (intro run_concat_filter) auto
        show "run (concat (map e_ins [L..<length news])) t = run (concat (map e_ins (Nt t))) t"
          unfolding Nt_def using b_ins tp by (intro run_concat_filter) auto
        show "run (rev (removes_from parent olds L)) t = Some"
          using b_rem tp by (intro ext run_untouched) auto
      qed
      show ?thesis
        unfolding blk dw3_Nil run_append_fun r run_Nil_fun by simp
    qed

    text \<open>The order of deletes and creates, in the segments.\<close>
    have dbc1: "deletes_before_creates
        (concat (map e_dd1 [0..<L]) @ concat (map e_dd3 [L..<length olds]) @
         concat (map e_upd [0..<L]) @ rev (removes_from parent olds L) @
         concat (map e_del [L..<length olds]) @ concat (map e_cre [L..<length news]) @
         concat (map e_dw1 [0..<L]) @ concat (map e_dw3 [L..<length olds]) @
         concat (map e_dw4 [L..<length news]) @ concat (map e_ins [L..<length news]))"
      using less.prems(5) blk by (simp add: blk_def)
    note dbc2 = deletes_before_creates_right[OF dbc1]
    note dbc3 = deletes_before_creates_right[OF dbc2]
    note dbc4 = deletes_before_creates_right[OF dbc3]
    note dbc5 = deletes_before_creates_right[OF dbc4]
    note dbc6 = deletes_before_creates_right[OF dbc5]
    note dbc7 = deletes_before_creates_right[OF dbc6]
    note dbc8 = deletes_before_creates_right[OF dbc7]
    note dbc9 = deletes_before_creates_right[OF dbc8]
    note dbc_dd1 = deletes_before_creates_left[OF dbc1]
    note dbc_dd3 = deletes_before_creates_left[OF dbc2]
    note dbc_dw1 = deletes_before_creates_left[OF dbc7]
    note dbc_dw4 = deletes_before_creates_left[OF dbc9]
    have dbc_E: "deletes_before_creates (E i)" if "i < L" for i
    proof (cases "kids (news ! i) = []")
      case True
      with el_al[of i] have "e_dd1 i = E i" by simp
      with deletes_before_creates_element[OF dbc_dd1, of i] that show ?thesis by simp
    next
      case False
      with el_al[of i] have "e_dw1 i = E i" by simp
      with deletes_before_creates_element[OF dbc_dw1, of i] that show ?thesis by simp
    qed

    text \<open>The nested calls.\<close>
    have cov_al: "covers (E i) (flatten (olds ! i)) (flatten (news ! i))" if i: "i < L" for i
      unfolding E_def
    proof (rule less.hyps)
      have il: "i < length olds" "i < length news" using i L_le by simp_all
      show "pairs_weight (kids (olds ! i)) + pairs_weight (kids (news ! i))
          < pairs_weight olds0 + pairs_weight news0"
        using kids_weight_lt2[OF o_mem0[OF il(1)] n_mem0[OF il(2)]] .
      have "reconcilable (hostChildren To ! i) (hostChildren Tn ! i)"
      proof (rule reconcilable_aligned[OF df])
        show "i < aligned_prefix (map htag (hostChildren To)) (map htag (hostChildren Tn))"
          using i L_eq by (simp add: hos hns)
        show "htag (hostChildren To ! i) = htag (hostChildren Tn ! i)"
          using al[OF i] il by (simp add: hos hns os_def ns_def)
      qed
      then show "reconcilable (flatten (olds ! i)) (flatten (news ! i))"
        using il by (simp add: hos hns os_def ns_def)
      show "deletes_before_creates (D (shadowView (olds ! i)) (kids (olds ! i)) (kids (news ! i)))"
        using dbc_E[OF i] by (simp add: E_def)
    qed simp_all
    have cov_dl: "covers (e_dd3 j) (flatten (olds ! j)) (HostView (shadowView (olds ! j)) [])"
      if j: "L \<le> j" "j < length olds" and no: "vtag (olds ! j) \<notin> vtag ` set (drop L news)" for j
    proof -
      have el: "e_dd3 j = D (shadowView (olds ! j)) (kids (olds ! j)) []"
        using el_dl[OF j no] by simp
      show ?thesis unfolding el
      proof (rule less.hyps)
        show "pairs_weight (kids (olds ! j)) + pairs_weight [] < pairs_weight olds0 + pairs_weight news0"
          using kids_weight_lt[OF o_mem0[OF j(2)]] by simp
        show "reconcilable (flatten (olds ! j)) (HostView (shadowView (olds ! j)) [])"
          using reconcilable_leaf_right[OF df o_child[OF j(2)]] by simp
        show "deletes_before_creates (D (shadowView (olds ! j)) (kids (olds ! j)) [])"
          using deletes_before_creates_element[OF dbc_dd3, of j] j el by simp
      qed simp_all
    qed
    have cov_cr: "covers (e_dw4 k) (HostView (shadowView (news ! k)) []) (flatten (news ! k))"
      if k: "L \<le> k" "k < length news" and no: "vtag (news ! k) \<notin> vtag ` set (drop L olds)" for k
    proof -
      have el: "e_dw4 k = D (shadowView (news ! k)) [] (kids (news ! k))"
        using el_cr[OF k no] by simp
      show ?thesis unfolding el
      proof (rule less.hyps)
        show "pairs_weight [] + pairs_weight (kids (news ! k)) < pairs_weight olds0 + pairs_weight news0"
          using kids_weight_lt[OF n_mem0[OF k(2)]] by simp
        show "reconcilable (HostView (shadowView (news ! k)) []) (flatten (news ! k))"
          using reconcilable_leaf_left[OF df n_child[OF k(2)]] by simp
        show "deletes_before_creates (D (shadowView (news ! k)) [] (kids (news ! k)))"
          using deletes_before_creates_element[OF dbc_dw4, of k] k el by simp
      qed simp_all
    qed

    text \<open>An aligned child, below its top and at its top.\<close>
    have al_low: "run (E i) t (cell_of [flatten (olds ! i)] t) = Some (cell_of [flatten (news ! i)] t)"
      if i: "i < L" and t: "t \<noteq> vtag (olds ! i)" for i t
    proof -
      define co where "co = cell_of (hostChildren (flatten (olds ! i))) t"
      define cn where "cn = cell_of (hostChildren (flatten (news ! i))) t"
      have "run (E i) t co = Some cn"
        using cov_al[OF i] t by (simp add: covers_def co_def cn_def)
      moreover have "cell_of [flatten (olds ! i)] t = co"
        using t by (simp add: cell_of_tree co_def)
      moreover have "cell_of [flatten (news ! i)] t = cn"
        using t al[OF i] by (simp add: cell_of_tree cn_def)
      ultimately show ?thesis by simp
    qed
    have upd_low: "run (e_upd i) t c = Some c" if "t \<noteq> vtag (olds ! i)" for i t c
      using that by (intro run_untouched) (auto simp: e_upd_def)
    have al_top: "run (e_dd1 i @ e_upd i @ e_dw1 i) t (cell_of [flatten (olds ! i)] t) =
        Some (cell_of [flatten (news ! i)] t)"
      if i: "i < L" and t: "t = vtag (olds ! i)" for i t
    proof -
      let ?q = "olds ! i" and ?n = "news ! i"
      define cho where "cho = map htag (hostChildren (flatten ?q))"
      define chn where "chn = map htag (hostChildren (flatten ?n))"
      have an: "vtag ?n = vtag ?q" using al[OF i] by simp
      have U: "run (e_upd i) t (Some (shadowView ?q), c) = Some (Some (shadowView ?n), c)" for c
      proof (cases "shadowView ?q = shadowView ?n")
        case True
        then have "e_upd i = []" by (simp add: e_upd_def)
        with True show ?thesis by simp
      next
        case False
        then have "e_upd i = [UpdateMutation parent (shadowView ?q) (shadowView ?n) (int i)]"
          by (simp add: e_upd_def)
        with step_Update[of "shadowView ?n" "shadowView ?q" parent "int i" c] an t
        show ?thesis by simp
      qed
      have S2: "run (E i) t (v, Some cho) = Some (v, Some chn)" for v
        using cov_al[OF i] by (simp add: covers_def t cho_def chn_def)
      have cq: "cell_of [flatten ?q] t = (Some (shadowView ?q), Some cho)"
        by (simp add: cell_of_tree t cho_def)
      have cn: "cell_of [flatten ?n] t = (Some (shadowView ?n), Some chn)"
        using an by (simp add: cell_of_tree t chn_def)
      show ?thesis
      proof (cases "kids ?n = []")
        case True
        with el_al[of i] have el: "e_dd1 i = E i" "e_dw1 i = []" by simp_all
        show ?thesis unfolding el cq cn run_append by (simp add: S2 U)
      next
        case False
        with el_al[of i] have el: "e_dd1 i = []" "e_dw1 i = E i" by simp_all
        show ?thesis unfolding el cq cn run_append by (simp add: S2 U)
      qed
    qed

    text \<open>A deleted child: the nested call empties it, then it is deleted.\<close>
    have dl_fam: "run (e_dd3 j @ e_del j) t (cell_of [flatten (olds ! j)] t) = Some (None, None)"
      if j: "L \<le> j" "j < length olds" and no: "vtag (olds ! j) \<notin> vtag ` set (drop L news)" for j t
    proof -
      let ?q = "olds ! j"
      note cov = cov_dl[OF j no]
      have el: "e_del j = [DeleteMutation (shadowView ?q)]" using el_dl[OF j no] by simp
      show ?thesis
      proof (cases "t = vtag ?q")
        case True
        define cho where "cho = map htag (hostChildren (flatten ?q))"
        have S2: "run (e_dd3 j) t (v, Some cho) = Some (v, Some [])" for v
          using cov by (simp add: covers_def True cho_def)
        have cq: "cell_of [flatten ?q] t = (Some (shadowView ?q), Some cho)"
          by (simp add: cell_of_tree True cho_def)
        have "step (DeleteMutation (shadowView ?q)) t (Some (shadowView ?q), Some []) = Some (None, None)"
          using step_Delete[of "shadowView ?q"] True by simp
        then show ?thesis unfolding el cq run_append by (simp add: S2)
      next
        case False
        define co where "co = cell_of (hostChildren (flatten ?q)) t"
        have S1: "run (e_dd3 j) t co = Some (None, None)"
          using cov False by (simp add: covers_def co_def)
        have cq: "cell_of [flatten ?q] t = co"
          using False by (simp add: cell_of_tree co_def)
        show ?thesis unfolding el cq run_append using False by (simp add: S1 step_untouched)
      qed
    qed

    text \<open>A created child: it is created, the nested call fills it, then it is inserted.\<close>
    have cr_top: "run (e_cre k) t (None, None) = Some (Some (shadowView (news ! k)), Some []) \<and>
        run (e_dw4 k @ e_ins k) t (Some (shadowView (news ! k)), Some []) =
          Some (cell_of [flatten (news ! k)] t)"
      if k: "L \<le> k" "k < length news" and no: "vtag (news ! k) \<notin> vtag ` set (drop L olds)"
        and t: "t = vtag (news ! k)" for k t
    proof -
      let ?n = "news ! k"
      note cov = cov_cr[OF k no]
      define chn where "chn = map htag (hostChildren (flatten ?n))"
      have tp: "tag parent \<noteq> vtag ?n" using notp_n[OF k(2)] top_n[of k] by auto
      have el: "e_cre k = [CreateMutation (shadowView ?n)]" using el_cr[OF k no] by simp
      have S2: "run (e_dw4 k) t (v, Some []) = Some (v, Some chn)" for v
        using cov by (simp add: covers_def t chn_def)
      have cn: "cell_of [flatten ?n] t = (Some (shadowView ?n), Some chn)"
        by (simp add: cell_of_tree t chn_def)
      have C: "step (CreateMutation (shadowView ?n)) t (None, None) = Some (Some (shadowView ?n), Some [])"
        using step_Create[of "shadowView ?n"] t by simp
      have I: "step (InsertMutation parent (shadowView ?n) (int k)) t (Some (shadowView ?n), c) =
          Some (Some (shadowView ?n), c)" for c
        using step_Insert_child[of parent "shadowView ?n" "int k" "shadowView ?n" c] t tp by simp
      show ?thesis unfolding el cn run_append by (simp add: C S2 I e_ins_def)
    qed
    have cr_low: "run (e_cre k) t c = Some c \<and>
        run (e_dw4 k @ e_ins k) t (None, None) = Some (cell_of [flatten (news ! k)] t)"
      if k: "L \<le> k" "k < length news" and no: "vtag (news ! k) \<notin> vtag ` set (drop L olds)"
        and t: "t \<noteq> vtag (news ! k)" "t \<noteq> tag parent" for k t c
    proof -
      let ?n = "news ! k"
      note cov = cov_cr[OF k no]
      define cn where "cn = cell_of (hostChildren (flatten ?n)) t"
      have S1: "run (e_dw4 k) t (None, None) = Some cn"
        using cov t by (simp add: covers_def cn_def)
      have cq: "cell_of [flatten ?n] t = cn"
        using t by (simp add: cell_of_tree cn_def)
      have I: "run (e_ins k) t c' = Some c'" for c'
        using t by (intro run_untouched) (simp add: e_ins_def)
      have C: "run (e_cre k) t c = Some c"
        using t by (intro run_untouched) (simp add: e_cre_def)
      show ?thesis unfolding cq run_append by (simp add: S1 I C)
    qed
    have cr_fam: "run (e_cre k @ e_dw4 k @ e_ins k) t (None, None) = Some (cell_of [flatten (news ! k)] t)"
      if k: "L \<le> k" "k < length news" and no: "vtag (news ! k) \<notin> vtag ` set (drop L olds)"
        and t: "t \<noteq> tag parent" for k t
    proof (cases "t = vtag (news ! k)")
      case True
      from cr_top[OF k no True] show ?thesis by (simp add: run_append_Some)
    next
      case False
      from cr_low[OF k no False t, of "(None, None)"] show ?thesis by (simp add: run_append_Some)
    qed

    text \<open>A child removed and inserted again: only the insertion touches it.\<close>
    have re_fam: "e_dd3 j = [] \<and> e_del j = [] \<and> e_cre k = [] \<and> e_dw4 k = [] \<and>
        run (e_ins k) t (cell_of [flatten (olds ! j)] t) = Some (cell_of [flatten (news ! k)] t)"
      if j: "L \<le> j" "j < length olds" and k: "L \<le> k" "k < length news"
        and eq: "vtag (news ! k) = vtag (olds ! j)" and t: "t \<in> FO j" for j k t
    proof -
      have same: "flatten (olds ! j) = flatten (news ! k)" by (rule re_same[OF j k eq])
      have "vtag (news ! k) \<in> vtag ` set (drop L olds)"
        using nth_mem[of "j - L" "drop L olds"] j eq by (auto simp: image_iff)
      note nc = el_nc[OF k this]
      from cell_of_tree_inside[of t "flatten (olds ! j)"] t
      obtain v cs where c: "cell_of [flatten (olds ! j)] t = (Some v, Some cs)"
        by (auto simp: FO_def)
      have tp: "tag parent \<noteq> vtag (news ! k)" using notp_n[OF k(2)] top_n[of k] by auto
      have tt: "t \<noteq> tag parent" using notp_o[OF j(2)] t by auto
      have "run (e_ins k) t (Some v, Some cs) = Some (Some v, Some cs)"
      proof (cases "t = vtag (news ! k)")
        case True
        with step_Insert_child[of parent "shadowView (news ! k)" "int k" v "Some cs"] tp
        show ?thesis by (simp add: e_ins_def)
      next
        case False
        with tt show ?thesis by (intro run_untouched) (simp add: e_ins_def)
      qed
      with el_re[OF j k eq] nc c same show ?thesis by simp
    qed
    have al_fam: "run (e_dd1 i @ e_upd i @ e_dw1 i) t (cell_of [flatten (olds ! i)] t) =
        Some (cell_of [flatten (news ! i)] t)" if i: "i < L" for i t
    proof (cases "t = vtag (olds ! i)")
      case True
      then show ?thesis by (rule al_top[OF i])
    next
      case False
      note lo = al_low[OF i False] and u = upd_low[OF False]
      show ?thesis
      proof (cases "kids (news ! i) = []")
        case True
        with el_al[of i] have el: "e_dd1 i = E i" "e_dw1 i = []" by simp_all
        show ?thesis unfolding el run_append by (simp add: lo u)
      next
        case False
        with el_al[of i] have el: "e_dd1 i = []" "e_dw1 i = E i" by simp_all
        show ?thesis unfolding el run_append by (simp add: lo u)
      qed
    qed

    text \<open>Which indices hold a cell.\<close>
    have Ot_none: "Ot t = []" if "\<And>j. L \<le> j \<Longrightarrow> j < length olds \<Longrightarrow> t \<notin> FO j" for t
      unfolding Ot_def by (rule filter_upt_none[of L "length olds" "\<lambda>j. t \<in> FO j"]) (rule that)
    have Nt_none: "Nt t = []" if "\<And>k. L \<le> k \<Longrightarrow> k < length news \<Longrightarrow> t \<notin> FN k" for t
      unfolding Nt_def by (rule filter_upt_none[of L "length news" "\<lambda>k. t \<in> FN k"]) (rule that)
    have Ot_one: "Ot t = [j]" if "L \<le> j" "j < length olds" "t \<in> FO j" for j t
      unfolding Ot_def
    proof (rule filter_upt_one[of L j "length olds" "\<lambda>j. t \<in> FO j", OF that])
      fix i assume "L \<le> i" "i < length olds" "t \<in> FO i"
      with fo_inj[of i j t] that show "i = j" by simp
    qed
    have Nt_one: "Nt t = [k]" if "L \<le> k" "k < length news" "t \<in> FN k" for k t
      unfolding Nt_def
    proof (rule filter_upt_one[of L k "length news" "\<lambda>k. t \<in> FN k", OF that])
      fix i assume "L \<le> i" "i < length news" "t \<in> FN i"
      with fn_inj[of i k t] that show "i = k" by simp
    qed
    have A_none: "A t = []" if "\<And>i. i < L \<Longrightarrow> t \<notin> FO i" "\<And>i. i < L \<Longrightarrow> t \<notin> FN i" for t
      unfolding A_def
    proof (rule filter_upt_none[of 0 L "\<lambda>i. t \<in> FO i \<union> FN i"])
      fix i assume "0 \<le> i" "i < L"
      with that[of i] show "\<not> t \<in> FO i \<union> FN i" by simp
    qed
    have A_one: "A t = [i]" if "i < L" "t \<in> FO i \<or> t \<in> FN i"
      "\<And>i'. i' < L \<Longrightarrow> t \<in> FO i' \<Longrightarrow> i' = i" "\<And>i'. i' < L \<Longrightarrow> t \<in> FN i' \<Longrightarrow> i' = i" for i t
      unfolding A_def
    proof (rule filter_upt_one[of 0 i L "\<lambda>i. t \<in> FO i \<union> FN i"])
      show "0 \<le> i" by simp
      show "i < L" by (rule that(1))
      show "t \<in> FO i \<union> FN i" using that(2) by simp
      fix i' assume "0 \<le> i'" "i' < L" "t \<in> FO i' \<union> FN i'"
      with that(3,4)[of i'] show "i' = i" by auto
    qed
    have A_two: "A t = [i, k]" if "i < k" "k < L" "t \<in> FO i \<or> t \<in> FN i" "t \<in> FO k \<or> t \<in> FN k"
      "\<And>i'. i' < L \<Longrightarrow> t \<in> FO i' \<Longrightarrow> i' = i \<or> i' = k"
      "\<And>i'. i' < L \<Longrightarrow> t \<in> FN i' \<Longrightarrow> i' = i \<or> i' = k" for i k t
      unfolding A_def
    proof (rule filter_upt_two[of 0 i k L "\<lambda>i. t \<in> FO i \<union> FN i"])
      show "0 \<le> i" by simp
      show "i < k" by (rule that(1))
      show "k < L" by (rule that(2))
      show "t \<in> FO i \<union> FN i" using that(3) by simp
      show "t \<in> FO k \<union> FN k" using that(4) by simp
      fix i' assume "0 \<le> i'" "i' < L" "t \<in> FO i' \<union> FN i'"
      with that(5,6)[of i'] show "i' = i \<or> i' = k" by auto
    qed
    have created: "vtag (news ! k) \<notin> vtag ` set (drop L olds)"
      if k: "L \<le> k" "k < length news" and t: "t \<in> FN k"
        and o: "\<And>j. L \<le> j \<Longrightarrow> j < length olds \<Longrightarrow> t \<in> FO j \<Longrightarrow> vtag (olds ! j) \<noteq> vtag (news ! k)"
      for k t
    proof
      assume "vtag (news ! k) \<in> vtag ` set (drop L olds)"
      from tail_old[OF this] obtain j where j: "L \<le> j" "j < length olds"
        "vtag (olds ! j) = vtag (news ! k)" by blast
      from re_same[OF j(1,2) k j(3)[symmetric]] t have "t \<in> FO j" by (simp add: FO_def FN_def)
      from o[OF j(1,2) this] j(3) show False by simp
    qed
    have deleted: "vtag (olds ! j) \<notin> vtag ` set (drop L news)"
      if j: "L \<le> j" "j < length olds" and t: "t \<in> FO j"
        and n: "\<And>k. L \<le> k \<Longrightarrow> k < length news \<Longrightarrow> t \<in> FN k \<Longrightarrow> vtag (news ! k) \<noteq> vtag (olds ! j)"
      for j t
    proof
      assume "vtag (olds ! j) \<in> vtag ` set (drop L news)"
      from tail_new[OF this] obtain k where k: "L \<le> k" "k < length news"
        "vtag (news ! k) = vtag (olds ! j)" by blast
      from re_same[OF j k] t have "t \<in> FN k" by (simp add: FO_def FN_def)
      from n[OF k(1,2) this] k(3) show False by simp
    qed
    have below_top: "kids (news ! k) \<noteq> []" if "t \<in> FN k" "t \<noteq> vtag (news ! k)" for k t
    proof
      assume "kids (news ! k) = []"
      with that show False by (simp add: FN_unfold)
    qed

    text \<open>A cell that no child holds.\<close>
    have caseNN: "run blk t (cell_of os t) = Some (cell_of ns t)"
      if tp: "t \<noteq> tag parent" and o_no: "\<And>j. j < length olds \<Longrightarrow> t \<notin> FO j"
        and n_no: "\<And>k. k < length news \<Longrightarrow> t \<notin> FN k" for t
    proof -
      have "A t = []" using o_no n_no L_le by (intro A_none) simp_all
      moreover have "Ot t = []" using o_no by (intro Ot_none) simp
      moreover have "Nt t = []" using n_no by (intro Nt_none) simp
      ultimately have R: "run blk t c = Some c" for c unfolding red[OF tp] by simp
      show ?thesis unfolding R using cell_o_none[of t] cell_n_none[of t] o_no n_no by simp
    qed

    text \<open>A cell of one aligned child.\<close>
    have caseA: "run blk t (cell_of os t) = Some (cell_of ns t)"
      if tp: "t \<noteq> tag parent" and i: "i < L" and t: "t \<in> FO i \<or> t \<in> FN i"
        and uo: "\<And>j. j < length olds \<Longrightarrow> t \<in> FO j \<Longrightarrow> j = i"
        and un: "\<And>k. k < length news \<Longrightarrow> t \<in> FN k \<Longrightarrow> k = i" for t i
    proof -
      have il: "i < length olds" "i < length news" using i L_le by simp_all
      have c0: "cell_of os t = cell_of [flatten (olds ! i)] t" by (rule cell_o'[OF il(1) uo])
      have c1: "cell_of ns t = cell_of [flatten (news ! i)] t" by (rule cell_n'[OF il(2) un])
      have "A t = [i]" using uo un L_le by (intro A_one[OF i t]) simp_all
      moreover have "Ot t = []"
      proof (rule Ot_none)
        fix j assume "L \<le> j" "j < length olds"
        with uo[of j] i show "t \<notin> FO j" by auto
      qed
      moreover have "Nt t = []"
      proof (rule Nt_none)
        fix k assume "L \<le> k" "k < length news"
        with un[of k] i show "t \<notin> FN k" by auto
      qed
      ultimately have R: "run blk t c = run (e_dd1 i @ e_upd i @ e_dw1 i) t c" for c
        unfolding red[OF tp] by simp
      show ?thesis unfolding R c0 c1 by (rule al_fam[OF i])
    qed

    text \<open>A cell that leaves one aligned child and enters another.\<close>
    have caseAA: "run blk t (cell_of os t) = Some (cell_of ns t)"
      if tp: "t \<noteq> tag parent" and i: "i < L" and k: "k < L" and ik: "i \<noteq> k"
        and to: "t \<in> FO i" and tn: "t \<in> FN k" for t i k
    proof -
      have il: "i < length olds" "i < length news" using i L_le by simp_all
      have kl: "k < length olds" "k < length news" using k L_le by simp_all
      have uo: "j = i" if "j < length olds" "t \<in> FO j" for j using fo_inj[OF that(1) il(1) that(2) to] .
      have un: "j = k" if "j < length news" "t \<in> FN j" for j using fn_inj[OF that(1) kl(2) that(2) tn] .
      have ni: "t \<notin> FN i" using un[OF il(2)] ik by auto
      have ok: "t \<notin> FO k" using uo[OF kl(1)] ik by auto
      have ti: "t \<noteq> vtag (olds ! i)" using ni top_n[of i] al[OF i] by auto
      have tk: "t \<noteq> vtag (olds ! k)" using ok top_o[of k] by auto
      have "kids (news ! k) \<noteq> []" using below_top[OF tn] tk al[OF k] by simp
      with el_al[of k] have elk: "e_dd1 k = []" "e_dw1 k = E k" by simp_all
      have c0: "cell_of os t = cell_of [flatten (olds ! i)] t" by (rule cell_o[OF il(1) to])
      have c1: "cell_of ns t = cell_of [flatten (news ! k)] t" by (rule cell_n[OF kl(2) tn])
      have ci: "cell_of [flatten (news ! i)] t = (None, None)"
        using ni by (simp add: cell_of_tree_outside FN_def)
      have ck: "cell_of [flatten (olds ! k)] t = (None, None)"
        using ok by (simp add: cell_of_tree_outside FO_def)
      from cell_of_tree_inside[of t "flatten (olds ! i)"] to
      obtain v cs where vi: "cell_of [flatten (olds ! i)] t = (Some v, Some cs)"
        by (auto simp: FO_def)
      from cell_of_tree_inside[of t "flatten (news ! k)"] tn
      obtain v' cs' where vk: "cell_of [flatten (news ! k)] t = (Some v', Some cs')"
        by (auto simp: FN_def)
      have Ei: "run (E i) t (Some v, Some cs) = Some (None, None)"
        using al_low[OF i ti] ci vi by simp
      have Ek: "run (E k) t (None, None) = Some (Some v', Some cs')"
        using al_low[OF k tk] ck vk by simp
      note ui = upd_low[OF ti] and uk = upd_low[OF tk]
      have O: "Ot t = []"
      proof (rule Ot_none)
        fix j assume "L \<le> j" "j < length olds"
        with uo[of j] i show "t \<notin> FO j" by auto
      qed
      have N: "Nt t = []"
      proof (rule Nt_none)
        fix j assume "L \<le> j" "j < length news"
        with un[of j] k show "t \<notin> FN j" by auto
      qed
      have order: "i < k" if nk: "kids (news ! i) \<noteq> []"
      proof (rule ccontr)
        assume "\<not> i < k"
        with ik have ki: "k < i" by simp
        from nk el_al[of i] have eli: "e_dw1 i = E i" by simp
        from run_has_Delete[OF Ei] obtain w where w: "tag w = t" "DeleteMutation w \<in> set (E i)" by blast
        from run_has_Create[OF Ek] obtain w' where w': "tag w' = t" "CreateMutation w' \<in> set (E k)" by blast
        have "tag w' \<noteq> tag w"
        proof (rule deletes_before_creates_order[OF dbc_dw1 upt_split[of 0 k L]])
          show "0 \<le> k" by simp
          show "k < L" by (rule k)
          show "i \<in> set [Suc k..<L]" using ki i by simp
          show "CreateMutation w' \<in> set (e_dw1 k)" using w'(2) elk by simp
          show "DeleteMutation w \<in> set (e_dw1 i)" using w(2) eli by simp
        qed
        with w(1) w'(1) show False by simp
      qed
      show ?thesis
      proof (cases "i < k")
        case True
        have "A t = [i, k]"
        proof (rule A_two[OF True k])
          show "t \<in> FO i \<or> t \<in> FN i" using to by simp
          show "t \<in> FO k \<or> t \<in> FN k" using tn by simp
          show "i' = i \<or> i' = k" if "i' < L" "t \<in> FO i'" for i' using uo[of i'] that L_le by simp
          show "i' = i \<or> i' = k" if "i' < L" "t \<in> FN i'" for i' using un[of i'] that L_le by simp
        qed
        then have R: "run blk t c =
            run (e_dd1 i @ e_upd i @ e_upd k @ e_dw1 i @ E k) t c" for c
          unfolding red[OF tp] O N by (simp add: elk)
        show ?thesis
        proof (cases "kids (news ! i) = []")
          case True
          with el_al[of i] have el: "e_dd1 i = E i" "e_dw1 i = []" by simp_all
          show ?thesis unfolding R c0 c1 vi vk el run_append by (simp add: Ei Ek ui uk)
        next
          case False
          with el_al[of i] have el: "e_dd1 i = []" "e_dw1 i = E i" by simp_all
          show ?thesis unfolding R c0 c1 vi vk el run_append by (simp add: Ei Ek ui uk)
        qed
      next
        case False
        with ik have ki: "k < i" by simp
        with order have "kids (news ! i) = []" by auto
        with el_al[of i] have el: "e_dd1 i = E i" "e_dw1 i = []" by simp_all
        have "A t = [k, i]"
        proof (rule A_two[OF ki i])
          show "t \<in> FO i \<or> t \<in> FN i" using to by simp
          show "t \<in> FO k \<or> t \<in> FN k" using tn by simp
          show "i' = k \<or> i' = i" if "i' < L" "t \<in> FO i'" for i' using uo[of i'] that L_le by simp
          show "i' = k \<or> i' = i" if "i' < L" "t \<in> FN i'" for i' using un[of i'] that L_le by simp
        qed
        then have R: "run blk t c = run (E i @ e_upd k @ e_upd i @ E k) t c" for c
          unfolding red[OF tp] O N by (simp add: elk el)
        show ?thesis unfolding R c0 c1 vi vk run_append by (simp add: Ei Ek ui uk)
      qed
    qed

    text \<open>A cell that leaves an aligned child and enters a created one.\<close>
    have caseAT: "run blk t (cell_of os t) = Some (cell_of ns t)"
      if tp: "t \<noteq> tag parent" and i: "i < L" and k: "L \<le> k" "k < length news"
        and to: "t \<in> FO i" and tn: "t \<in> FN k" for t i k
    proof -
      have il: "i < length olds" "i < length news" using i L_le by simp_all
      have uo: "j = i" if "j < length olds" "t \<in> FO j" for j using fo_inj[OF that(1) il(1) that(2) to] .
      have un: "j = k" if "j < length news" "t \<in> FN j" for j using fn_inj[OF that(1) k(2) that(2) tn] .
      have ni: "t \<notin> FN i" using un[OF il(2)] i k by auto
      have ti: "t \<noteq> vtag (olds ! i)" using ni top_n[of i] al[OF i] by auto
      have cr: "vtag (news ! k) \<notin> vtag ` set (drop L olds)"
      proof (rule created[OF k tn])
        fix j assume "L \<le> j" "j < length olds" "t \<in> FO j"
        with uo[of j] i show "vtag (olds ! j) \<noteq> vtag (news ! k)" by simp
      qed
      have c0: "cell_of os t = cell_of [flatten (olds ! i)] t" by (rule cell_o[OF il(1) to])
      have c1: "cell_of ns t = cell_of [flatten (news ! k)] t" by (rule cell_n[OF k(2) tn])
      have ci: "cell_of [flatten (news ! i)] t = (None, None)"
        using ni by (simp add: cell_of_tree_outside FN_def)
      from cell_of_tree_inside[of t "flatten (olds ! i)"] to
      obtain v cs where vi: "cell_of [flatten (olds ! i)] t = (Some v, Some cs)"
        by (auto simp: FO_def)
      have Ei: "run (E i) t (Some v, Some cs) = Some (None, None)"
        using al_low[OF i ti] ci vi by simp
      note ui = upd_low[OF ti]
      have "A t = [i]"
      proof (rule A_one[OF i])
        show "t \<in> FO i \<or> t \<in> FN i" using to by simp
        show "i' = i" if "i' < L" "t \<in> FO i'" for i' using uo[of i'] that L_le by simp
        show "i' = i" if "i' < L" "t \<in> FN i'" for i' using un[of i'] that L_le k by simp
      qed
      moreover have "Ot t = []"
      proof (rule Ot_none)
        fix j assume "L \<le> j" "j < length olds"
        with uo[of j] i show "t \<notin> FO j" by auto
      qed
      moreover have "Nt t = [k]" by (rule Nt_one[OF k tn])
      ultimately have R: "run blk t c =
          run (e_dd1 i @ e_upd i @ e_cre k @ e_dw1 i @ e_dw4 k @ e_ins k) t c" for c
        unfolding red[OF tp] by simp
      show ?thesis
      proof (cases "kids (news ! i) = []")
        case True
        with el_al[of i] have el: "e_dd1 i = E i" "e_dw1 i = []" by simp_all
        have "run blk t (cell_of os t) = run (e_upd i @ e_cre k @ e_dw4 k @ e_ins k) t (None, None)"
          unfolding R c0 vi el using run_append_Some[OF Ei] by simp
        also have "\<dots> = run (e_cre k @ e_dw4 k @ e_ins k) t (None, None)"
          by (rule run_append_Some[OF ui])
        also have "\<dots> = Some (cell_of ns t)" unfolding c1 by (rule cr_fam[OF k cr tp])
        finally show ?thesis .
      next
        case False
        with el_al[of i] have el: "e_dd1 i = []" "e_dw1 i = E i" by simp_all
        have low: "t \<noteq> vtag (news ! k)"
        proof
          assume top: "t = vtag (news ! k)"
          from run_has_Delete[OF Ei] obtain w where w: "tag w = t" "DeleteMutation w \<in> set (E i)" by blast
          have "tag (shadowView (news ! k)) \<noteq> tag w"
          proof (rule deletes_before_creates_cross[OF dbc6])
            have "CreateMutation (shadowView (news ! k)) \<in> set (e_cre k)"
              using el_cr[OF k cr] by simp
            then show "CreateMutation (shadowView (news ! k)) \<in> set (concat (map e_cre [L..<length news]))"
              using k by auto
            have "DeleteMutation w \<in> set (e_dw1 i)" using w(2) el(2) by simp
            then have "DeleteMutation w \<in> set (concat (map e_dw1 [0..<L]))"
              using i by auto
            then show "DeleteMutation w \<in> set (concat (map e_dw1 [0..<L]) @ concat (map e_dw3 [L..<length olds]) @
                concat (map e_dw4 [L..<length news]) @ concat (map e_ins [L..<length news]))"
              by simp
          qed
          with w(1) top show False by simp
        qed
        note lo = cr_low[OF k cr low tp]
        have "run blk t (cell_of os t) = run (e_cre k @ E i @ e_dw4 k @ e_ins k) t (Some v, Some cs)"
          unfolding R c0 vi el using run_append_Some[OF ui] by simp
        also have "\<dots> = run (E i @ e_dw4 k @ e_ins k) t (Some v, Some cs)"
          using lo by (intro run_append_Some) simp
        also have "\<dots> = run (e_dw4 k @ e_ins k) t (None, None)"
          by (rule run_append_Some[OF Ei])
        also have "\<dots> = Some (cell_of ns t)" unfolding c1 using lo by simp
        finally show ?thesis .
      qed
    qed

    text \<open>A cell that leaves a deleted child and enters an aligned one.\<close>
    have caseTA: "run blk t (cell_of os t) = Some (cell_of ns t)"
      if tp: "t \<noteq> tag parent" and j: "L \<le> j" "j < length olds" and i: "i < L"
        and to: "t \<in> FO j" and tn: "t \<in> FN i" for t i j
    proof -
      have il: "i < length olds" "i < length news" using i L_le by simp_all
      have uo: "j' = j" if "j' < length olds" "t \<in> FO j'" for j' using fo_inj[OF that(1) j(2) that(2) to] .
      have un: "k = i" if "k < length news" "t \<in> FN k" for k using fn_inj[OF that(1) il(2) that(2) tn] .
      have oi: "t \<notin> FO i" using uo[OF il(1)] i j by auto
      have ti: "t \<noteq> vtag (olds ! i)" using oi top_o[of i] by auto
      have "kids (news ! i) \<noteq> []" using below_top[OF tn] ti al[OF i] by simp
      with el_al[of i] have el: "e_dd1 i = []" "e_dw1 i = E i" by simp_all
      have dl: "vtag (olds ! j) \<notin> vtag ` set (drop L news)"
      proof (rule deleted[OF j to])
        fix k assume "L \<le> k" "k < length news" "t \<in> FN k"
        with un[of k] i show "vtag (news ! k) \<noteq> vtag (olds ! j)" by simp
      qed
      have c0: "cell_of os t = cell_of [flatten (olds ! j)] t" by (rule cell_o[OF j(2) to])
      have c1: "cell_of ns t = cell_of [flatten (news ! i)] t" by (rule cell_n[OF il(2) tn])
      have ci: "cell_of [flatten (olds ! i)] t = (None, None)"
        using oi by (simp add: cell_of_tree_outside FO_def)
      have Ei: "run (E i) t (None, None) = Some (cell_of [flatten (news ! i)] t)"
        using al_low[OF i ti] ci by simp
      note ui = upd_low[OF ti]
      from dl_fam[OF j dl, of t] obtain c' where
        d1: "run (e_dd3 j) t (cell_of [flatten (olds ! j)] t) = Some c'" and
        d2: "run (e_del j) t c' = Some (None, None)"
        by (auto simp: run_append bind_eq_Some_conv)
      have "A t = [i]"
      proof (rule A_one[OF i])
        show "t \<in> FO i \<or> t \<in> FN i" using tn by simp
        show "i' = i" if "i' < L" "t \<in> FO i'" for i' using uo[of i'] that L_le j by simp
        show "i' = i" if "i' < L" "t \<in> FN i'" for i' using un[of i'] that L_le by simp
      qed
      moreover have "Ot t = [j]" by (rule Ot_one[OF j to])
      moreover have "Nt t = []"
      proof (rule Nt_none)
        fix k assume "L \<le> k" "k < length news"
        with un[of k] i show "t \<notin> FN k" by auto
      qed
      ultimately have R: "run blk t c = run (e_dd3 j @ e_upd i @ e_del j @ E i) t c" for c
        unfolding red[OF tp] by (simp add: el)
      have "run blk t (cell_of os t) = run (e_upd i @ e_del j @ E i) t c'"
        unfolding R c0 by (rule run_append_Some[OF d1])
      also have "\<dots> = run (e_del j @ E i) t c'" by (rule run_append_Some[OF ui])
      also have "\<dots> = run (E i) t (None, None)" by (rule run_append_Some[OF d2])
      also have "\<dots> = Some (cell_of ns t)" unfolding c1 by (rule Ei)
      finally show ?thesis .
    qed

    text \<open>A cell of an old child and of a new child, both past the aligned ones.\<close>
    have caseTT: "run blk t (cell_of os t) = Some (cell_of ns t)"
      if tp: "t \<noteq> tag parent" and j: "L \<le> j" "j < length olds" and k: "L \<le> k" "k < length news"
        and to: "t \<in> FO j" and tn: "t \<in> FN k" for t j k
    proof -
      have uo: "j' = j" if "j' < length olds" "t \<in> FO j'" for j' using fo_inj[OF that(1) j(2) that(2) to] .
      have un: "k' = k" if "k' < length news" "t \<in> FN k'" for k' using fn_inj[OF that(1) k(2) that(2) tn] .
      have c0: "cell_of os t = cell_of [flatten (olds ! j)] t" by (rule cell_o[OF j(2) to])
      have c1: "cell_of ns t = cell_of [flatten (news ! k)] t" by (rule cell_n[OF k(2) tn])
      have "A t = []"
      proof (rule A_none)
        show "t \<notin> FO i" if "i < L" for i using uo[of i] that L_le j by auto
        show "t \<notin> FN i" if "i < L" for i using un[of i] that L_le k by auto
      qed
      moreover have "Ot t = [j]" by (rule Ot_one[OF j to])
      moreover have "Nt t = [k]" by (rule Nt_one[OF k tn])
      ultimately have R: "run blk t c =
          run (e_dd3 j @ e_del j @ e_cre k @ e_dw4 k @ e_ins k) t c" for c
        unfolding red[OF tp] by simp
      show ?thesis
      proof (cases "vtag (news ! k) = vtag (olds ! j)")
        case True
        from re_fam[OF j k True to] show ?thesis unfolding R c0 c1 by simp
      next
        case False
        have dl: "vtag (olds ! j) \<notin> vtag ` set (drop L news)"
        proof (rule deleted[OF j to])
          fix k' assume "L \<le> k'" "k' < length news" "t \<in> FN k'"
          with un[of k'] False show "vtag (news ! k') \<noteq> vtag (olds ! j)" by simp
        qed
        have cr: "vtag (news ! k) \<notin> vtag ` set (drop L olds)"
        proof (rule created[OF k tn])
          fix j' assume "L \<le> j'" "j' < length olds" "t \<in> FO j'"
          with uo[of j'] False show "vtag (olds ! j') \<noteq> vtag (news ! k)" by simp
        qed
        have "run blk t (cell_of os t) = run (e_cre k @ e_dw4 k @ e_ins k) t (None, None)"
          unfolding R c0 using run_append_Some[OF dl_fam[OF j dl, of t]] by simp
        also have "\<dots> = Some (cell_of ns t)" unfolding c1 by (rule cr_fam[OF k cr tp])
        finally show ?thesis .
      qed
    qed

    text \<open>A cell of a deleted child only, and of a created child only.\<close>
    have caseTN: "run blk t (cell_of os t) = Some (cell_of ns t)"
      if tp: "t \<noteq> tag parent" and j: "L \<le> j" "j < length olds" and to: "t \<in> FO j"
        and n_no: "\<And>k. k < length news \<Longrightarrow> t \<notin> FN k" for t j
    proof -
      have uo: "j' = j" if "j' < length olds" "t \<in> FO j'" for j' using fo_inj[OF that(1) j(2) that(2) to] .
      have c0: "cell_of os t = cell_of [flatten (olds ! j)] t" by (rule cell_o[OF j(2) to])
      have c1: "cell_of ns t = (None, None)" by (rule cell_n_none) (rule n_no)
      have dl: "vtag (olds ! j) \<notin> vtag ` set (drop L news)"
      proof (rule deleted[OF j to])
        fix k assume "L \<le> k" "k < length news" "t \<in> FN k"
        with n_no[of k] show "vtag (news ! k) \<noteq> vtag (olds ! j)" by simp
      qed
      have "A t = []"
      proof (rule A_none)
        show "t \<notin> FO i" if "i < L" for i using uo[of i] that L_le j by auto
        show "t \<notin> FN i" if "i < L" for i using n_no[of i] that L_le by auto
      qed
      moreover have "Ot t = [j]" by (rule Ot_one[OF j to])
      moreover have "Nt t = []" using n_no by (intro Nt_none) simp
      ultimately have R: "run blk t c = run (e_dd3 j @ e_del j) t c" for c
        unfolding red[OF tp] by simp
      show ?thesis unfolding R c0 c1 by (rule dl_fam[OF j dl])
    qed
    have caseNT: "run blk t (cell_of os t) = Some (cell_of ns t)"
      if tp: "t \<noteq> tag parent" and k: "L \<le> k" "k < length news" and tn: "t \<in> FN k"
        and o_no: "\<And>j. j < length olds \<Longrightarrow> t \<notin> FO j" for t k
    proof -
      have un: "k' = k" if "k' < length news" "t \<in> FN k'" for k' using fn_inj[OF that(1) k(2) that(2) tn] .
      have c0: "cell_of os t = (None, None)" by (rule cell_o_none) (rule o_no)
      have c1: "cell_of ns t = cell_of [flatten (news ! k)] t" by (rule cell_n[OF k(2) tn])
      have cr: "vtag (news ! k) \<notin> vtag ` set (drop L olds)"
      proof (rule created[OF k tn])
        fix j assume "L \<le> j" "j < length olds" "t \<in> FO j"
        with o_no[of j] show "vtag (olds ! j) \<noteq> vtag (news ! k)" by simp
      qed
      have "A t = []"
      proof (rule A_none)
        show "t \<notin> FO i" if "i < L" for i using o_no[of i] that L_le by auto
        show "t \<notin> FN i" if "i < L" for i using un[of i] that L_le k by auto
      qed
      moreover have "Ot t = []" using o_no by (intro Ot_none) simp
      moreover have "Nt t = [k]" by (rule Nt_one[OF k tn])
      ultimately have R: "run blk t c = run (e_cre k @ e_dw4 k @ e_ins k) t c" for c
        unfolding red[OF tp] by simp
      show ?thesis unfolding R c0 c1 by (rule cr_fam[OF k cr tp])
    qed

    text \<open>Every cell below the parent.\<close>
    have below: "run blk t (cell_of os t) = Some (cell_of ns t)" if tp: "t \<noteq> tag parent" for t
    proof (cases "\<exists>j<length olds. t \<in> FO j")
      case oldF: False
      then have o_no: "t \<notin> FO j" if "j < length olds" for j using that by blast
      show ?thesis
      proof (cases "\<exists>k<length news. t \<in> FN k")
        case False
        then have n_no: "t \<notin> FN k" if "k < length news" for k using that by blast
        show ?thesis by (rule caseNN[OF tp o_no n_no])
      next
        case True
        then obtain k where k: "k < length news" "t \<in> FN k" by blast
        show ?thesis
        proof (cases "k < L")
          case True
          show ?thesis
          proof (rule caseA[OF tp True])
            show "t \<in> FO k \<or> t \<in> FN k" using k by simp
            show "j = k" if "j < length olds" "t \<in> FO j" for j using o_no[OF that(1)] that(2) by simp
            show "k' = k" if "k' < length news" "t \<in> FN k'" for k'
              using fn_inj[OF that(1) k(1) that(2) k(2)] .
          qed
        next
          case False
          then have "L \<le> k" by simp
          from caseNT[OF tp this k o_no] show ?thesis .
        qed
      qed
    next
      case True
      then obtain j where j: "j < length olds" "t \<in> FO j" by blast
      have uo: "j' = j" if "j' < length olds" "t \<in> FO j'" for j' using fo_inj[OF that(1) j(1) that(2) j(2)] .
      show ?thesis
      proof (cases "\<exists>k<length news. t \<in> FN k")
        case False
        then have n_no: "t \<notin> FN k" if "k < length news" for k using that by blast
        show ?thesis
        proof (cases "j < L")
          case True
          show ?thesis
          proof (rule caseA[OF tp True])
            show "t \<in> FO j \<or> t \<in> FN j" using j by simp
            show "j' = j" if "j' < length olds" "t \<in> FO j'" for j' by (rule uo[OF that])
            show "k = j" if "k < length news" "t \<in> FN k" for k using n_no[OF that(1)] that(2) by simp
          qed
        next
          case False
          then have "L \<le> j" by simp
          from caseTN[OF tp this j n_no] show ?thesis .
        qed
      next
        case True
        then obtain k where k: "k < length news" "t \<in> FN k" by blast
        have un: "k' = k" if "k' < length news" "t \<in> FN k'" for k' using fn_inj[OF that(1) k(1) that(2) k(2)] .
        show ?thesis
        proof (cases "j < L")
          case jA: True
          show ?thesis
          proof (cases "k < L")
            case kA: True
            show ?thesis
            proof (cases "j = k")
              case True
              show ?thesis
              proof (rule caseA[OF tp jA])
                show "t \<in> FO j \<or> t \<in> FN j" using j by simp
                show "j' = j" if "j' < length olds" "t \<in> FO j'" for j' by (rule uo[OF that])
                show "k' = j" if "k' < length news" "t \<in> FN k'" for k' using un[OF that] True by simp
              qed
            next
              case False
              from caseAA[OF tp jA kA False j(2) k(2)] show ?thesis .
            qed
          next
            case False
            then have "L \<le> k" by simp
            from caseAT[OF tp jA this k(1) j(2) k(2)] show ?thesis .
          qed
        next
          case False
          then have Lj: "L \<le> j" by simp
          show ?thesis
          proof (cases "k < L")
            case True
            from caseTA[OF tp Lj j(1) True j(2) k(2)] show ?thesis .
          next
            case False
            then have "L \<le> k" by simp
            from caseTT[OF tp Lj j(1) this k(1) j(2) k(2)] show ?thesis .
          qed
        qed
      qed
    qed

    text \<open>The cell of the parent: the removals, then the insertions.\<close>
    have famP: "run blk (tag parent) (v, Some (map htag os)) = Some (v, Some (map htag ns))" for v
    proof -
      have r: "run (concat (map e_dd1 [0..<L])) (tag parent) = Some"
        "run (concat (map e_dd3 [L..<length olds])) (tag parent) = Some"
        "run (concat (map e_upd [0..<L])) (tag parent) = Some"
        "run (concat (map e_del [L..<length olds])) (tag parent) = Some"
        "run (concat (map e_cre [L..<length news])) (tag parent) = Some"
        "run (concat (map e_dw1 [0..<L])) (tag parent) = Some"
        "run (concat (map e_dw4 [L..<length news])) (tag parent) = Some"
      proof -
        have a: "tag parent \<notin> FO i \<union> FN i" if "i < L" for i
          using notp_o[of i] notp_n[of i] that L_le by simp
        show "run (concat (map e_dd1 [0..<L])) (tag parent) = Some"
          using b_dd1 a by (intro ext run_concat_none) auto
        show "run (concat (map e_upd [0..<L])) (tag parent) = Some"
          using b_upd a by (intro ext run_concat_none) auto
        show "run (concat (map e_dw1 [0..<L])) (tag parent) = Some"
          using b_dw1 a by (intro ext run_concat_none) auto
        show "run (concat (map e_dd3 [L..<length olds])) (tag parent) = Some"
          using b_dd3 notp_o by (intro ext run_concat_none) auto
        show "run (concat (map e_del [L..<length olds])) (tag parent) = Some"
          using b_del notp_o by (intro ext run_concat_none) auto
        show "run (concat (map e_cre [L..<length news])) (tag parent) = Some"
          using b_cre notp_n by (intro ext run_concat_none) auto
        show "run (concat (map e_dw4 [L..<length news])) (tag parent) = Some"
          using b_dw4 notp_n by (intro ext run_concat_none) auto
      qed
      have ins: "concat (map e_ins [L..<length news]) = inserts_from parent news L"
        by (simp add: e_ins_def inserts_from_def)
      have red: "run blk (tag parent) c = run (rev (removes_from parent olds L)) (tag parent) c \<bind>
          run (inserts_from parent news L) (tag parent)" for c
        unfolding blk dw3_Nil run_append_fun r ins run_Nil_fun by simp
      have pnn: "tag parent \<notin> vtag ` set news"
      proof
        assume "tag parent \<in> vtag ` set news"
        then obtain i where "i < length news" "vtag (news ! i) = tag parent"
          by (auto simp: in_set_conv_nth)
        with top_n[of i] notp_n[of i] show False by simp
      qed
      have tk: "take L (map vtag olds) = take L (map vtag news)"
        unfolding L_eq tags_os tags_ns by (rule aligned_prefix_take)
      show ?thesis
        unfolding red tags_os tags_ns
        by (simp add: removes_run[OF L_le(1)] tk inserts_run[OF L_le(2) pnn])
    qed
    show ?thesis
      unfolding covers_def hos hns blk_def[symmetric] using below famP hp by simp
  qed
qed

section \<open>The root call on the cells of the host\<close>

lemma apply_mutation_stepV:
  "apply_mutation m h = Some h' \<Longrightarrow> stepV m t (mounted h t) = Some (mounted h' t)"
  by (cases m) (auto split: if_splits option.splits)

lemma apply_mutations_runV:
  "apply_mutations ms h = Some h' \<Longrightarrow> runV ms t (mounted h t) = Some (mounted h' t)"
proof (induction ms arbitrary: h)
  case Nil
  then show ?case by simp
next
  case (Cons m ms)
  then obtain h1 where h1: "apply_mutation m h = Some h1" "apply_mutations ms h1 = Some h'"
    by (auto simp: bind_eq_Some_conv)
  from apply_mutation_stepV[OF h1(1), of t] Cons.IH[OF h1(2)] show ?case by simp
qed

lemma root_update_run:
  assumes "tag vn = tag vo"
  shows "run (if vo \<noteq> vn then [UpdateMutation p vo vn i] else []) (tag vo) (Some vo, c)
     = Some (Some vn, c)"
proof (cases "vo = vn")
  case True
  then show ?thesis by simp
next
  case False
  with step_Update[OF assms, of p i c] show ?thesis by simp
qed

text \<open>
  \<open>deletes_precede_creates Old New\<close>: in the list that \<open>diffRoots\<close> returns, no \<^verbatim>\<open>Create\<close>
  of a view comes before a \<^verbatim>\<open>Delete\<close> of a view with the same tag.
\<close>

definition deletes_precede_creates :: "ShadowNode \<Rightarrow> ShadowNode \<Rightarrow> bool" where
  "deletes_precede_creates Old New =
     (case diffRoots Old New of None \<Rightarrow> True | Some ms \<Rightarrow> deletes_before_creates ms)"

lemma diffRoots_cells:
  assumes sf: "sameFamily Old New"
    and d: "distinct (tags_of (projection Old))" "distinct (tags_of (projection New))"
    and nz: "0 \<notin> set (tags_of (projection Old))" "0 \<notin> set (tags_of (projection New))"
    and rs: "reinserted_same (projection Old) (projection New)"
    and dc: "deletes_precede_creates Old New"
  shows "\<exists>ms. diffRoots Old New = Some ms \<and>
     (\<forall>t. run ms t (cell_of [projection Old] t) = Some (cell_of [projection New] t))"
proof -
  let ?To = "projection Old" and ?Tn = "projection New"
  let ?vo = "ShadowView_of Old" and ?vn = "ShadowView_of New"
  let ?olds0 = "sliceChildShadowNodeViewPairs Old" and ?news0 = "sliceChildShadowNodeViewPairs New"
  let ?ms0 = "if ?vo \<noteq> ?vn then [UpdateMutation emptyShadowView ?vo ?vn (- 1)] else []"
  have tg: "tag ?vn = tag ?vo" using sf by (simp add: sameFamily_def ShadowView_of_def)
  have ho: "hostChildren ?To = map flatten (reorderInPlaceIfNeeded ?olds0)" "htag ?To = tag ?vo"
    and hn: "hostChildren ?Tn = map flatten (reorderInPlaceIfNeeded ?news0)" "htag ?Tn = tag ?vo"
    using tg by (simp_all add: projection_def)
  have df: "reconcilable ?To ?Tn"
    unfolding reconcilable_def using d nz rs ho(2) hn(2) by simp
  have "forest_tags ?news0 \<subseteq> set (tags_of ?Tn)"
    by (simp add: ftags_children hn(1) forest_tags_ftags[of "reorderInPlaceIfNeeded ?news0", symmetric]
        subset_insertI)
  with nz(2) have "0 \<notin> forest_tags ?news0" by auto
  from calculateShadowViewMutations_closed[OF this, of ?ms0 ?vo ?olds0]
  have res: "diffRoots Old New = Some (?ms0 @ D ?vo ?olds0 ?news0)"
    using sf by (simp add: diffRoots_def Let_def)
  from dc res have "deletes_before_creates (?ms0 @ D ?vo ?olds0 ?news0)"
    by (simp add: deletes_precede_creates_def)
  then have dbc: "deletes_before_creates (D ?vo ?olds0 ?news0)"
    by (rule deletes_before_creates_right)
  have cov: "covers (D ?vo ?olds0 ?news0) ?To ?Tn"
    by (rule D_covers[OF ho(1) hn(1) ho(2) df dbc])
  have cells: "run (?ms0 @ D ?vo ?olds0 ?news0) t (cell_of [?To] t) = Some (cell_of [?Tn] t)" for t
  proof (cases "t = tag ?vo")
    case True
    have co: "cell_of [?To] t = (Some ?vo, Some (map htag (hostChildren ?To)))"
      using True ho(2) by (simp add: cell_of_tree) (simp add: projection_def)
    have cn: "cell_of [?Tn] t = (Some ?vn, Some (map htag (hostChildren ?Tn)))"
      using True hn(2) by (simp add: cell_of_tree) (simp add: projection_def)
    have "run (D ?vo ?olds0 ?news0) t (Some ?vn, Some (map htag (hostChildren ?To)))
        = Some (Some ?vn, Some (map htag (hostChildren ?Tn)))"
      using cov True ho(2) unfolding covers_def by simp
    with root_update_run[OF tg, of emptyShadowView "- 1" "Some (map htag (hostChildren ?To))"] True
    show ?thesis unfolding co cn by (simp add: run_append)
  next
    case False
    have co: "cell_of [?To] t = cell_of (hostChildren ?To) t"
      using False ho(2) by (simp add: cell_of_tree)
    have cn: "cell_of [?Tn] t = cell_of (hostChildren ?Tn) t"
      using False hn(2) by (simp add: cell_of_tree)
    have "run ?ms0 t c = Some c" for c
      using False by (intro run_untouched) simp
    moreover have "run (D ?vo ?olds0 ?news0) t (cell_of (hostChildren ?To) t)
        = Some (cell_of (hostChildren ?Tn) t)"
      using cov False ho(2) unfolding covers_def by simp
    ultimately show ?thesis unfolding co cn by (simp add: run_append)
  qed
  with res show ?thesis by blast
qed

text \<open>
  Four pairs of trees, all with root tag 1. In \<open>moveOld\<close> and \<open>moveNew\<close> the view 4 moves
  from parent 3 to parent 2. In \<open>reinsertOld\<close> and \<open>reinsertNew\<close> the children 2 and 3 swap,
  and 3, with its view unchanged, gets the child 4. In \<open>changeOld\<close> and \<open>changeNew\<close> the
  children 2 and 3 swap and the props of 2 change. From \<open>sceneOld\<close> to \<open>sceneNew\<close> the root
  and the view 2 change their props, 2 begins to form a stacking context and so takes its
  child 4 out of the child list of the root, 5 and 6 swap unchanged, 7 with its child 11 is
  new, and 8 with its child 9 goes away.
\<close>

definition moveOld :: ShadowNode where
  "moveOld = stackingView 1 0 [stackingView 2 0 [],
     stackingView 3 0 [stackingView 4 0 [], stackingView 5 0 []]]"

definition moveNew :: ShadowNode where
  "moveNew = stackingView 1 0 [stackingView 2 0 [stackingView 4 0 []],
     stackingView 3 0 [stackingView 5 0 []]]"

definition reinsertOld :: ShadowNode where
  "reinsertOld = stackingView 1 0 [stackingView 2 0 [], stackingView 3 0 []]"

definition reinsertNew :: ShadowNode where
  "reinsertNew = stackingView 1 0 [stackingView 3 0 [stackingView 4 0 []], stackingView 2 0 []]"

definition changeOld :: ShadowNode where
  "changeOld = stackingView 1 0 [stackingView 2 0 [], stackingView 3 0 []]"

definition changeNew :: ShadowNode where
  "changeNew = stackingView 1 0 [stackingView 3 0 [], stackingView 2 7 []]"

definition sceneOld :: ShadowNode where
  "sceneOld = stackingView 1 0
     [exampleNode 2 Point_zero {FormsView} 0 [stackingView 4 0 []],
      stackingView 5 0 [], stackingView 6 0 [stackingView 10 0 []],
      stackingView 8 0 [stackingView 9 0 []]]"

definition sceneNew :: ShadowNode where
  "sceneNew = stackingView 1 1
     [stackingView 2 1 [stackingView 4 0 []],
      stackingView 6 0 [stackingView 10 0 []], stackingView 5 0 [],
      stackingView 7 0 [stackingView 11 0 []]]"

section \<open>The claims\<close>

subsection \<open>C1: coverage\<close>




subsection \<open>C2: the order of the flush\<close>

text \<open>
  Claim C2: what a call of the recursive driver appends to its caller's list is the
  concatenation of its local lists in this order: destructive downward, update, remove
  reversed, delete, create, downward, insert. The remove list holds the removals by
  increasing index, from the index where stage 1 stopped, so its reverse has the highest
  index first.
\<close>

theorem flush_order:
  assumes "calculateShadowViewMutations mutations parentShadowView oldChildPairs newChildPairs
      = Some result"
    and "\<not> (oldChildPairs = [] \<and> newChildPairs = [])"
  shows "\<exists>L s1 ip2 s2 ip3 s3 s4.
     stage1 parentShadowView (reorderInPlaceIfNeeded oldChildPairs)
       (reorderInPlaceIfNeeded newChildPairs) 0 emptyLocals = Some (L, s1) \<and>
     stage2 parentShadowView (reorderInPlaceIfNeeded newChildPairs) L [] s1 = Some (ip2, s2) \<and>
     stage3 parentShadowView (reorderInPlaceIfNeeded oldChildPairs) L ip2 s2 = Some (ip3, s3) \<and>
     stage4 parentShadowView (reorderInPlaceIfNeeded newChildPairs) L ip3 s3 = Some s4 \<and>
     result = mutations @ destructiveDownwardMutations s4 @ updateMutations s4 @
       rev (removeMutations s4) @ deleteMutations s4 @ createMutations s4 @
       downwardMutations s4 @ insertMutations s4 \<and>
     removeMutations s4 =
       map (\<lambda>i. RemoveMutation parentShadowView
                  (shadowView (reorderInPlaceIfNeeded oldChildPairs ! i)) (int i))
         [L..<length oldChildPairs]"
proof -
  let ?olds = "reorderInPlaceIfNeeded oldChildPairs"
  let ?news = "reorderInPlaceIfNeeded newChildPairs"
  from assms obtain L s1 ip2 s2 ip3 s3 s4 where
    st1: "stage1 parentShadowView ?olds ?news 0 emptyLocals = Some (L, s1)" and
    st2: "stage2 parentShadowView ?news L [] s1 = Some (ip2, s2)" and
    st3: "stage3 parentShadowView ?olds L ip2 s2 = Some (ip3, s3)" and
    st4: "stage4 parentShadowView ?news L ip3 s3 = Some s4" and
    res: "result = flush mutations s4"
    by (auto simp: calculateShadowViewMutations_unfold bind_eq_Some_conv)
  from stages_result(4)[OF st1 st2 st3 st4]
  have "removeMutations s4 = removes_from parentShadowView ?olds L" by simp
  then have "removeMutations s4 =
       map (\<lambda>i. RemoveMutation parentShadowView (shadowView (?olds ! i)) (int i))
         [L..<length oldChildPairs]"
    by (simp add: removes_from_def)
  with st1 st2 st3 st4 res show ?thesis
    unfolding flush_def by blast
qed

theorem flush_order_witness:
  "\<exists>L s1 ip2 s2 ip3 s3 s4.
     stage1 (exampleView 1 0 Point_zero) (reorderInPlaceIfNeeded swapOld)
       (reorderInPlaceIfNeeded swapNew) 0 emptyLocals = Some (L, s1) \<and>
     stage2 (exampleView 1 0 Point_zero) (reorderInPlaceIfNeeded swapNew) L [] s1 = Some (ip2, s2) \<and>
     stage3 (exampleView 1 0 Point_zero) (reorderInPlaceIfNeeded swapOld) L ip2 s2 = Some (ip3, s3) \<and>
     stage4 (exampleView 1 0 Point_zero) (reorderInPlaceIfNeeded swapNew) L ip3 s3 = Some s4 \<and>
     [RemoveMutation (exampleView 1 0 Point_zero) (exampleView 3 0 Point_zero) 1,
      RemoveMutation (exampleView 1 0 Point_zero) (exampleView 2 0 Point_zero) 0,
      InsertMutation (exampleView 1 0 Point_zero) (exampleView 3 0 Point_zero) 0,
      InsertMutation (exampleView 1 0 Point_zero) (exampleView 2 0 Point_zero) 1]
       = [] @ destructiveDownwardMutations s4 @ updateMutations s4 @
       rev (removeMutations s4) @ deleteMutations s4 @ createMutations s4 @
       downwardMutations s4 @ insertMutations s4 \<and>
     removeMutations s4 =
       map (\<lambda>i. RemoveMutation (exampleView 1 0 Point_zero)
                  (shadowView (reorderInPlaceIfNeeded swapOld ! i)) (int i))
         [L..<length swapOld]"
proof -
  have e: "calculateShadowViewMutations [] (exampleView 1 0 Point_zero) swapOld swapNew
    = Some [RemoveMutation (exampleView 1 0 Point_zero) (exampleView 3 0 Point_zero) 1,
      RemoveMutation (exampleView 1 0 Point_zero) (exampleView 2 0 Point_zero) 0,
      InsertMutation (exampleView 1 0 Point_zero) (exampleView 3 0 Point_zero) 0,
      InsertMutation (exampleView 1 0 Point_zero) (exampleView 2 0 Point_zero) 1]"
    by code_simp
  have n: "\<not> (swapOld = [] \<and> swapNew = [])" by (simp add: swapOld_def)
  show ?thesis by (rule flush_order[OF e n])
qed

subsection \<open>C3: create before insert\<close>

text \<open>
  Claim C3: in the list that \<open>diffRoots(Old, New)\<close> returns, every \<^verbatim>\<open>Insert(p, v, i)\<close> has a
  \<^verbatim>\<open>Create(v)\<close> earlier in the list, unless the tag of \<open>v\<close> is a tag of the flattened
  projection of \<open>Old\<close>.
\<close>

theorem create_before_insert:
  assumes "diffRoots Old New = Some mutations"
    and "mutations = before @ InsertMutation p v i # after"
  shows "CreateMutation v \<in> set before \<or> tag v \<in> set (tags_of (projection Old))"
proof -
  let ?T = "forest_tags (sliceChildShadowNodeViewPairs Old)"
  from assms(1) obtain ms0 where
    c: "calculateShadowViewMutations ms0 (ShadowView_of Old)
          (sliceChildShadowNodeViewPairs Old) (sliceChildShadowNodeViewPairs New) = Some mutations"
    and ms0: "created_before_insert ?T {} ms0"
    by (auto simp: diffRoots_def Let_def split: if_splits)
  from calculateShadowViewMutations_sound[OF c]
  have "mutations = ms0 @ D (ShadowView_of Old)
      (sliceChildShadowNodeViewPairs Old) (sliceChildShadowNodeViewPairs New)" .
  moreover have "created_before_insert ?T (created ms0) (D (ShadowView_of Old)
      (sliceChildShadowNodeViewPairs Old) (sliceChildShadowNodeViewPairs New))"
    using D_created_before_insert by (rule cbi_mono) simp_all
  ultimately have "created_before_insert ?T {} mutations"
    using ms0 by (simp add: cbi_append)
  from cbi_decompose[OF this assms(2)]
  have "CreateMutation v \<in> set before \<or> tag v \<in> ?T" by simp
  moreover have "?T \<subseteq> set (tags_of (projection Old))"
    by (auto simp: forest_tags_def projection_def)
  ultimately show ?thesis by auto
qed

theorem create_before_insert_witness:
  "CreateMutation (exampleView 3 0 Point_zero)
     \<in> set [RemoveMutation (exampleView 1 0 Point_zero) (exampleView 2 0 Point_zero) 0,
            CreateMutation (exampleView 3 0 Point_zero)] \<or>
   tag (exampleView 3 0 Point_zero)
     \<in> set (tags_of (projection (stackingView 1 0 [stackingView 2 0 []])))"
proof -
  have e: "diffRoots (stackingView 1 0 [stackingView 2 0 []])
             (stackingView 1 0 [stackingView 3 0 [], stackingView 2 0 []])
     = Some [RemoveMutation (exampleView 1 0 Point_zero) (exampleView 2 0 Point_zero) 0,
             CreateMutation (exampleView 3 0 Point_zero),
             InsertMutation (exampleView 1 0 Point_zero) (exampleView 3 0 Point_zero) 0,
             InsertMutation (exampleView 1 0 Point_zero) (exampleView 2 0 Point_zero) 1]"
    by code_simp
  have d: "[RemoveMutation (exampleView 1 0 Point_zero) (exampleView 2 0 Point_zero) 0,
             CreateMutation (exampleView 3 0 Point_zero),
             InsertMutation (exampleView 1 0 Point_zero) (exampleView 3 0 Point_zero) 0,
             InsertMutation (exampleView 1 0 Point_zero) (exampleView 2 0 Point_zero) 1]
     = [RemoveMutation (exampleView 1 0 Point_zero) (exampleView 2 0 Point_zero) 0,
            CreateMutation (exampleView 3 0 Point_zero)] @
       InsertMutation (exampleView 1 0 Point_zero) (exampleView 3 0 Point_zero) 0 #
       [InsertMutation (exampleView 1 0 Point_zero) (exampleView 2 0 Point_zero) 1]"
    by simp
  show ?thesis by (rule create_before_insert[OF e d])
qed

subsection \<open>C4: a reinserted view is not created\<close>

text \<open>
  Claim C4: at a call of the recursive driver (a common parent) whose new siblings have
  distinct tags, as the tags of one tree are, a tag that occurs both among the old and among
  the new siblings gets no \<^verbatim>\<open>Create\<close> in the create list of that call.
\<close>

theorem reinsertion_no_create:
  assumes "calculateShadowViewMutations mutations parentShadowView oldChildPairs newChildPairs
      = Some result"
    and "distinct (map (\<lambda>pair. tag (shadowView pair)) newChildPairs)"
    and "t \<in> (\<lambda>pair. tag (shadowView pair)) ` set oldChildPairs"
    and "t \<in> (\<lambda>pair. tag (shadowView pair)) ` set newChildPairs"
  shows "\<exists>L s1 ip2 s2 ip3 s3 s4.
     stage1 parentShadowView (reorderInPlaceIfNeeded oldChildPairs)
       (reorderInPlaceIfNeeded newChildPairs) 0 emptyLocals = Some (L, s1) \<and>
     stage2 parentShadowView (reorderInPlaceIfNeeded newChildPairs) L [] s1 = Some (ip2, s2) \<and>
     stage3 parentShadowView (reorderInPlaceIfNeeded oldChildPairs) L ip2 s2 = Some (ip3, s3) \<and>
     stage4 parentShadowView (reorderInPlaceIfNeeded newChildPairs) L ip3 s3 = Some s4 \<and>
     (\<forall>v. tag v = t \<longrightarrow> CreateMutation v \<notin> set (createMutations s4))"
proof -
  let ?olds = "reorderInPlaceIfNeeded oldChildPairs"
  let ?news = "reorderInPlaceIfNeeded newChildPairs"
  from assms(3) have ne: "\<not> (oldChildPairs = [] \<and> newChildPairs = [])" by auto
  with assms(1) obtain L s1 ip2 s2 ip3 s3 s4 where
    st1: "stage1 parentShadowView ?olds ?news 0 emptyLocals = Some (L, s1)" and
    st2: "stage2 parentShadowView ?news L [] s1 = Some (ip2, s2)" and
    st3: "stage3 parentShadowView ?olds L ip2 s2 = Some (ip3, s3)" and
    st4: "stage4 parentShadowView ?news L ip3 s3 = Some s4"
    by (auto simp: calculateShadowViewMutations_unfold bind_eq_Some_conv)
  note R = stages_result[OF st1 st2 st3 st4]
  have dn: "distinct (map vtag ?news)"
    using assms(2) mset_reorderInPlaceIfNeeded[of newChildPairs]
    by (metis mset_eq_imp_distinct_iff mset_map)
  have L_le: "L \<le> length ?olds" "L \<le> length ?news"
    using stage1_stop_le[of 0 ?olds ?news] R(1) by simp_all
  have "CreateMutation v \<notin> set (createMutations s4)" if tv: "tag v = t" for v
  proof
    assume "CreateMutation v \<in> set (createMutations s4)"
    then have "CreateMutation v \<in> set (creates_from ?news L ip3)" using R(4) by simp
    then obtain j where j: "L \<le> j" "j < length ?news" "v = shadowView (?news ! j)"
      and f: "find_TinyMap (vtag (?news ! j)) ip3 \<noteq> None"
      by (auto simp: creates_from_set)
    have tj: "vtag (?news ! j) = t" using j tv by simp
    have tnz: "t \<noteq> 0" using stage2_nonzero[OF st2 j(1) j(2)] tj by simp
    from assms(3) obtain a where a: "a < length ?olds" "vtag (?olds ! a) = t"
      by (metis (mono_tags, lifting) image_iff in_set_conv_nth set_reorderInPlaceIfNeeded)
    show False
    proof (cases "a < L")
      case True
      then have "vtag (?news ! a) = t"
        using stage1_stop_aligned[of 0 a ?olds ?news] R(1) a by simp
      moreover have "a < length ?news" "a \<noteq> j" using True L_le j by simp_all
      ultimately show False using dn tj j(2)
        by (metis (no_types, lifting) distinct_conv_nth length_map nth_map)
    next
      case False
      then have "a - L < length ?olds - L" "L + (a - L) = a" using a by simp_all
      with insertedPairs_at_erased[OF nonzero_keys_distinct_inserted_map[OF dn, of L],
          of "a - L" "length ?olds - L" ?olds L] a tnz
      have "t \<notin> fst ` set ip3" using R(2) R(3) by simp
      with f tj show False by (simp add: find_TinyMap_None_iff)
    qed
  qed
  with st1 st2 st3 st4 show ?thesis by blast
qed

theorem reinsertion_no_create_witness:
  "\<exists>L s1 ip2 s2 ip3 s3 s4.
     stage1 (exampleView 1 0 Point_zero) (reorderInPlaceIfNeeded swapOld)
       (reorderInPlaceIfNeeded swapNew) 0 emptyLocals = Some (L, s1) \<and>
     stage2 (exampleView 1 0 Point_zero) (reorderInPlaceIfNeeded swapNew) L [] s1 = Some (ip2, s2) \<and>
     stage3 (exampleView 1 0 Point_zero) (reorderInPlaceIfNeeded swapOld) L ip2 s2 = Some (ip3, s3) \<and>
     stage4 (exampleView 1 0 Point_zero) (reorderInPlaceIfNeeded swapNew) L ip3 s3 = Some s4 \<and>
     (\<forall>v. tag v = 2 \<longrightarrow> CreateMutation v \<notin> set (createMutations s4))"
proof -
  have e: "calculateShadowViewMutations [] (exampleView 1 0 Point_zero) swapOld swapNew
    = Some [RemoveMutation (exampleView 1 0 Point_zero) (exampleView 3 0 Point_zero) 1,
      RemoveMutation (exampleView 1 0 Point_zero) (exampleView 2 0 Point_zero) 0,
      InsertMutation (exampleView 1 0 Point_zero) (exampleView 3 0 Point_zero) 0,
      InsertMutation (exampleView 1 0 Point_zero) (exampleView 2 0 Point_zero) 1]"
    by code_simp
  have d: "distinct (map (\<lambda>pair. tag (shadowView pair)) swapNew)"
    by (simp add: swapNew_def pairOf_def ShadowView_of_def stackingView_def exampleView_def)
  have o: "2 \<in> (\<lambda>pair. tag (shadowView pair)) ` set swapOld"
    by (simp add: swapOld_def pairOf_def ShadowView_of_def stackingView_def exampleView_def)
  have n: "2 \<in> (\<lambda>pair. tag (shadowView pair)) ` set swapNew"
    by (simp add: swapNew_def pairOf_def ShadowView_of_def stackingView_def exampleView_def)
  show ?thesis by (rule reinsertion_no_create[OF e d o n])
qed

subsection \<open>C5: prepending one child\<close>

text \<open>
  Claim C5 states that for \<open>Old = P[A]\<close> and \<open>New = P[B, A]\<close> the differentiator emits
  exactly \<open>Create(B), Insert(P, B, 0)\<close> and nothing that mentions \<open>A\<close>. It does not: the
  tags at index 0 differ, stage 1 stops at once, and \<open>A\<close> is removed and inserted again.
  The concrete instance, with tags 1, 2 and 3 for \<open>P\<close>, \<open>A\<close> and \<open>B\<close>:
\<close>

theorem prepend_one_child_counterexample:
  "diffRoots (stackingView 1 0 [stackingView 2 0 []])
             (stackingView 1 0 [stackingView 3 0 [], stackingView 2 0 []])
     = Some [RemoveMutation (exampleView 1 0 Point_zero) (exampleView 2 0 Point_zero) 0,
             CreateMutation (exampleView 3 0 Point_zero),
             InsertMutation (exampleView 1 0 Point_zero) (exampleView 3 0 Point_zero) 0,
             InsertMutation (exampleView 1 0 Point_zero) (exampleView 2 0 Point_zero) 1] \<and>
   diffRoots (stackingView 1 0 [stackingView 2 0 []])
             (stackingView 1 0 [stackingView 3 0 [], stackingView 2 0 []])
     \<noteq> Some [CreateMutation (exampleView 3 0 Point_zero),
             InsertMutation (exampleView 1 0 Point_zero) (exampleView 3 0 Point_zero) 0]"
  by code_simp

text \<open>
  Claim C5, amended: for \<open>Old = P[A]\<close> and \<open>New = P[B, A]\<close> with distinct non-zero tags,
  \<open>A\<close> unchanged, order indices zero, \<open>A\<close> and \<open>B\<close> childless views that form stacking
  contexts and \<open>P\<close> a stacking context, the differentiator emits exactly
  \<open>Remove(P, A, 0), Create(B), Insert(P, B, 0), Insert(P, A, 1)\<close>.
\<close>

theorem prepend_one_child:
  assumes "tag vA \<noteq> tag vB" and "tag vA \<noteq> 0" and "tag vB \<noteq> 0"
    and "FormsStackingContext \<in> traitsP"
    and "A = ShadowNode vA sA 0 {FormsView, FormsStackingContext} []"
    and "B = ShadowNode vB sB 0 {FormsView, FormsStackingContext} []"
  shows "diffRoots (ShadowNode vP sP oP traitsP [A]) (ShadowNode vP sP oP traitsP [B, A])
     = Some [RemoveMutation vP vA 0, CreateMutation vB, InsertMutation vP vB 0,
             InsertMutation vP vA 1]"
  using assms
  by (simp add: diffRoots_def sameFamily_def ShadowView_of_def sliceChildShadowNodeViewPairs_def
      check_def Let_def calculateShadowViewMutations.simps stage1.simps stage2.simps
      stage3.simps stage4.simps reorderInPlaceIfNeeded_def pairOrderIndex_def
      emptyLocals_def flush_def insert_TinyMap_def find_TinyMap_def end_TinyMap_def
      deref_TinyMap_def erase_TinyMap_def pair_ne_def)

theorem prepend_one_child_witness:
  "diffRoots
     (ShadowNode (exampleView 10 0 Point_zero) 1 0 {FormsView, FormsStackingContext}
        [ShadowNode (exampleView 11 0 Point_zero) 1 0 {FormsView, FormsStackingContext} []])
     (ShadowNode (exampleView 10 0 Point_zero) 1 0 {FormsView, FormsStackingContext}
        [ShadowNode (exampleView 12 7 Point_zero) 1 0 {FormsView, FormsStackingContext} [],
         ShadowNode (exampleView 11 0 Point_zero) 1 0 {FormsView, FormsStackingContext} []])
   = Some [RemoveMutation (exampleView 10 0 Point_zero) (exampleView 11 0 Point_zero) 0,
           CreateMutation (exampleView 12 7 Point_zero),
           InsertMutation (exampleView 10 0 Point_zero) (exampleView 12 7 Point_zero) 0,
           InsertMutation (exampleView 10 0 Point_zero) (exampleView 11 0 Point_zero) 1]"
  using prepend_one_child [of "exampleView 11 0 Point_zero" "exampleView 12 7 Point_zero"
      "{FormsView, FormsStackingContext}"
      "ShadowNode (exampleView 11 0 Point_zero) 1 0 {FormsView, FormsStackingContext} []" 1
      "ShadowNode (exampleView 12 7 Point_zero) 1 0 {FormsView, FormsStackingContext} []" 1
      "exampleView 10 0 Point_zero" 1 0]
  by (simp add: exampleView_def)

subsection \<open>C6: identity\<close>

text \<open>
  Claim C6: for every tree \<open>T\<close>, \<open>diffRoots(T, T)\<close> returns the empty mutation list.
  View equality is HOL equality, which is reflexive on every tree, and a tree is of its
  own family, so the statement has no hypothesis.
\<close>

theorem diffRoots_identity: "diffRoots T T = Some []"
  by (simp add: diffRoots_def sameFamily_def calculateShadowViewMutations_same)

theorem diffRoots_identity_witness:
  "diffRoots (stackingView 1 0 [stackingView 2 0 [stackingView 4 0 []], stackingView 3 5 []])
             (stackingView 1 0 [stackingView 2 0 [stackingView 4 0 []], stackingView 3 5 []])
     = Some []"
  using diffRoots_identity
    [of "stackingView 1 0 [stackingView 2 0 [stackingView 4 0 []], stackingView 3 5 []]"]
  by simp

subsection \<open>C7: the slicer\<close>

text \<open>
  Claim C7: \<open>sliceChildShadowNodeViewPairs(N)\<close> is empty when \<open>N\<close> forms a view and no
  stacking context; otherwise it is the walk of the children of \<open>N\<close> from offset \<open>(0, 0)\<close>
  as the specification words it (\<open>effective_children\<close>).
\<close>

theorem sliceChildShadowNodeViewPairs_contract:
  "sliceChildShadowNodeViewPairs N =
     (if check (getTraits N) FormsView \<and> \<not> check (getTraits N) FormsStackingContext then []
      else effective_children Point_zero N)"
  by (auto simp: sliceChildShadowNodeViewPairs_def slice_loop_effective)

text \<open>An instance: a stacking context whose first child forms a view only, at \<open>(10, 20)\<close>,
  with a child at \<open>(1, 2)\<close> that is promoted with the offset added; and a node that forms a
  view only, whose slice is empty.\<close>

theorem sliceChildShadowNodeViewPairs_contract_witness:
  "sliceChildShadowNodeViewPairs
     (exampleNode 1 Point_zero {FormsView, FormsStackingContext} 0
        [exampleNode 2 \<lparr>x_coord = 10, y_coord = 20\<rparr> {FormsView} 0
           [exampleNode 3 \<lparr>x_coord = 1, y_coord = 2\<rparr> {FormsView, FormsStackingContext} 0
              [exampleNode 4 Point_zero {FormsView} 0 []]]])
   = [\<lparr>shadowView = exampleView 2 0 \<lparr>x_coord = 10, y_coord = 20\<rparr>,
       shadowNode = exampleNode 2 \<lparr>x_coord = 10, y_coord = 20\<rparr> {FormsView} 0
           [exampleNode 3 \<lparr>x_coord = 1, y_coord = 2\<rparr> {FormsView, FormsStackingContext} 0
              [exampleNode 4 Point_zero {FormsView} 0 []]]\<rparr>,
      \<lparr>shadowView = exampleView 3 0 \<lparr>x_coord = 11, y_coord = 22\<rparr>,
       shadowNode = exampleNode 3 \<lparr>x_coord = 1, y_coord = 2\<rparr> {FormsView, FormsStackingContext} 0
              [exampleNode 4 Point_zero {FormsView} 0 []]\<rparr>] \<and>
   sliceChildShadowNodeViewPairs
     (exampleNode 2 \<lparr>x_coord = 10, y_coord = 20\<rparr> {FormsView} 0
        [exampleNode 3 \<lparr>x_coord = 1, y_coord = 2\<rparr> {FormsView, FormsStackingContext} 0 []])
   = []"
  using sliceChildShadowNodeViewPairs_contract
    [of "exampleNode 1 Point_zero {FormsView, FormsStackingContext} 0
        [exampleNode 2 \<lparr>x_coord = 10, y_coord = 20\<rparr> {FormsView} 0
           [exampleNode 3 \<lparr>x_coord = 1, y_coord = 2\<rparr> {FormsView, FormsStackingContext} 0
              [exampleNode 4 Point_zero {FormsView} 0 []]]]"]
    sliceChildShadowNodeViewPairs_contract
    [of "exampleNode 2 \<lparr>x_coord = 10, y_coord = 20\<rparr> {FormsView} 0
        [exampleNode 3 \<lparr>x_coord = 1, y_coord = 2\<rparr> {FormsView, FormsStackingContext} 0 []]"]
  by (simp add: exampleNode_def exampleView_def check_def ShadowView_of_def offsetView_def
      Point_plus_def Point_zero_def)

subsection \<open>C8: sibling reorder\<close>

text \<open>
  Claim C8: \<open>reorderInPlaceIfNeeded\<close> is the stable sort by order index when some element
  has a non-zero order index and the identity otherwise. Its result is a permutation of the
  list, sorted by order index, with the elements of each order index in their source
  order; it is the list itself when every order index is zero. The recursive driver
  reorders both sibling lists first: it returns the same for the lists and for the
  reordered lists.
\<close>

theorem reorderInPlaceIfNeeded_stable_sort:
  "reorderInPlaceIfNeeded pairs =
     (if \<exists>p\<in>set pairs. pairOrderIndex p \<noteq> 0
      then stable_sort shouldFirstPairComesBeforeSecondOne pairs else pairs) \<and>
   mset (reorderInPlaceIfNeeded pairs) = mset pairs \<and>
   sorted (map pairOrderIndex (reorderInPlaceIfNeeded pairs)) \<and>
   (\<forall>k. filter (\<lambda>p. pairOrderIndex p = k) (reorderInPlaceIfNeeded pairs)
          = filter (\<lambda>p. pairOrderIndex p = k) pairs) \<and>
   ((\<forall>p\<in>set pairs. pairOrderIndex p = 0) \<longrightarrow> reorderInPlaceIfNeeded pairs = pairs) \<and>
   calculateShadowViewMutations mutations parentShadowView oldChildPairs newChildPairs =
     calculateShadowViewMutations mutations parentShadowView
       (reorderInPlaceIfNeeded oldChildPairs) (reorderInPlaceIfNeeded newChildPairs)"
proof -
  have "length pairs < 2 \<Longrightarrow> stable_sort shouldFirstPairComesBeforeSecondOne pairs = pairs"
    by (cases pairs) (auto simp: less_Suc_eq numeral_2_eq_2)
  then have "reorderInPlaceIfNeeded pairs =
     (if \<exists>p\<in>set pairs. pairOrderIndex p \<noteq> 0
      then stable_sort shouldFirstPairComesBeforeSecondOne pairs else pairs)"
    by (simp add: reorderInPlaceIfNeeded_def isReorderNeeded_iff)
  moreover have "(\<forall>p\<in>set pairs. pairOrderIndex p = 0) \<longrightarrow> reorderInPlaceIfNeeded pairs = pairs"
    by (simp add: reorderInPlaceIfNeeded_def isReorderNeeded_iff)
  ultimately show ?thesis
    using mset_reorderInPlaceIfNeeded[of pairs] sorted_reorderInPlaceIfNeeded[of pairs]
      filter_reorderInPlaceIfNeeded[of _ pairs]
      calculateShadowViewMutations_reordered[of mutations parentShadowView oldChildPairs newChildPairs]
    by blast
qed

theorem reorderInPlaceIfNeeded_stable_sort_witness:
  "reorderInPlaceIfNeeded
     [\<lparr>shadowView = exampleView 1 0 Point_zero, shadowNode = exampleNode 1 Point_zero {FormsView} 1 []\<rparr>,
      \<lparr>shadowView = exampleView 2 0 Point_zero, shadowNode = exampleNode 2 Point_zero {FormsView} 0 []\<rparr>,
      \<lparr>shadowView = exampleView 3 0 Point_zero, shadowNode = exampleNode 3 Point_zero {FormsView} 1 []\<rparr>]
   = [\<lparr>shadowView = exampleView 2 0 Point_zero, shadowNode = exampleNode 2 Point_zero {FormsView} 0 []\<rparr>,
      \<lparr>shadowView = exampleView 1 0 Point_zero, shadowNode = exampleNode 1 Point_zero {FormsView} 1 []\<rparr>,
      \<lparr>shadowView = exampleView 3 0 Point_zero, shadowNode = exampleNode 3 Point_zero {FormsView} 1 []\<rparr>] \<and>
   reorderInPlaceIfNeeded
     [\<lparr>shadowView = exampleView 1 0 Point_zero, shadowNode = exampleNode 1 Point_zero {FormsView} 0 []\<rparr>,
      \<lparr>shadowView = exampleView 2 0 Point_zero, shadowNode = exampleNode 2 Point_zero {FormsView} 0 []\<rparr>]
   = [\<lparr>shadowView = exampleView 1 0 Point_zero, shadowNode = exampleNode 1 Point_zero {FormsView} 0 []\<rparr>,
      \<lparr>shadowView = exampleView 2 0 Point_zero, shadowNode = exampleNode 2 Point_zero {FormsView} 0 []\<rparr>]"
  using reorderInPlaceIfNeeded_stable_sort
    [of "[\<lparr>shadowView = exampleView 1 0 Point_zero, shadowNode = exampleNode 1 Point_zero {FormsView} 1 []\<rparr>,
      \<lparr>shadowView = exampleView 2 0 Point_zero, shadowNode = exampleNode 2 Point_zero {FormsView} 0 []\<rparr>,
      \<lparr>shadowView = exampleView 3 0 Point_zero, shadowNode = exampleNode 3 Point_zero {FormsView} 1 []\<rparr>]"]
    reorderInPlaceIfNeeded_stable_sort
    [of "[\<lparr>shadowView = exampleView 1 0 Point_zero, shadowNode = exampleNode 1 Point_zero {FormsView} 0 []\<rparr>,
      \<lparr>shadowView = exampleView 2 0 Point_zero, shadowNode = exampleNode 2 Point_zero {FormsView} 0 []\<rparr>]"]
  by (simp add: pairOrderIndex_def exampleNode_def shouldFirstPairComesBeforeSecondOne_def)

subsection \<open>C9: TinyMap\<close>




subsection \<open>C10: adding a tree for a surface that has one\<close>

text \<open>
  Claim C10: \<open>ShadowTreeRegistry::add\<close> with a tree whose surface id is already in the
  registry leaves the registry as it is; the tree stored before stays.
\<close>

theorem add_present_surfaceId_unchanged:
  "registry (treeSurfaceId shadowTree) = Some stored \<Longrightarrow>
     add shadowTree registry = registry \<and>
     add shadowTree registry (treeSurfaceId shadowTree) = Some stored"
  by (simp add: add_def emplace_def)

theorem add_present_surfaceId_unchanged_witness:
  "add \<lparr>treeSurfaceId = 1, treeContent = ''new''\<rparr>
       [1 \<mapsto> \<lparr>treeSurfaceId = 1, treeContent = ''old''\<rparr>]
     = [1 \<mapsto> \<lparr>treeSurfaceId = 1, treeContent = ''old''\<rparr>] \<and>
   add \<lparr>treeSurfaceId = 1, treeContent = ''new''\<rparr>
       [1 \<mapsto> \<lparr>treeSurfaceId = 1, treeContent = ''old''\<rparr>] 1
     = Some \<lparr>treeSurfaceId = 1, treeContent = ''old''\<rparr>"
  using add_present_surfaceId_unchanged
    [of "[1 \<mapsto> \<lparr>treeSurfaceId = 1, treeContent = ''old''\<rparr>]"
        "\<lparr>treeSurfaceId = 1, treeContent = ''new''\<rparr>"
        "\<lparr>treeSurfaceId = 1, treeContent = ''old''\<rparr>"]
  by simp

end
